(* ===== verification/MRD_Prelude.thy ===== *)
theory MRD_Prelude
  imports Main "HOL-Library.Word" "HOL-Library.Monad_Syntax" "HOL-Library.Multiset" "HOL-Library.Tree"
begin

text \<open>
  Shared vocabulary of the development: the machine types of the program, the option monad
  in which code with undefined behaviour is written, and generic facts on lists, maps and words.

  A function of the program that dereferences pointers, asserts, or indexes arrays returns
  an option: \<open>None\<close> stands for an execution that does not return (a null or dangling pointer, an
  access outside an allocation, a failed \<^verbatim>\<open>assert\<close>, an uncaught exception, or a loop that never
  ends). A theorem that a call returns is therefore always a theorem \<open>\<dots> = Some \<dots>\<close>.
\<close>

unbundle bit_operations_syntax

type_synonym u8 = "8 word"
type_synonym u32 = "32 word"
type_synonym u64 = "64 word"
type_synonym bytes = "8 word list"

text \<open>An object is named by its address; a pointer that may be null is an address option.\<close>

type_synonym addr = nat

named_theorems heap_simps \<open>reads, writes and frames of the stores\<close>
named_theorems bind_simps \<open>unfolding of the option monad\<close>

subsection \<open>The option monad\<close>

definition oguard :: "bool \<Rightarrow> unit option" where
  "oguard b = (if b then Some () else None)"

lemma oguard_True [simp]: "oguard True = Some ()"
  by (simp add: oguard_def)

lemma oguard_False [simp]: "oguard False = None"
  by (simp add: oguard_def)

lemma oguard_eq_Some [simp]: "oguard b = Some u \<longleftrightarrow> b"
  by (simp add: oguard_def)

lemma bind_Some_iff [bind_simps]:
  "(Option.bind m f = Some y) \<longleftrightarrow> (\<exists>x. m = Some x \<and> f x = Some y)"
  by (cases m) auto

text \<open>Writing a field of an allocated object; a dangling address has no object to write.\<close>

definition upd_at :: "addr \<Rightarrow> ('n \<Rightarrow> 'n) \<Rightarrow> (addr \<rightharpoonup> 'n) \<Rightarrow> (addr \<rightharpoonup> 'n) option" where
  "upd_at a f H = (case H a of None \<Rightarrow> None | Some n \<Rightarrow> Some (H(a \<mapsto> f n)))"

lemma upd_at_Some [simp]: "H a = Some n \<Longrightarrow> upd_at a f H = Some (H(a \<mapsto> f n))"
  by (simp add: upd_at_def)

lemma upd_at_None [simp]: "H a = None \<Longrightarrow> upd_at a f H = None"
  by (simp add: upd_at_def)

lemma upd_at_dom: "upd_at a f H = Some H' \<Longrightarrow> dom H' = dom H"
  by (auto simp: upd_at_def dom_def split: option.splits if_splits)

subsection \<open>Lists\<close>

lemma mset_concat_update:
  "i < length xss \<Longrightarrow> mset (concat (xss[i := ys])) + mset (xss ! i) = mset (concat xss) + mset ys"
proof (induction xss arbitrary: i)
  case Nil
  then show ?case by simp
next
  case (Cons xs xss)
  then show ?case by (cases i) (auto simp: ac_simps)
qed

lemma concat_replicate_Nil [simp]: "concat (replicate n []) = []"
  by (induction n) auto

lemma nth_in_concat: "i < length xss \<Longrightarrow> x \<in> set (xss ! i) \<Longrightarrow> x \<in> set (concat xss)"
  by (meson UN_I nth_mem set_concat[THEN equalityD2, THEN subsetD])

lemma set_mset_remove: "distinct xs \<Longrightarrow> set_mset (mset xs - {#x#}) = set xs - {x}"
  by (metis mset_remove1 set_mset_mset set_remove1_eq)

lemma map_eqI: "(\<And>k v. f k = Some v \<longleftrightarrow> g k = Some v) \<Longrightarrow> f = g"
  by (rule ext) (metis not_Some_eq)

subsection \<open>Words\<close>

lemma unat_of_nat_small:
  "n < 2 ^ LENGTH('a) \<Longrightarrow> unat (of_nat n :: 'a::len word) = n"
  by (simp add: unat_of_nat)

lemma of_nat_less_word:
  assumes "m < 2 ^ LENGTH('a)" and "n < 2 ^ LENGTH('a)"
  shows "((of_nat m :: 'a::len word) < of_nat n) = (m < n)"
  using assms by (simp add: word_less_nat_alt unat_of_nat_small)

lemma of_nat_eq_word:
  assumes "m < 2 ^ LENGTH('a)" and "n < 2 ^ LENGTH('a)"
  shows "((of_nat m :: 'a::len word) = of_nat n) = (m = n)"
  using assms by (metis unat_of_nat_small)

lemma of_nat_max_word:
  assumes "m < 2 ^ LENGTH('a)" and "n < 2 ^ LENGTH('a)"
  shows "max (of_nat m) (of_nat n) = (of_nat (max m n) :: 'a::len word)"
  using of_nat_less_word [OF assms(2,1)] by (auto simp: max_def not_less [symmetric])

end
