(* ===== verification/MRD_Buffer.thy ===== *)
theory MRD_Buffer
  imports MRD_Prelude
begin

text \<open>
  The byte buffer of \<^verbatim>\<open>shared/include/MRD_buffer.h\<close>. Pointers into the allocation are offsets from
  \<^verbatim>\<open>buffer_begin\<close>; a byte that was never written is \<open>None\<close>. What the rest of the program needs from
  a buffer is the locale \<open>byte_sink\<close>.
\<close>

record buffer =
  mem :: "u8 option list"
  data_begin :: nat
  data_end :: nat
  data_length :: nat

subsection \<open>The operations\<close>

text \<open>\<^verbatim>\<open>buffer_end\<close> and \<^verbatim>\<open>buf_size\<close> are the length of the allocation.\<close>

definition buf_size :: "buffer \<Rightarrow> nat" where
  "buf_size b = length (mem b)"

definition Buffer_init :: "nat \<Rightarrow> buffer" where
  "Buffer_init n = \<lparr>mem = replicate n None, data_begin = 0, data_end = 0, data_length = 0\<rparr>"

text \<open>Lengths are \<^verbatim>\<open>size_t\<close>: consuming more than there is wraps around.\<close>

definition Buffer_consume :: "buffer \<Rightarrow> nat \<Rightarrow> buffer" where
  "Buffer_consume b n =
    (let b = b\<lparr>data_begin := data_begin b + n,
               data_length := (if n \<le> data_length b then data_length b - n
                               else 2 ^ 64 + data_length b - n)\<rparr>
     in if data_begin b > buf_size b then b\<lparr>data_begin := buf_size b, data_length := 0\<rparr> else b)"

text \<open>\<^verbatim>\<open>memcpy\<close> and \<^verbatim>\<open>memmove\<close> into the allocation; outside of it they are undefined.\<close>

definition write_at :: "nat \<Rightarrow> u8 option list \<Rightarrow> u8 option list \<Rightarrow> u8 option list option" where
  "write_at off d m = do {
     oguard (off + length d \<le> length m);
     Some (take off m @ d @ drop (off + length d) m)
   }"

definition read_at :: "nat \<Rightarrow> nat \<Rightarrow> u8 option list \<Rightarrow> u8 option list option" where
  "read_at off n m = do { oguard (off + n \<le> length m); Some (take n (drop off m)) }"

definition Buffer_resize :: "buffer \<Rightarrow> nat \<Rightarrow> buffer option" where
  "Buffer_resize b extra = do {
     d \<leftarrow> read_at (data_begin b) (data_length b) (mem b);
     m \<leftarrow> write_at 0 d (replicate (buf_size b + extra) None);
     Some \<lparr>mem = m, data_begin = 0, data_end = data_length b, data_length = data_length b\<rparr>
   }"

definition Buffer_append :: "buffer \<Rightarrow> u8 option list \<Rightarrow> buffer option" where
  "Buffer_append b d = do {
     let len = length d;
     b \<leftarrow> (if len > buf_size b then Buffer_resize b (len + data_length b - buf_size b)
          else if data_begin b + len > buf_size b then do {
            moved \<leftarrow> read_at (data_begin b) (data_length b) (mem b);
            m \<leftarrow> write_at 0 moved (mem b);
            Some (b\<lparr>mem := m, data_begin := 0, data_end := data_length b\<rparr>)
          }
          else Some b);
     b \<leftarrow> (if data_end b + len > buf_size b
          then Buffer_resize b (len - (buf_size b - data_end b)) else Some b);
     m \<leftarrow> write_at (data_end b) d (mem b);
     Some (b\<lparr>mem := m, data_length := data_length b + len, data_end := data_end b + len\<rparr>)
   }"

definition Buffer_append_bytes :: "buffer \<Rightarrow> bytes \<Rightarrow> buffer option" where
  "Buffer_append_bytes b d = Buffer_append b (map Some d)"

text \<open>Appending from another buffer reads from the start of its allocation.\<close>

definition Buffer_append_buffer :: "buffer \<Rightarrow> buffer \<Rightarrow> nat \<Rightarrow> buffer option" where
  "Buffer_append_buffer b src len = do { d \<leftarrow> read_at 0 len (mem src); Buffer_append b d }"

definition Buffer_empty :: "buffer \<Rightarrow> bool" where
  "Buffer_empty b = (data_length b = 0)"

text \<open>Values are copied byte for byte, on a little-endian machine.\<close>

fun le_bytes :: "nat \<Rightarrow> 'a::len word \<Rightarrow> bytes" where
  "le_bytes 0 w = []"
| "le_bytes (Suc n) w = ucast w # le_bytes n (drop_bit 8 w)"

fun le_word :: "bytes \<Rightarrow> 'a::len word" where
  "le_word [] = 0"
| "le_word (b # bs) = ucast b OR push_bit 8 (le_word bs)"

definition Buffer_append_u8 :: "buffer \<Rightarrow> u8 \<Rightarrow> buffer option" where
  "Buffer_append_u8 b v = Buffer_append_bytes b [v]"

definition Buffer_append_u32 :: "buffer \<Rightarrow> u32 \<Rightarrow> buffer option" where
  "Buffer_append_u32 b v = Buffer_append_bytes b (le_bytes 4 v)"

definition Buffer_append_u64 :: "buffer \<Rightarrow> u64 \<Rightarrow> buffer option" where
  "Buffer_append_u64 b v = Buffer_append_bytes b (le_bytes 8 v)"

definition Buffer_append_i64 :: "buffer \<Rightarrow> 64 word \<Rightarrow> buffer option" where
  "Buffer_append_i64 b v = Buffer_append_bytes b (le_bytes 8 v)"

text \<open>A double is its 64-bit representation.\<close>

definition Buffer_append_dbl :: "buffer \<Rightarrow> u64 \<Rightarrow> buffer option" where
  "Buffer_append_dbl b v = Buffer_append_bytes b (le_bytes 8 v)"

text \<open>
  \<^verbatim>\<open>memcpy\<close> to the place \<open>ctx\<close> bytes before the end of the data, and the byte read there.
\<close>

definition Buffer_patch :: "buffer \<Rightarrow> nat \<Rightarrow> bytes \<Rightarrow> buffer option" where
  "Buffer_patch b ctx d = do {
     oguard (ctx \<le> data_end b);
     m \<leftarrow> write_at (data_end b - ctx) (map Some d) (mem b);
     Some (b\<lparr>mem := m\<rparr>)
   }"

definition Buffer_peek :: "buffer \<Rightarrow> nat \<Rightarrow> u8 option" where
  "Buffer_peek b ctx = do {
     oguard (ctx \<le> data_end b \<and> data_end b - ctx < buf_size b);
     mem b ! (data_end b - ctx)
   }"

text \<open>\<^verbatim>\<open>memcpy\<close> out of the front of the data.\<close>

definition Buffer_front :: "buffer \<Rightarrow> nat \<Rightarrow> bytes option" where
  "Buffer_front b n = do {
     d \<leftarrow> read_at (data_begin b) n (mem b);
     those d
   }"

subsection \<open>Little-endian words\<close>

lemma length_le_bytes [simp]: "length (le_bytes n w) = n"
  by (induction n arbitrary: w) auto

lemma le_word_bytes_take: "le_word (le_bytes n w) = (take_bit (8 * n) w :: 'a::len word)"
proof (induction n arbitrary: w)
  case (Suc n)
  have "le_word (le_bytes (Suc n) w) =
      (ucast (ucast w :: u8) OR push_bit 8 (take_bit (8 * n) (drop_bit 8 w)) :: 'a word)"
    by (simp add: Suc)
  also have "\<dots> = take_bit (8 * Suc n) w"
    by (rule bit_eqI) (auto simp: bit_simps)
  finally show ?case .
qed simp

lemma le_word_bytes [simp]:
  "LENGTH('a) \<le> 8 * n \<Longrightarrow> le_word (le_bytes n w) = (w :: 'a::len word)"
  by (simp add: le_word_bytes_take take_bit_word_eq_self)

lemma those_map_Some [simp]: "those (map Some xs) = Some xs"
  by (induction xs) auto

subsection \<open>Contents\<close>

text \<open>
  The data is between the two offsets; after a consume past the end the stale \<open>data_end\<close> is
  harmless because the data is empty and sits at the end of the allocation.
\<close>

definition buf_ok :: "buffer \<Rightarrow> bool" where
  "buf_ok b = (data_begin b + data_length b \<le> buf_size b \<and> data_end b \<le> buf_size b \<and>
     (data_end b = data_begin b + data_length b \<or> data_length b = 0 \<and> data_begin b = buf_size b))"

definition holds :: "buffer \<Rightarrow> bytes \<Rightarrow> bool" where
  "holds b xs = (buf_ok b \<and> data_length b = length xs \<and>
     take (data_length b) (drop (data_begin b) (mem b)) = map Some xs)"

lemma holds_init [simp]: "holds (Buffer_init n) []"
  by (simp add: holds_def buf_ok_def Buffer_init_def)

lemma holds_length: "holds b xs \<Longrightarrow> data_length b = length xs"
  by (simp add: holds_def)

lemma Buffer_consume_holds:
  assumes "holds b xs" "n \<le> length xs"
  shows "holds (Buffer_consume b n) (drop n xs)"
proof -
  have "take (length xs - n) (drop (data_begin b + n) (mem b)) = drop n (take (length xs) (drop (data_begin b) (mem b)))"
    by (simp add: drop_take add.commute)
  then show ?thesis
    using assms by (auto simp: holds_def buf_ok_def Buffer_consume_def Let_def buf_size_def drop_map)
qed

lemma holds_read: "holds b xs \<Longrightarrow> read_at (data_begin b) (data_length b) (mem b) = Some (map Some xs)"
  by (auto simp: holds_def read_at_def buf_ok_def buf_size_def)

lemma Buffer_resize_holds:
  assumes "holds b xs"
  obtains b' where "Buffer_resize b n = Some b'" "holds b' xs" "data_begin b' = 0"
    "data_end b' = length xs" "buf_size b' = buf_size b + n"
proof -
  let ?b = "\<lparr>mem = map Some xs @ replicate (buf_size b + n - length xs) None, data_begin = 0,
    data_end = length xs, data_length = length xs\<rparr>"
  have len: "length xs \<le> buf_size b" using assms by (auto simp: holds_def buf_ok_def)
  then have "Buffer_resize b n = Some ?b"
    using holds_read [OF assms] holds_length [OF assms] by (simp add: Buffer_resize_def write_at_def)
  then show ?thesis using that len by (simp add: holds_def buf_ok_def buf_size_def)
qed

lemma compact_holds:
  assumes "holds b xs"
  obtains b' where "do {
      moved \<leftarrow> read_at (data_begin b) (data_length b) (mem b);
      m \<leftarrow> write_at 0 moved (mem b);
      Some (b\<lparr>mem := m, data_begin := 0, data_end := data_length b\<rparr>) } = Some b'"
    "holds b' xs" "data_begin b' = 0" "data_end b' = length xs" "buf_size b' = buf_size b"
proof -
  have "length xs \<le> buf_size b" using assms by (auto simp: holds_def buf_ok_def)
  then show ?thesis
    using that holds_read [OF assms] holds_length [OF assms]
    by (simp add: write_at_def holds_def buf_ok_def buf_size_def)
qed

text \<open>Writing behind the data when there is room.\<close>

lemma append_room:
  assumes "holds b xs" "data_end b = data_begin b + data_length b" "data_end b + length ys \<le> buf_size b"
    "m = take (data_end b) (mem b) @ map Some ys @ drop (data_end b + length ys) (mem b)"
  shows "holds (b\<lparr>mem := m, data_length := data_length b + length ys, data_end := data_end b + length ys\<rparr>) (xs @ ys)"
proof -
  have "drop (data_begin b) (take (data_end b) (mem b)) = map Some xs"
    using assms(1,2) by (auto simp: holds_def drop_take)
  moreover have "length (take (data_end b) (mem b)) = data_end b"
    using assms(3) by (simp add: buf_size_def)
  ultimately show ?thesis
    using assms by (auto simp: holds_def buf_ok_def buf_size_def)
qed

lemma Buffer_append_holds:
  assumes "holds b xs"
  obtains b' where "Buffer_append_bytes b ys = Some b'" "holds b' (xs @ ys)"
proof -
  let ?len = "length ys"
  define f where "f b = (if ?len > buf_size b then Buffer_resize b (?len + data_length b - buf_size b)
      else if data_begin b + ?len > buf_size b then do {
        moved \<leftarrow> read_at (data_begin b) (data_length b) (mem b);
        m \<leftarrow> write_at 0 moved (mem b);
        Some (b\<lparr>mem := m, data_begin := 0, data_end := data_length b\<rparr>) }
      else Some b)" for b
  define g where "g b = (if data_end b + ?len > buf_size b
      then Buffer_resize b (?len - (buf_size b - data_end b)) else Some b)" for b
  have unfold: "Buffer_append_bytes b ys = do {
      b \<leftarrow> f b; b \<leftarrow> g b; m \<leftarrow> write_at (data_end b) (map Some ys) (mem b);
      Some (b\<lparr>mem := m, data_length := data_length b + ?len, data_end := data_end b + ?len\<rparr>) }"
    by (simp only: Buffer_append_bytes_def Buffer_append_def f_def g_def Let_def length_map)
  obtain b1 where b1: "f b = Some b1" "holds b1 xs"
    "data_end b1 = data_begin b1 + data_length b1 \<or> ys = [] \<and> data_length b1 = 0"
  proof -
    consider "?len > buf_size b" | "?len \<le> buf_size b" "data_begin b + ?len > buf_size b"
      | "?len \<le> buf_size b" "data_begin b + ?len \<le> buf_size b" by linarith
    then show ?thesis
    proof cases
      case 1
      obtain b' where "Buffer_resize b (?len + data_length b - buf_size b) = Some b'" "holds b' xs"
        "data_begin b' = 0" "data_end b' = length xs" by (rule Buffer_resize_holds [OF assms])
      then show ?thesis using that [of b'] 1 holds_length by (simp add: f_def)
    next
      case 2
      obtain b' where "do { moved \<leftarrow> read_at (data_begin b) (data_length b) (mem b);
          m \<leftarrow> write_at 0 moved (mem b);
          Some (b\<lparr>mem := m, data_begin := 0, data_end := data_length b\<rparr>) } = Some b'"
        "holds b' xs" "data_begin b' = 0" "data_end b' = length xs" by (rule compact_holds [OF assms])
      then show ?thesis using that [of b'] 2 holds_length by (simp add: f_def)
    next
      case 3
      then show ?thesis using that [of b] assms by (auto simp: f_def holds_def buf_ok_def)
    qed
  qed
  obtain b2 where b2: "g b1 = Some b2" "holds b2 xs" "data_end b2 + ?len \<le> buf_size b2"
    "data_end b2 = data_begin b2 + data_length b2 \<or> ys = [] \<and> data_length b2 = 0"
  proof (cases "data_end b1 + ?len > buf_size b1")
    case True
    obtain b' where b': "Buffer_resize b1 (?len - (buf_size b1 - data_end b1)) = Some b'" "holds b' xs"
      "data_begin b' = 0" "data_end b' = length xs"
      "buf_size b' = buf_size b1 + (?len - (buf_size b1 - data_end b1))"
      by (rule Buffer_resize_holds [OF b1(2)])
    have "length xs \<le> data_end b1 \<or> ys = []" "data_end b1 \<le> buf_size b1"
      using b1(2,3) holds_length [OF b1(2)] by (auto simp: holds_def buf_ok_def)
    then have "data_end b' + ?len \<le> buf_size b'" using b' True by auto
    then show ?thesis using that [of b'] b' True holds_length [OF b'(2)] by (simp add: g_def)
  next
    case False
    then show ?thesis using that [of b1] b1 by (simp add: g_def)
  qed
  let ?m = "take (data_end b2) (mem b2) @ map Some ys @ drop (data_end b2 + ?len) (mem b2)"
  let ?b = "b2\<lparr>mem := ?m, data_length := data_length b2 + ?len, data_end := data_end b2 + ?len\<rparr>"
  have "write_at (data_end b2) (map Some ys) (mem b2) = Some ?m"
    using b2(3) by (simp add: write_at_def buf_size_def)
  then have "Buffer_append_bytes b ys = Some ?b" unfolding unfold b1(1) by (simp add: b2(1))
  moreover have "holds ?b (xs @ ys)"
  proof (cases "data_end b2 = data_begin b2 + data_length b2")
    case True
    then show ?thesis using append_room [OF b2(2) True b2(3) refl] by simp
  next
    case False
    then have "ys = []" using b2(4) by blast
    moreover from this have "?b = b2" by simp
    ultimately show ?thesis using b2(2) by simp
  qed
  ultimately show ?thesis using that by blast
qed

text \<open>Overwriting part of a list.\<close>

definition overwrite :: "nat \<Rightarrow> 'a list \<Rightarrow> 'a list \<Rightarrow> 'a list" where
  "overwrite off d xs = take off xs @ d @ drop (off + length d) xs"

lemma overwrite_mid: "length ys = length d \<Longrightarrow> overwrite (length xs) d (xs @ ys @ zs) = xs @ d @ zs"
  by (simp add: overwrite_def)

lemma overwrite_length: "off + length d \<le> length xs \<Longrightarrow> length (overwrite off d xs) = length xs"
  by (simp add: overwrite_def)

lemma Buffer_patch_holds:
  assumes "holds b xs" "ctx \<le> length xs" "length d \<le> ctx"
  obtains b' where "Buffer_patch b ctx d = Some b'" "holds b' (overwrite (length xs - ctx) d xs)"
proof (cases "xs = []")
  case True
  then have "Buffer_patch b ctx d = Some b"
    using assms by (auto simp: Buffer_patch_def write_at_def holds_def buf_ok_def buf_size_def)
  then show ?thesis using that True assms by (simp add: overwrite_def)
next
  case False
  then have ok: "data_end b = data_begin b + length xs" "data_end b \<le> length (mem b)"
    and data: "take (length xs) (drop (data_begin b) (mem b)) = map Some xs"
    using assms(1) by (auto simp: holds_def buf_ok_def buf_size_def)
  define k where "k = length xs - ctx"
  have k: "data_end b - ctx = data_begin b + k" "k + length d \<le> length xs"
    using ok assms(2,3) by (auto simp: k_def)
  let ?m = "take (data_begin b + k) (mem b) @ map Some d @ drop (data_begin b + k + length d) (mem b)"
  have "Buffer_patch b ctx d = Some (b\<lparr>mem := ?m\<rparr>)"
    using ok k assms(2) by (simp add: Buffer_patch_def write_at_def)
  moreover have "take (length xs) (drop (data_begin b) ?m) = map Some (overwrite k d xs)"
  proof -
    have "drop (data_begin b) (take (data_begin b + k) (mem b)) = map Some (take k xs)"
      using arg_cong [OF data, of "take k"] k(2) by (simp add: drop_take take_map)
    moreover have "take (length xs - (k + length d)) (drop (data_begin b + k + length d) (mem b)) =
        map Some (drop (k + length d) xs)"
      using arg_cong [OF data, of "drop (k + length d)"] by (simp add: drop_take drop_map add_ac)
    moreover have "length (mem b) \<ge> data_begin b + length xs" using ok by simp
    ultimately show ?thesis using k(2) by (simp add: overwrite_def add_ac)
  qed
  moreover have "length (overwrite k d xs) = length xs" using k(2) by (simp add: overwrite_length)
  moreover have "length ?m = length (mem b)" using ok k(2) by simp
  ultimately have "holds (b\<lparr>mem := ?m\<rparr>) (overwrite k d xs)"
    using assms(1) by (auto simp: holds_def buf_ok_def buf_size_def)
  then show ?thesis using that \<open>Buffer_patch b ctx d = _\<close> by (simp add: k_def)
qed

lemma Buffer_peek_holds:
  assumes "holds b xs" "0 < ctx" "ctx \<le> length xs"
  shows "Buffer_peek b ctx = Some (xs ! (length xs - ctx))"
proof -
  have ok: "data_end b = data_begin b + length xs" "data_end b \<le> length (mem b)"
    and data: "take (length xs) (drop (data_begin b) (mem b)) = map Some xs"
    using assms by (auto simp: holds_def buf_ok_def buf_size_def)
  have "mem b ! (data_begin b + (length xs - ctx)) = Some (xs ! (length xs - ctx))"
    using arg_cong [OF data, of "\<lambda>l. l ! (length xs - ctx)"] assms(2,3) ok by simp
  moreover have "ctx \<le> data_end b \<and> data_end b - ctx < buf_size b"
    "data_end b - ctx = data_begin b + (length xs - ctx)"
    using ok assms(2,3) by (auto simp: buf_size_def)
  ultimately show ?thesis by (simp add: Buffer_peek_def)
qed

lemma Buffer_front_holds:
  assumes "holds b xs" "n \<le> length xs"
  shows "Buffer_front b n = Some (take n xs)"
proof -
  have "take n (drop (data_begin b) (mem b)) = take n (map Some xs)"
  proof -
    have "take (length xs) (drop (data_begin b) (mem b)) = map Some xs"
      using assms(1) by (auto simp: holds_def)
    from arg_cong [OF this, of "take n"] show ?thesis using assms(2) by (simp add: min_absorb1)
  qed
  moreover have "data_begin b + n \<le> length (mem b)"
    using assms by (auto simp: holds_def buf_ok_def buf_size_def)
  ultimately show ?thesis by (simp add: Buffer_front_def read_at_def take_map)
qed

lemma Buffer_empty_holds: "holds b xs \<Longrightarrow> Buffer_empty b \<longleftrightarrow> xs = []"
  by (simp add: Buffer_empty_def holds_length)

subsection \<open>Byte sinks\<close>

locale byte_sink =
  fixes content :: "'b \<Rightarrow> bytes \<Rightarrow> bool"
    and append :: "'b \<Rightarrow> bytes \<Rightarrow> 'b option"
    and consume :: "'b \<Rightarrow> nat \<Rightarrow> 'b"
    and patch :: "'b \<Rightarrow> nat \<Rightarrow> bytes \<Rightarrow> 'b option"
  assumes append_law: "content b xs \<Longrightarrow> \<exists>b'. append b ys = Some b' \<and> content b' (xs @ ys)"
    and consume_law: "content b xs \<Longrightarrow> n \<le> length xs \<Longrightarrow> content (consume b n) (drop n xs)"
    and patch_law: "content b xs \<Longrightarrow> ctx \<le> length xs \<Longrightarrow> length d \<le> ctx \<Longrightarrow>
      \<exists>b'. patch b ctx d = Some b' \<and> content b' (overwrite (length xs - ctx) d xs)"
begin

lemma append_append:
  assumes "content b xs"
  obtains b' where "do { b \<leftarrow> append b ys; append b zs } = Some b'" "content b' (xs @ ys @ zs)"
proof -
  obtain b1 where "append b ys = Some b1" "content b1 (xs @ ys)" using append_law [OF assms] by blast
  moreover from this obtain b2 where "append b1 zs = Some b2" "content b2 ((xs @ ys) @ zs)"
    using append_law by blast
  ultimately show ?thesis using that by simp
qed

lemma consume_appended: "content b (xs @ ys) \<Longrightarrow> content (consume b (length xs)) ys"
  using consume_law [of b "xs @ ys" "length xs"] by simp

lemma consume_all: "content b xs \<Longrightarrow> content (consume b (length xs)) []"
  using consume_law [of b xs "length xs"] by simp

text \<open>A hole left for a length is filled once the body is known.\<close>

lemma patch_hole:
  assumes "content b (xs @ hole @ body)" "length hole = length d"
  obtains b' where "patch b (length hole + length body) d = Some b'" "content b' (xs @ d @ body)"
proof -
  have "length (xs @ hole @ body) - (length hole + length body) = length xs" by simp
  then show ?thesis
    using patch_law [OF assms(1), of "length hole + length body" d] overwrite_mid [of hole d xs body]
      assms(2) that by auto
qed

end

interpretation buf: byte_sink holds Buffer_append_bytes Buffer_consume Buffer_patch
proof (unfold_locales, goal_cases)
  case (1 b xs ys)
  then show ?case using Buffer_append_holds by metis
next
  case (2 b xs n)
  then show ?case by (rule Buffer_consume_holds)
next
  case (3 b xs ctx d)
  then show ?case using Buffer_patch_holds by metis
qed

subsection \<open>Properties\<close>

text \<open>C21: Appending to a buffer returns and adds exactly the given bytes behind its data, in every
  case of the code: enough room, moving the data to the front, a reallocation because the bytes
  exceed the whole allocation or because they exceed what is free behind the data, and after a
  consume that left a stale end pointer.\<close>

theorem Buffer_append_correct:
  assumes "holds b xs"
  shows "\<exists>b'. Buffer_append_bytes b ys = Some b' \<and> holds b' (xs @ ys)"
  by (rule buf.append_law [OF assms])

lemma Buffer_append_correct_witness:
  "\<exists>b'. Buffer_append_bytes (Buffer_init 2) [1, 2, 3] = Some b' \<and> holds b' [1, 2, 3]"
  using Buffer_append_correct [OF holds_init, of 2 "[1, 2, 3]"] by simp

text \<open>Consuming at most the buffer's length drops that many bytes. Consuming past the end of the
  allocation empties the buffer, but consuming more than the data while staying inside the
  allocation wraps the length around to a huge value.\<close>

theorem Buffer_consume_correct:
  assumes "holds b xs"
  shows "if n \<le> length xs then holds (Buffer_consume b n) (drop n xs)
    else if data_begin b + n > buf_size b then holds (Buffer_consume b n) []
    else data_length (Buffer_consume b n) = 2 ^ 64 + length xs - n"
proof -
  have "holds (Buffer_consume b n) []" if "data_begin b + n > buf_size b"
    using that assms by (auto simp: holds_def buf_ok_def Buffer_consume_def buf_size_def)
  then show ?thesis
    using buf.consume_law [OF assms] holds_length [OF assms]
    by (simp add: Buffer_consume_def Let_def buf_size_def)
qed

lemma Buffer_consume_correct_witness:
  "\<exists>b. Buffer_append_bytes (Buffer_init 8) [1, 2] = Some b \<and>
     holds (Buffer_consume b 1) [2] \<and> data_length (Buffer_consume b 3) = 2 ^ 64 - 1"
proof -
  have "Buffer_append_bytes (Buffer_init 8) [1, 2] =
      Some \<lparr>mem = [Some 1, Some 2, None, None, None, None, None, None], data_begin = 0, data_end = 2, data_length = 2\<rparr>"
    by code_simp
  moreover from this have h: "holds \<lparr>mem = [Some 1, Some 2, None, None, None, None, None, None],
      data_begin = 0, data_end = 2, data_length = 2\<rparr> [1, 2]"
    using buf.append_law [OF holds_init, of 8 "[1, 2]"] by simp
  ultimately show ?thesis
    using Buffer_consume_correct [OF h, of 1] Buffer_consume_correct [OF h, of 3]
    by (simp add: buf_size_def)
qed

text \<open>Appending one buffer to another copies from the start of the source's allocation, so that
  after a consume it copies bytes that are no longer data.\<close>

theorem Buffer_append_buffer_stale:
  "do { src \<leftarrow> Buffer_append_bytes (Buffer_init 8) [1, 2];
        src \<leftarrow> Some (Buffer_consume src 1);
        d \<leftarrow> Buffer_front src 1;
        dst \<leftarrow> Buffer_append_buffer (Buffer_init 8) src 1;
        e \<leftarrow> Buffer_front dst 1;
        Some (d, e) } = Some ([2], [1])"
  by code_simp

text \<open>Leaving a hole for a length, appending a body, and writing the length at the distance from
  the end that the code computes fills exactly the hole, wherever the appends moved the data.\<close>

theorem Buffer_frame_correct:
  assumes "holds b xs"
  shows "\<exists>b1 b2 b3. Buffer_append_u32 b 0 = Some b1 \<and> Buffer_append_bytes b1 body = Some b2 \<and>
    Buffer_patch b2 (4 + length body) (le_bytes 4 (v :: u32)) = Some b3 \<and> holds b3 (xs @ le_bytes 4 v @ body)"
proof -
  obtain b1 where b1: "Buffer_append_u32 b 0 = Some b1" "holds b1 (xs @ le_bytes 4 (0::u32))"
    using buf.append_law [OF assms] by (metis Buffer_append_u32_def)
  obtain b2 where b2: "Buffer_append_bytes b1 body = Some b2" "holds b2 ((xs @ le_bytes 4 (0::u32)) @ body)"
    using buf.append_law [OF b1(2)] by blast
  from buf.patch_hole [of b2 xs "le_bytes 4 (0::u32)" body "le_bytes 4 v"] b2(2) obtain b3 where
    "Buffer_patch b2 (4 + length body) (le_bytes 4 v) = Some b3" "holds b3 (xs @ le_bytes 4 v @ body)"
    by auto
  then show ?thesis using b1 b2 by blast
qed

lemma Buffer_frame_correct_witness:
  "\<exists>b1 b2 b3. Buffer_append_u32 (Buffer_init 3) 0 = Some b1 \<and> Buffer_append_bytes b1 [7] = Some b2 \<and>
    Buffer_patch b2 5 (le_bytes 4 (1 :: u32)) = Some b3 \<and> holds b3 (le_bytes 4 (1 :: u32) @ [7])"
  using Buffer_frame_correct [OF holds_init, of 3 "[7]" 1] by (simp add: add.commute)

end
