(* ===== verification/MRD_Wire.thy ===== *)
theory MRD_Wire
  imports MRD_Buffer
begin

text \<open>
  The wire format of \<^verbatim>\<open>shared/include/MRD_utility.h\<close>: tags, the writers of tagged values, the
  bounded readers, the string hash, and the loops over the system's \<^verbatim>\<open>read\<close> and \<^verbatim>\<open>write\<close>, which are
  parameters.
\<close>

definition TAG_NIL :: u8 where "TAG_NIL = 0"
definition TAG_ERR :: u8 where "TAG_ERR = 1"
definition TAG_STR :: u8 where "TAG_STR = 2"
definition TAG_INT :: u8 where "TAG_INT = 3"
definition TAG_DBL :: u8 where "TAG_DBL = 4"
definition TAG_ARR :: u8 where "TAG_ARR = 5"
definition ERR_BAD_TYPE :: u8 where "ERR_BAD_TYPE = 0"
definition ERR_NOT_FOUND :: u8 where "ERR_NOT_FOUND = 1"
definition ERR_OUT_OF_RANGE :: u8 where "ERR_OUT_OF_RANGE = 2"
definition ERR_UNEXPECTED :: u8 where "ERR_UNEXPECTED = 3"

lemmas tag_defs = TAG_NIL_def TAG_ERR_def TAG_STR_def TAG_INT_def TAG_DBL_def TAG_ARR_def
lemmas err_defs = ERR_BAD_TYPE_def ERR_NOT_FOUND_def ERR_OUT_OF_RANGE_def ERR_UNEXPECTED_def

definition MAX_MSG :: nat where "MAX_MSG = 2 ^ 20"

text \<open>String literals of the program are their bytes.\<close>

definition ascii :: "string \<Rightarrow> bytes" where
  "ascii s = map (\<lambda>c. word_of_int (int (of_char c))) s"

text \<open>The parameter is an \<^verbatim>\<open>enum\<close>, which is as wide as an \<^verbatim>\<open>int\<close>.\<close>

definition get_err :: "u32 \<Rightarrow> string" where
  "get_err err =
    (if err = ucast ERR_BAD_TYPE then ''ERR_BAD_TYPE''
     else if err = ucast ERR_NOT_FOUND then ''ERR_NOT_FOUND''
     else if err = ucast ERR_OUT_OF_RANGE then ''ERR_OUT_OF_RANGE''
     else if err = ucast ERR_UNEXPECTED then ''ERR_UNEXPECTED''
     else ''Unknown error code'')"

subsection \<open>Writers\<close>

text \<open>Each writer returns the buffer and the number of bytes written, as a \<^verbatim>\<open>uint32_t\<close>.\<close>

definition out_nil :: "buffer \<Rightarrow> (buffer \<times> u32) option" where
  "out_nil out = do { out \<leftarrow> Buffer_append_u8 out TAG_NIL; Some (out, 1) }"

definition out_str :: "buffer \<Rightarrow> bytes \<Rightarrow> (buffer \<times> u32) option" where
  "out_str out s = do {
     out \<leftarrow> Buffer_append_u8 out TAG_STR;
     out \<leftarrow> Buffer_append_u32 out (of_nat (length s));
     out \<leftarrow> Buffer_append_bytes out s;
     Some (out, 1 + 4 + of_nat (length s))
   }"

definition out_int :: "buffer \<Rightarrow> 64 word \<Rightarrow> (buffer \<times> u32) option" where
  "out_int out v = do {
     out \<leftarrow> Buffer_append_u8 out TAG_INT;
     out \<leftarrow> Buffer_append_i64 out v;
     Some (out, 1 + 8)
   }"

definition out_dbl :: "buffer \<Rightarrow> u64 \<Rightarrow> (buffer \<times> u32) option" where
  "out_dbl out v = do {
     out \<leftarrow> Buffer_append_u8 out TAG_DBL;
     out \<leftarrow> Buffer_append_dbl out v;
     Some (out, 1 + 8)
   }"

definition out_arr :: "buffer \<Rightarrow> u32 \<Rightarrow> (buffer \<times> u32) option" where
  "out_arr out n = do {
     out \<leftarrow> Buffer_append_u8 out TAG_ARR;
     out \<leftarrow> Buffer_append_u32 out n;
     Some (out, 1 + 4)
   }"

definition out_begin_arr :: "buffer \<Rightarrow> (buffer \<times> u32) option" where
  "out_begin_arr out = do { (out, n) \<leftarrow> out_arr out 0; Some (out, n - 1) }"

definition out_end_arr :: "buffer \<Rightarrow> u32 \<Rightarrow> u32 \<Rightarrow> (buffer \<times> u32) option" where
  "out_end_arr out ctx n = do {
     tag \<leftarrow> Buffer_peek out (unat ctx + 1);
     oguard (tag = TAG_ARR);
     out \<leftarrow> Buffer_patch out (unat ctx) (le_bytes 4 n);
     Some (out, 1 + 4)
   }"

definition out_err :: "buffer \<Rightarrow> u8 \<Rightarrow> bytes \<Rightarrow> (buffer \<times> u32) option" where
  "out_err out err_typ msg = do {
     out \<leftarrow> Buffer_append_u8 out TAG_ERR;
     out \<leftarrow> Buffer_append_u8 out err_typ;
     out \<leftarrow> Buffer_append_u32 out (of_nat (length msg));
     out \<leftarrow> Buffer_append_bytes out msg;
     Some (out, 1 + 1 + 4 + of_nat (length msg))
   }"

subsection \<open>Readers\<close>

text \<open>
  A cursor with its end is the list of the bytes between them; a reader that would pass the end
  returns false and leaves the cursor.
\<close>

definition read_u8 :: "bytes \<Rightarrow> (u8 \<times> bytes) option" where
  "read_u8 cur = (case cur of [] \<Rightarrow> None | b # cur \<Rightarrow> Some (b, cur))"

definition read_u32 :: "bytes \<Rightarrow> (u32 \<times> bytes) option" where
  "read_u32 cur = (if length cur < 4 then None else Some (le_word (take 4 cur), drop 4 cur))"

definition read_str :: "bytes \<Rightarrow> nat \<Rightarrow> (bytes \<times> bytes) option" where
  "read_str cur n = (if length cur < n then None else Some (take n cur, drop n cur))"

definition str_hash :: "bytes \<Rightarrow> u64" where
  "str_hash data = ucast (fold (\<lambda>b h. (h + ucast b) * 0x01000193) data (0x811C9DC5 :: u32))"

subsection \<open>Loops over the system calls\<close>

text \<open>
  \<open>recv s n\<close> is one \<^verbatim>\<open>read\<close> of at most \<open>n\<close> bytes: the bytes it delivered, or \<open>None\<close> for an error;
  no bytes is the end of the stream. The result is the code's return value with the bytes
  stored; the assertion fails for a system that delivers more than was asked.
\<close>

function read_full ::
  "('s \<Rightarrow> nat \<Rightarrow> bytes option \<times> 's) \<Rightarrow> 's \<Rightarrow> nat \<Rightarrow> bytes \<Rightarrow> (int \<times> bytes \<times> 's) option" where
  "read_full recv s n got =
    (if n = 0 then Some (0, got, s)
     else (case recv s n of
       (None, s') \<Rightarrow> Some (- 1, got, s')
     | (Some d, s') \<Rightarrow>
         if d = [] then Some (- 1, got, s')
         else if length d \<le> n then read_full recv s' (n - length d) (got @ d) else None))"
  by pat_completeness auto
termination
  by (relation "measure (\<lambda>(recv, s, n, got). n)") auto

text \<open>\<open>send s d\<close> is one \<^verbatim>\<open>write\<close>: the number of bytes taken, negative for an error.\<close>

function write_all :: "('s \<Rightarrow> bytes \<Rightarrow> int \<times> 's) \<Rightarrow> 's \<Rightarrow> bytes \<Rightarrow> (int \<times> 's) option" where
  "write_all send s d =
    (if d = [] then Some (0, s)
     else (case send s d of
       (rv, s') \<Rightarrow>
         if rv \<le> 0 then Some (- 1, s')
         else if nat rv \<le> length d then write_all send s' (drop (nat rv) d) else None))"
  by pat_completeness auto
termination
  by (relation "measure (\<lambda>(send, s, d). length d)") auto

definition write_buffer :: "('s \<Rightarrow> bytes \<Rightarrow> int \<times> 's) \<Rightarrow> 's \<Rightarrow> buffer \<Rightarrow> (int \<times> 's) option" where
  "write_buffer send s b = do {
     data \<leftarrow> Buffer_front b (data_length b);
     write_all send s data
   }"

declare read_full.simps [simp del] write_all.simps [simp del]

lemma read_full_ok:
  assumes "\<And>s n r s'. recv s n = (r, s') \<Longrightarrow>
      (case r of None \<Rightarrow> taken s' = taken s | Some d \<Rightarrow> length d \<le> n \<and> taken s' = taken s @ d)"
  shows "\<exists>rv d s'. read_full recv s n got = Some (rv, got @ d, s') \<and> taken s' = taken s @ d \<and>
    (rv = 0 \<and> length d = n \<or>
     rv = - 1 \<and> length d < n \<and> (\<exists>s1. recv s1 (n - length d) = (None, s') \<or> recv s1 (n - length d) = (Some [], s')))"
  using assms
proof (induction recv s n got rule: read_full.induct)
  case (1 recv s n got)
  show ?case
  proof (cases "n = 0")
    case False
    obtain r s1 where r: "recv s n = (r, s1)" by fastforce
    note law = 1(2) [OF r]
    show ?thesis
    proof (cases "r = None \<or> r = Some []")
      case True
      then have "read_full recv s n got = Some (- 1, got @ [], s1)" using False r by (auto simp: read_full.simps [of recv s n got])
      moreover have "taken s1 = taken s @ []" using True law by auto
      moreover have "recv s (n - length []) = (None, s1) \<or> recv s (n - length []) = (Some [], s1)" using True r by auto
      ultimately show ?thesis using False by (intro exI [of _ "- 1"] exI [of _ "[]"] exI [of _ s1]) auto
    next
      case nonempty: False
      then obtain e where e: "r = Some e" "e \<noteq> []" by auto
      have le: "length e \<le> n" "taken s1 = taken s @ e" using law e(1) by auto
      have step: "read_full recv s n got = read_full recv s1 (n - length e) (got @ e)"
        using False r e le by (simp add: read_full.simps [of recv s n got])
      obtain rv d s' where ih: "read_full recv s1 (n - length e) (got @ e) = Some (rv, (got @ e) @ d, s')"
        "taken s' = taken s1 @ d" "rv = 0 \<and> length d = n - length e \<or> rv = - 1 \<and> length d < n - length e \<and>
          (\<exists>s1. recv s1 (n - length e - length d) = (None, s') \<or> recv s1 (n - length e - length d) = (Some [], s'))"
        using 1(1) [OF False r [symmetric] e le(1)] 1(2) by blast
      have "read_full recv s n got = Some (rv, got @ (e @ d), s') \<and> taken s' = taken s @ (e @ d)"
        using step ih(1,2) le(2) by simp
      moreover have "n - length (e @ d) = n - length e - length d" by simp
      then have "rv = 0 \<and> length (e @ d) = n \<or> rv = - 1 \<and> length (e @ d) < n \<and>
          (\<exists>s1. recv s1 (n - length (e @ d)) = (None, s') \<or> recv s1 (n - length (e @ d)) = (Some [], s'))"
        using ih(3) le(1) by auto
      ultimately show ?thesis by blast
    qed
  qed (simp add: read_full.simps)
qed

lemma write_all_ok:
  assumes "\<And>s d rv s'. send s d = (rv, s') \<Longrightarrow> d \<noteq> [] \<Longrightarrow>
      nat rv \<le> length d \<and> sent s' = sent s @ take (nat rv) d"
  shows "\<exists>rv s' k. write_all send s d = Some (rv, s') \<and> sent s' = sent s @ take k d \<and>
    (rv = 0 \<and> k = length d \<or> rv = - 1 \<and> k < length d)"
  using assms
proof (induction send s d rule: write_all.induct)
  case (1 send s d)
  show ?case
  proof (cases "d = []")
    case False
    obtain rv s1 where r: "send s d = (rv, s1)" by fastforce
    have law: "nat rv \<le> length d" "sent s1 = sent s @ take (nat rv) d" using 1(2) r False by auto
    show ?thesis
    proof (cases "rv \<le> 0")
      case True
      then show ?thesis using False r law
        by (auto simp: write_all.simps [of send s d] intro!: exI [of _ 0])
    next
      case pos: False
      have step: "write_all send s d = write_all send s1 (drop (nat rv) d)"
        using False r pos law by (simp add: write_all.simps [of send s d])
      obtain rv' s' k where ih: "write_all send s1 (drop (nat rv) d) = Some (rv', s')"
        "sent s' = sent s1 @ take k (drop (nat rv) d)"
        "rv' = 0 \<and> k = length (drop (nat rv) d) \<or> rv' = - 1 \<and> k < length (drop (nat rv) d)"
        using 1(1) [OF False r [symmetric] pos law(1)] 1(2) by blast
      have "sent s' = sent s @ take (nat rv + k) d" using ih(2) law(2) by (simp add: take_add)
      then show ?thesis using step ih(1,3) law(1) by (auto intro!: exI [of _ "nat rv + k"])
    qed
  qed (simp add: write_all.simps)
qed

text \<open>A stream that is not empty delivers some of its bytes, in order.\<close>

definition delivers :: "('s \<Rightarrow> nat \<Rightarrow> bytes option \<times> 's) \<Rightarrow> ('s \<Rightarrow> bytes) \<Rightarrow> bool" where
  "delivers recv pending = (\<forall>s n. 0 < n \<longrightarrow> pending s \<noteq> [] \<longrightarrow>
     (\<exists>d s'. recv s n = (Some d, s') \<and> d \<noteq> [] \<and> length d \<le> n \<and> pending s = d @ pending s'))"

lemma read_full_stream:
  assumes "delivers recv pending"
  shows "n \<le> length (pending s) \<Longrightarrow>
    \<exists>s'. read_full recv s n got = Some (0, got @ take n (pending s), s') \<and> pending s' = drop n (pending s)"
proof (induction n arbitrary: s got rule: less_induct)
  case (less n)
  show ?case
  proof (cases "n = 0")
    case True
    then show ?thesis by (simp add: read_full.simps)
  next
    case False
    then have "pending s \<noteq> []" using less.prems by auto
    then obtain d s1 where d: "recv s n = (Some d, s1)" "d \<noteq> []" "length d \<le> n" "pending s = d @ pending s1"
      using assms False unfolding delivers_def by blast
    have "n - length d < n" "n - length d \<le> length (pending s1)" using d less.prems False by auto
    from less.IH [OF this, of "got @ d"] obtain s' where
      "read_full recv s1 (n - length d) (got @ d) = Some (0, (got @ d) @ take (n - length d) (pending s1), s')"
      "pending s' = drop (n - length d) (pending s1)" by blast
    then show ?thesis using False d by (simp add: read_full.simps [of recv s n])
  qed
qed

subsection \<open>The encoding\<close>

text \<open>
  The values of the protocol and their encoding, as the headers of the server and of the
  utilities describe it.
\<close>

datatype reply =
  RNil | RErr u8 bytes | RStr bytes | RInt "64 word" | RDbl u64 | RArr "reply list"

definition enc_u32 :: "nat \<Rightarrow> bytes" where
  "enc_u32 n = le_bytes 4 (of_nat n :: u32)"

fun encode :: "reply \<Rightarrow> bytes" where
  "encode RNil = [TAG_NIL]"
| "encode (RErr t m) = TAG_ERR # t # enc_u32 (length m) @ m"
| "encode (RStr s) = TAG_STR # enc_u32 (length s) @ s"
| "encode (RInt v) = TAG_INT # le_bytes 8 v"
| "encode (RDbl v) = TAG_DBL # le_bytes 8 v"
| "encode (RArr rs) = TAG_ARR # enc_u32 (length rs) @ concat (map encode rs)"

lemma length_enc_u32 [simp]: "length (enc_u32 n) = 4"
  by (simp add: enc_u32_def)

text \<open>What a writer does to a buffer.\<close>

definition writes :: "(buffer \<times> u32) option \<Rightarrow> bytes \<Rightarrow> bytes \<Rightarrow> bool" where
  "writes r xs d = (\<exists>out'. r = Some (out', of_nat (length d)) \<and> holds out' (xs @ d))"

lemma append_u8_holds: "holds b xs \<Longrightarrow> \<exists>b'. Buffer_append_u8 b v = Some b' \<and> holds b' (xs @ [v])"
  by (simp add: Buffer_append_u8_def buf.append_law)

lemma append_u32_holds:
  "holds b xs \<Longrightarrow> \<exists>b'. Buffer_append_u32 b v = Some b' \<and> holds b' (xs @ le_bytes 4 v)"
  by (simp add: Buffer_append_u32_def buf.append_law)

lemma append_8_holds:
  "holds b xs \<Longrightarrow> \<exists>b'. Buffer_append_i64 b v = Some b' \<and> holds b' (xs @ le_bytes 8 v)"
  "holds b xs \<Longrightarrow> \<exists>b'. Buffer_append_dbl b v = Some b' \<and> holds b' (xs @ le_bytes 8 v)"
  by (simp_all add: Buffer_append_i64_def Buffer_append_dbl_def buf.append_law)

lemma out_nil_writes: "holds out xs \<Longrightarrow> writes (out_nil out) xs (encode RNil)"
  using append_u8_holds [of out xs TAG_NIL] by (auto simp: writes_def out_nil_def)

lemma out_int_writes: "holds out xs \<Longrightarrow> writes (out_int out v) xs (encode (RInt v))"
  using append_u8_holds [of out xs TAG_INT] append_8_holds(1) [of _ "xs @ [TAG_INT]" v]
  by (fastforce simp: writes_def out_int_def)

lemma out_dbl_writes: "holds out xs \<Longrightarrow> writes (out_dbl out v) xs (encode (RDbl v))"
  using append_u8_holds [of out xs TAG_DBL] append_8_holds(2) [of _ "xs @ [TAG_DBL]" v]
  by (fastforce simp: writes_def out_dbl_def)

lemma out_str_writes:
  assumes "holds out xs"
  shows "writes (out_str out s) xs (encode (RStr s))"
proof -
  obtain b1 where b1: "Buffer_append_u8 out TAG_STR = Some b1" "holds b1 (xs @ [TAG_STR])"
    using append_u8_holds [OF assms] by blast
  obtain b2 where b2: "Buffer_append_u32 b1 (of_nat (length s)) = Some b2"
    "holds b2 ((xs @ [TAG_STR]) @ enc_u32 (length s))"
    using append_u32_holds [OF b1(2)] unfolding enc_u32_def by blast
  obtain b3 where "Buffer_append_bytes b2 s = Some b3"
    "holds b3 (((xs @ [TAG_STR]) @ enc_u32 (length s)) @ s)"
    using buf.append_law [OF b2(2)] by blast
  then show ?thesis using b1 b2 by (simp add: writes_def out_str_def)
qed

lemma out_err_writes:
  assumes "holds out xs"
  shows "writes (out_err out t m) xs (encode (RErr t m))"
proof -
  obtain b1 where b1: "Buffer_append_u8 out TAG_ERR = Some b1" "holds b1 (xs @ [TAG_ERR])"
    using append_u8_holds [OF assms] by blast
  obtain b2 where b2: "Buffer_append_u8 b1 t = Some b2" "holds b2 ((xs @ [TAG_ERR]) @ [t])"
    using append_u8_holds [OF b1(2)] by blast
  obtain b3 where b3: "Buffer_append_u32 b2 (of_nat (length m)) = Some b3"
    "holds b3 (((xs @ [TAG_ERR]) @ [t]) @ enc_u32 (length m))"
    using append_u32_holds [OF b2(2)] unfolding enc_u32_def by blast
  obtain b4 where "Buffer_append_bytes b3 m = Some b4"
    "holds b4 ((((xs @ [TAG_ERR]) @ [t]) @ enc_u32 (length m)) @ m)"
    using buf.append_law [OF b3(2)] by blast
  then show ?thesis using b1 b2 b3 by (simp add: writes_def out_err_def)
qed

lemma out_begin_arr_holds:
  assumes "holds out xs"
  obtains out' where "out_begin_arr out = Some (out', 4)" "holds out' (xs @ TAG_ARR # enc_u32 0)"
proof -
  obtain b1 where b1: "Buffer_append_u8 out TAG_ARR = Some b1" "holds b1 (xs @ [TAG_ARR])"
    using append_u8_holds [OF assms] by blast
  obtain b2 where b2: "Buffer_append_u32 b1 0 = Some b2" "holds b2 ((xs @ [TAG_ARR]) @ enc_u32 0)"
    using append_u32_holds [OF b1(2), of 0] by (auto simp: enc_u32_def)
  then show ?thesis using that b1 by (simp add: out_begin_arr_def out_arr_def)
qed

lemma out_end_arr_holds:
  assumes "holds out (xs @ TAG_ARR # enc_u32 0 @ body)" "length body + 4 < 2 ^ 32"
  obtains out' where "out_end_arr out (of_nat (4 + length body)) (of_nat n) = Some (out', 5)"
    "holds out' (xs @ TAG_ARR # enc_u32 n @ body)"
proof -
  have u: "unat (of_nat (4 + length body) :: u32) = 4 + length body"
    using assms(2) by (intro unat_of_nat_small) simp
  have "length (xs @ TAG_ARR # enc_u32 0 @ body) - (4 + length body + 1) = length xs" by simp
  then have tag: "Buffer_peek out (4 + length body + 1) = Some TAG_ARR"
    using Buffer_peek_holds [OF assms(1), of "4 + length body + 1"] by (simp only:) simp
  obtain out' where "Buffer_patch out (4 + length body) (enc_u32 n) = Some out'"
    "holds out' ((xs @ [TAG_ARR]) @ enc_u32 n @ body)"
    using buf.patch_hole [of out "xs @ [TAG_ARR]" "enc_u32 0" body "enc_u32 n"] assms(1) by auto
  moreover from this have "out_end_arr out (of_nat (4 + length body)) (of_nat n) = Some (out', 5)"
    unfolding out_end_arr_def u tag enc_u32_def by simp
  ultimately show ?thesis using that by simp
qed

subsection \<open>Reading\<close>

text \<open>Replies whose strings and arrays have lengths that fit a \<^verbatim>\<open>uint32_t\<close>.\<close>

fun fits :: "reply \<Rightarrow> bool" where
  "fits (RErr t m) = (length m < 2 ^ 32)"
| "fits (RStr s) = (length s < 2 ^ 32)"
| "fits (RArr rs) = (length rs < 2 ^ 32 \<and> (\<forall>r \<in> set rs. fits r))"
| "fits _ = True"

lemma read_u32_enc: "n < 2 ^ 32 \<Longrightarrow> read_u32 (enc_u32 n @ rest) = Some (of_nat n, rest)"
  by (simp add: read_u32_def enc_u32_def)

lemma read_str_app: "length s = n \<Longrightarrow> read_str (s @ rest) n = Some (s, rest)"
  by (simp add: read_str_def)

lemma unat_u32: "n < 2 ^ 32 \<Longrightarrow> unat (of_nat n :: u32) = n"
  by (intro unat_of_nat_small) simp

lemmas reader_simps = read_u8_def read_u32_enc read_str_app unat_u32 tag_defs

subsection \<open>Properties\<close>

text \<open>C22: A full read of \<open>n\<close> bytes returns, whatever pieces the system delivers: 0 when \<open>n\<close> bytes came, and -1
  when a read failed or found the end before that; in both cases what it has stored are the bytes that
  were taken from the stream, in order and each once.\<close>

theorem read_full_correct:
  assumes "\<And>s n r s'. recv s n = (r, s') \<Longrightarrow>
      (case r of None \<Rightarrow> taken s' = taken s | Some d \<Rightarrow> length d \<le> n \<and> taken s' = taken s @ d)"
  shows "\<exists>rv d s'. read_full recv s n got = Some (rv, got @ d, s') \<and> taken s' = taken s @ d \<and>
    (rv = 0 \<and> length d = n \<or>
     rv = - 1 \<and> length d < n \<and> (\<exists>s1. recv s1 (n - length d) = (None, s') \<or> recv s1 (n - length d) = (Some [], s')))"
  by (rule read_full_ok [OF assms])

text \<open>A stream that delivers two bytes at a time, with the bytes that it has delivered.\<close>

definition sample_recv :: "bytes \<times> bytes \<Rightarrow> nat \<Rightarrow> bytes option \<times> (bytes \<times> bytes)" where
  "sample_recv s n = (let d = take (min n 2) (snd s) in (Some d, (fst s @ d, drop (length d) (snd s))))"

lemma read_full_correct_witness:
  "\<exists>d s'. read_full sample_recv ([], [1, 2, 3, 4, 5]) 6 [] = Some (- 1, d, s') \<and> fst s' = d \<and> length d < 6"
proof -
  have law: "case r of None \<Rightarrow> fst s' = fst s | Some d \<Rightarrow> length d \<le> n \<and> fst s' = fst s @ d" if "sample_recv s n = (r, s')" for s n r s'
    using that by (auto simp: sample_recv_def Let_def)
  have "map_option fst (read_full sample_recv ([], [1, 2, 3, 4, 5]) 6 []) = Some (- 1)" by code_simp
  then show ?thesis
    using read_full_correct [of sample_recv fst "([], [1, 2, 3, 4, 5])" 6 "[]", OF law] by auto
qed

text \<open>C23: Every writer of the protocol returns, appends exactly the encoding of its value to
  whatever the buffer held, and returns the number of bytes it appended.\<close>

theorem writers_correct:
  assumes "holds out xs"
  shows "writes (out_nil out) xs (encode RNil) \<and> writes (out_str out s) xs (encode (RStr s)) \<and>
    writes (out_int out v) xs (encode (RInt v)) \<and> writes (out_dbl out w) xs (encode (RDbl w)) \<and>
    writes (out_err out t s) xs (encode (RErr t s))"
  using out_nil_writes out_str_writes out_int_writes out_dbl_writes out_err_writes assms by blast

lemma writers_correct_witness:
  "\<exists>out. out_str (Buffer_init 4) [104, 105] = Some (out, 7) \<and> holds out [2, 2, 0, 0, 0, 104, 105]"
proof -
  have "enc_u32 (Suc (Suc 0)) = [2, 0, 0, 0]" unfolding enc_u32_def by code_simp
  then show ?thesis
    using writers_correct [OF holds_init, of 4 "[104, 105]"] by (auto simp: writes_def TAG_STR_def)
qed

text \<open>Writing all of a buffer to any system that takes a prefix of what it is given, and says
  how much, returns 0 exactly when everything was taken, in order and once, and otherwise -1 with a
  proper prefix taken.\<close>

theorem write_all_correct:
  assumes "\<And>s d rv s'. send s d = (rv, s') \<Longrightarrow> d \<noteq> [] \<Longrightarrow>
      nat rv \<le> length d \<and> sent s' = sent s @ take (nat rv) d"
  shows "\<exists>rv s' k. write_all send s d = Some (rv, s') \<and> sent s' = sent s @ take k d \<and>
    (rv = 0 \<and> k = length d \<or> rv = - 1 \<and> k < length d)"
  by (rule write_all_ok [OF assms])

lemma write_all_correct_witness:
  "\<exists>rv s' k. write_all (\<lambda>s d. (int (min 2 (length d)), s @ take 2 d)) [] [7, 8, 9 :: u8] = Some (rv, s') \<and>
     s' = take k [7, 8, 9] \<and> (rv = 0 \<and> k = Suc (Suc (Suc 0)) \<or> rv = - 1 \<and> k < Suc (Suc (Suc 0)))"
proof -
  have "\<exists>rv s' k. write_all (\<lambda>s d. (int (min 2 (length d)), s @ take 2 d)) [] [7, 8, 9 :: u8] = Some (rv, s') \<and>
     id s' = id [] @ take k [7, 8, 9] \<and> (rv = 0 \<and> k = length [7, 8, 9 :: u8] \<or> rv = - 1 \<and> k < length [7, 8, 9 :: u8])"
    by (rule write_all_correct) (auto simp: min_def)
  then show ?thesis by simp
qed

end
