(* ===== verification/MRD_Zorder.thy ===== *)
theory MRD_Zorder
  imports MRD_Wire "HOL-Library.List_Lexorder"
begin

text \<open>
  The order of the sorted sets (\<^verbatim>\<open>shared/src/MRD_zset.cpp\<close>): doubles as their 64-bit representation
  with the comparisons of IEEE 754, names compared by \<^verbatim>\<open>memcmp\<close>, and the order of score-name pairs.
\<close>

subsection \<open>Doubles\<close>

definition dbl_mag :: "u64 \<Rightarrow> u64" where
  "dbl_mag d = d AND 0x7FFFFFFFFFFFFFFF"

definition dbl_nan :: "u64 \<Rightarrow> bool" where
  "dbl_nan d = (dbl_mag d > 0x7FF0000000000000)"

text \<open>Representations ordered as integers: the magnitude with the sign, so that both zeros are 0.\<close>

definition dbl_key :: "u64 \<Rightarrow> int" where
  "dbl_key d = (if d AND 0x8000000000000000 = 0 then uint (dbl_mag d) else - uint (dbl_mag d))"

definition dbl_eq :: "u64 \<Rightarrow> u64 \<Rightarrow> bool" where
  "dbl_eq a b = (\<not> dbl_nan a \<and> \<not> dbl_nan b \<and> dbl_key a = dbl_key b)"

definition dbl_lt :: "u64 \<Rightarrow> u64 \<Rightarrow> bool" where
  "dbl_lt a b = (\<not> dbl_nan a \<and> \<not> dbl_nan b \<and> dbl_key a < dbl_key b)"

definition dbl_le :: "u64 \<Rightarrow> u64 \<Rightarrow> bool" where
  "dbl_le a b = (\<not> dbl_nan a \<and> \<not> dbl_nan b \<and> dbl_key a \<le> dbl_key b)"

subsection \<open>Names\<close>

text \<open>\<^verbatim>\<open>memcmp\<close> of two areas of the same length: the sign of the first difference.\<close>

fun memcmp :: "bytes \<Rightarrow> bytes \<Rightarrow> int" where
  "memcmp (a # as) (b # bs) = (if a < b then - 1 else if b < a then 1 else memcmp as bs)"
| "memcmp _ _ = 0"

definition name_cmp :: "bytes \<Rightarrow> bytes \<Rightarrow> int" where
  "name_cmp l r = (let n = min (length l) (length r) in memcmp (take n l) (take n r))"

subsection \<open>Comparisons of nodes\<close>

text \<open>A node's score and name.\<close>

type_synonym zinfo = "u64 \<times> bytes"

definition zless :: "zinfo \<Rightarrow> zinfo \<Rightarrow> bool" where
  "zless = (\<lambda>(ls, ln) (rs, rn).
     if \<not> dbl_eq ls rs then dbl_lt ls rs
     else let res = name_cmp ln rn in if res \<noteq> 0 then res < 0 else length ln < length rn)"

definition zgreater :: "zinfo \<Rightarrow> zinfo \<Rightarrow> bool" where
  "zgreater = (\<lambda>(ls, ln) (rs, rn).
     if \<not> dbl_eq ls rs then dbl_lt rs ls
     else let res = name_cmp ln rn in if res \<noteq> 0 then res > 0 else length ln > length rn)"

definition zeq :: "zinfo \<Rightarrow> zinfo \<Rightarrow> bool" where
  "zeq = (\<lambda>(ls, ln) (rs, rn).
     if dbl_eq ls rs then True
     else if length ln \<noteq> length rn then False
     else memcmp ln rn = 0)"

text \<open>\<^verbatim>\<open>hcmp\<close>: the key of the hash index is the name.\<close>

definition hcmp :: "bytes \<Rightarrow> bytes \<Rightarrow> bool" where
  "hcmp node key = (if length node \<noteq> length key then False else memcmp node key = 0)"

subsection \<open>The order\<close>

datatype zkey = ZKey (zscore: int) (zname: bytes)

instantiation zkey :: linorder
begin

definition less_eq_zkey :: "zkey \<Rightarrow> zkey \<Rightarrow> bool" where
  "less_eq_zkey a b = (zscore a < zscore b \<or> zscore a = zscore b \<and> zname a \<le> zname b)"

definition less_zkey :: "zkey \<Rightarrow> zkey \<Rightarrow> bool" where
  "less_zkey a b = (zscore a < zscore b \<or> zscore a = zscore b \<and> zname a < zname b)"

instance
  by standard (auto simp: less_eq_zkey_def less_zkey_def intro: zkey.expand)

end

definition zkey_of :: "zinfo \<Rightarrow> zkey" where
  "zkey_of = (\<lambda>(s, n). ZKey (dbl_key s) n)"

lemma memcmp_eq_0: "length xs = length ys \<Longrightarrow> memcmp xs ys = 0 \<longleftrightarrow> xs = ys"
  by (induction xs ys rule: memcmp.induct) auto

lemma hcmp_iff: "hcmp node key \<longleftrightarrow> node = key"
  using memcmp_eq_0 by (auto simp: hcmp_def)

lemma name_cmp_Cons:
  "name_cmp (a # as) (b # bs) = (if a < b then - 1 else if b < a then 1 else name_cmp as bs)"
  by (simp add: name_cmp_def Let_def)

lemma name_cmp_Nil: "name_cmp [] r = 0" "name_cmp l [] = 0"
  by (simp_all add: name_cmp_def)

lemma name_cmp_less:
  "(if name_cmp l r \<noteq> 0 then name_cmp l r < 0 else length l < length r) \<longleftrightarrow> l < r"
proof (induction l r rule: memcmp.induct [case_names Cons NilL NilR])
  case (Cons a as b bs)
  then show ?case by (auto simp: name_cmp_Cons)
next
  case (NilL r)
  then show ?case by (cases r) (simp_all add: name_cmp_Nil)
next
  case (NilR l)
  then show ?case by (cases l) (simp_all add: name_cmp_Nil)
qed

lemma name_cmp_sym: "name_cmp l r = - name_cmp r l"
  by (induction l r rule: memcmp.induct) (auto simp: name_cmp_Cons, auto simp: name_cmp_def)

lemma name_cmp_greater:
  "(if name_cmp l r \<noteq> 0 then name_cmp l r > 0 else length l > length r) \<longleftrightarrow> r < l"
  using name_cmp_less [of r l] name_cmp_sym [of l r] by auto

text \<open>On numbers the code's comparisons are the strict order of the keys.\<close>

lemma zless_iff:
  "\<not> dbl_nan (fst a) \<Longrightarrow> \<not> dbl_nan (fst b) \<Longrightarrow> zless a b \<longleftrightarrow> zkey_of a < zkey_of b"
  using name_cmp_less [of "snd a" "snd b"]
  by (cases a; cases b) (auto simp: zless_def zkey_of_def less_zkey_def dbl_eq_def dbl_lt_def Let_def)

lemma zgreater_iff:
  "\<not> dbl_nan (fst a) \<Longrightarrow> \<not> dbl_nan (fst b) \<Longrightarrow> zgreater a b \<longleftrightarrow> zkey_of b < zkey_of a"
  using name_cmp_greater [of "snd a" "snd b"]
  by (cases a; cases b) (auto simp: zgreater_def zkey_of_def less_zkey_def dbl_eq_def dbl_lt_def Let_def)

end
