(* ===== verification/MRD_AvlTree.thy ===== *)
theory MRD_AvlTree
  imports MRD_Prelude
begin

text \<open>
  The abstract side of the AVL tree: binary trees without cached fields, the rebalancing of one
  node, and the walk from a node to the root as a zipper. The store model of the C++ code
  (theory MRD_Avl) is proved to compute these functions; the balance and order laws are
  proved here once.
\<close>

subsection \<open>Balanced trees and the rebalancing of one node\<close>

fun avl :: "'a tree \<Rightarrow> bool" where
  "avl Leaf = True"
| "avl (Node l a r) =
     (height l \<le> height r + 1 \<and> height r \<le> height l + 1 \<and> avl l \<and> avl r)"

fun rotate_right :: "'a tree \<Rightarrow> 'a tree" where
  "rotate_right (Node (Node ll x lr) a r) = Node ll x (Node lr a r)"
| "rotate_right t = t"

fun rotate_left :: "'a tree \<Rightarrow> 'a tree" where
  "rotate_left (Node l a (Node rl x rr)) = Node (Node l a rl) x rr"
| "rotate_left t = t"

fun lift_left :: "'a tree \<Rightarrow> 'a tree" where
  "lift_left (Node (Node ll x lr) a r) =
     rotate_right (Node (if height ll < height lr then rotate_left (Node ll x lr)
                         else Node ll x lr) a r)"
| "lift_left t = t"

fun lift_right :: "'a tree \<Rightarrow> 'a tree" where
  "lift_right (Node l a (Node rl x rr)) =
     rotate_left (Node l a (if height rr < height rl then rotate_right (Node rl x rr)
                            else Node rl x rr))"
| "lift_right t = t"

fun rebalance :: "'a tree \<Rightarrow> 'a tree" where
  "rebalance Leaf = Leaf"
| "rebalance (Node l a r) =
     (if height l = height r + 2 then lift_left (Node l a r)
      else if height l + 2 = height r then lift_right (Node l a r)
      else Node l a r)"

lemma inorder_rotate_right [simp]: "inorder (rotate_right t) = inorder t"
  by (cases t rule: rotate_right.cases) auto

lemma inorder_rotate_left [simp]: "inorder (rotate_left t) = inorder t"
  by (cases t rule: rotate_left.cases) auto

lemma inorder_lift_left [simp]: "inorder (lift_left t) = inorder t"
  by (cases t rule: lift_left.cases) (auto split: tree.splits)

lemma inorder_lift_right [simp]: "inorder (lift_right t) = inorder t"
  by (cases t rule: lift_right.cases) (auto split: tree.splits)

lemma inorder_rebalance [simp]: "inorder (rebalance t) = inorder t"
  by (cases t rule: rebalance.cases) (simp_all del: lift_left.simps lift_right.simps)

lemma same_inorder_set: "inorder t = inorder u \<Longrightarrow> set_tree t = set_tree u"
  by (metis set_inorder)

lemma same_inorder_size: "inorder t = inorder u \<Longrightarrow> size t = size u"
  by (metis length_inorder)

lemma set_rebalance [simp]: "set_tree (rebalance t) = set_tree t"
  by (rule same_inorder_set) simp

lemma size_rebalance [simp]: "size (rebalance t) = size t"
  by (rule same_inorder_size) simp

lemma height_pos_Node: "0 < height t \<Longrightarrow> \<exists>l a r. t = Node l a r"
  by (cases t) auto

text \<open>
  A node whose subtrees are balanced and differ by two at most is balanced after one step, and
  its height drops by at most one.
\<close>

lemma lift_left_avl:
  assumes "avl l" "avl r" "height l = height r + 2"
  shows "avl (lift_left (Node l a r)) \<and>
    height (lift_left (Node l a r)) \<in> {height r + 2, height r + 3}"
proof -
  obtain ll x lr where l: "l = Node ll x lr"
    using assms(3) height_pos_Node [of l] by auto
  show ?thesis
  proof (cases "height ll < height lr")
    case True
    then obtain b y c where lr: "lr = Node b y c"
      using height_pos_Node [of lr] by auto
    with True l assms show ?thesis by (auto simp: max_def split: if_splits)
  next
    case False
    with l assms show ?thesis by (auto simp: max_def split: if_splits)
  qed
qed

lemma lift_right_avl:
  assumes "avl l" "avl r" "height r = height l + 2"
  shows "avl (lift_right (Node l a r)) \<and>
    height (lift_right (Node l a r)) \<in> {height l + 2, height l + 3}"
proof -
  obtain rl x rr where r: "r = Node rl x rr"
    using assms(3) height_pos_Node [of r] by auto
  show ?thesis
  proof (cases "height rr < height rl")
    case True
    then obtain b y c where rl: "rl = Node b y c"
      using height_pos_Node [of rl] by auto
    with True r assms show ?thesis by (auto simp: max_def split: if_splits)
  next
    case False
    with r assms show ?thesis by (auto simp: max_def split: if_splits)
  qed
qed

lemma rebalance_avl:
  assumes "avl l" "avl r" "height l \<le> height r + 2" "height r \<le> height l + 2"
  shows "avl (rebalance (Node l a r))"
  using assms lift_left_avl [of l r a] lift_right_avl [of l r a]
  by (auto simp del: lift_left.simps lift_right.simps)

lemma rebalance_height:
  assumes "avl l" "avl r" "height l \<le> height r + 2" "height r \<le> height l + 2"
  shows "height (rebalance (Node l a r)) \<le> max (height l) (height r) + 1"
    and "max (height l) (height r) \<le> height (rebalance (Node l a r))"
    and "height l \<noteq> height r + 2 \<Longrightarrow> height r \<noteq> height l + 2 \<Longrightarrow>
      height (rebalance (Node l a r)) = max (height l) (height r) + 1"
  using assms lift_left_avl [of l r a] lift_right_avl [of l r a]
  by (auto simp del: lift_left.simps lift_right.simps)

lemma rebalance_avl_id: "avl t \<Longrightarrow> rebalance t = t"
  by (cases t) auto

subsection \<open>The way to the root\<close>

text \<open>
  One step up the tree: \<open>UpL a r\<close> leaves the left subtree of node \<open>a\<close> with right subtree \<open>r\<close>,
  \<open>UpR l a\<close> leaves the right subtree. The innermost step comes first.
\<close>

datatype 'a step = UpL 'a "'a tree" | UpR "'a tree" 'a

fun plug1 :: "'a tree \<Rightarrow> 'a step \<Rightarrow> 'a tree" where
  "plug1 t (UpL a r) = Node t a r"
| "plug1 t (UpR l a) = Node l a t"

fun plug :: "'a tree \<Rightarrow> 'a step list \<Rightarrow> 'a tree" where
  "plug t [] = t"
| "plug t (s # p) = plug (plug1 t s) p"

fun retrace :: "'a tree \<Rightarrow> 'a step list \<Rightarrow> 'a tree" where
  "retrace t [] = t"
| "retrace t (s # p) = retrace (rebalance (plug1 t s)) p"

fun before :: "'a step list \<Rightarrow> 'a list" where
  "before [] = []"
| "before (UpL a r # p) = before p"
| "before (UpR l a # p) = before p @ inorder l @ [a]"

fun behind :: "'a step list \<Rightarrow> 'a list" where
  "behind [] = []"
| "behind (UpL a r # p) = a # inorder r @ behind p"
| "behind (UpR l a # p) = behind p"

lemma inorder_plug [simp]: "inorder (plug t p) = before p @ inorder t @ behind p"
proof (induction p arbitrary: t)
  case Nil
  then show ?case by simp
next
  case (Cons s p)
  then show ?case by (cases s) auto
qed

lemma inorder_retrace [simp]: "inorder (retrace t p) = before p @ inorder t @ behind p"
proof (induction p arbitrary: t)
  case Nil
  then show ?case by simp
next
  case (Cons s p)
  then show ?case by (cases s) auto
qed

lemma set_plug [simp]: "set_tree (plug t p) = set (before p) \<union> set_tree t \<union> set (behind p)"
  unfolding set_inorder [symmetric] by (simp del: set_inorder) (simp add: Un_assoc)

lemma size_plug [simp]: "size (plug t p) = length (before p) + size t + length (behind p)"
  unfolding length_inorder [symmetric] by (simp del: length_inorder)

lemma set_retrace [simp]: "set_tree (retrace t p) = set (before p) \<union> set_tree t \<union> set (behind p)"
  unfolding set_inorder [symmetric] by (simp del: set_inorder) (simp add: Un_assoc)

lemma size_retrace [simp]: "size (retrace t p) = length (before p) + size t + length (behind p)"
  unfolding length_inorder [symmetric] by (simp del: length_inorder)

lemma plug_append: "plug t (p @ q) = plug (plug t p) q"
  by (induction p arbitrary: t) auto

lemma before_append [simp]: "before (p @ q) = before q @ before p"
  by (induction p rule: before.induct) auto

lemma behind_append [simp]: "behind (p @ q) = behind p @ behind q"
  by (induction p rule: before.induct) auto

lemma avl_plug_cong:
  "avl t = avl u \<Longrightarrow> height t = height u \<Longrightarrow> avl (plug t p) = avl (plug u p)"
proof (induction p arbitrary: t u)
  case Nil
  then show ?case by simp
next
  case (Cons s p)
  then show ?case by (cases s) auto
qed

lemma plug_root_same:
  "p \<noteq> [] \<Longrightarrow> \<exists>l1 b r1 l2 r2. plug t p = Node l1 b r1 \<and> plug u p = Node l2 b r2"
proof (induction p arbitrary: t u)
  case Nil
  then show ?case by simp
next
  case (Cons s p)
  then show ?case by (cases p; cases s) auto
qed

lemma avl_plugD: "avl (plug t p) \<Longrightarrow> avl t"
proof (induction p arbitrary: t)
  case Nil
  then show ?case by simp
next
  case (Cons s p)
  then have "avl (plug1 t s)" by simp
  then show ?case by (cases s) auto
qed

text \<open>
  The walk restores balance: a balanced subtree that differs by at most one in height from the
  one it replaces gives a balanced tree.
\<close>

lemma avl_retrace:
  "avl (plug t0 p) \<Longrightarrow> avl t \<Longrightarrow> height t \<le> height t0 + 1 \<Longrightarrow> height t0 \<le> height t + 1 \<Longrightarrow>
   avl (retrace t p)"
proof (induction p arbitrary: t t0)
  case Nil
  then show ?case by simp
next
  case (Cons s p)
  have parent: "avl (plug1 t0 s)"
    using Cons.prems(1) avl_plugD [of "plug1 t0 s" p] by simp
  show ?case
  proof (cases s)
    case (UpL a r)
    have b: "avl r" "height t \<le> height r + 2" "height r \<le> height t + 2"
      using parent UpL Cons.prems by auto
    have "avl (rebalance (Node t a r))"
      using b Cons.prems(2) by (intro rebalance_avl)
    moreover have "height (rebalance (Node t a r)) \<le> height (Node t0 a r) + 1"
      "height (Node t0 a r) \<le> height (rebalance (Node t a r)) + 1"
      using rebalance_height [of t r a] b parent UpL Cons.prems by auto
    ultimately show ?thesis
      using Cons.IH [of "Node t0 a r" "rebalance (Node t a r)"] Cons.prems(1) UpL by simp
  next
    case (UpR l a)
    have b: "avl l" "height t \<le> height l + 2" "height l \<le> height t + 2"
      using parent UpR Cons.prems by auto
    have "avl (rebalance (Node l a t))"
      using b Cons.prems(2) by (intro rebalance_avl)
    moreover have "height (rebalance (Node l a t)) \<le> height (Node l a t0) + 1"
      "height (Node l a t0) \<le> height (rebalance (Node l a t)) + 1"
      using rebalance_height [of l t a] b parent UpR Cons.prems by auto
    ultimately show ?thesis
      using Cons.IH [of "Node l a t0" "rebalance (Node l a t)"] Cons.prems(1) UpR by simp
  qed
qed

text \<open>Every node of a tree is the root of a subtree in a context.\<close>

lemma find_context:
  "x \<in> set_tree t \<Longrightarrow> \<exists>l r p. t = plug (Node l x r) p"
proof (induction t)
  case Leaf
  then show ?case by simp
next
  case (Node l a r)
  consider "x = a" | "x \<in> set_tree l" | "x \<in> set_tree r"
    using Node.prems by auto
  then show ?case
  proof cases
    case 1
    then have "Node l a r = plug (Node l x r) []" by simp
    then show ?thesis by blast
  next
    case 2
    then obtain l' r' p where "l = plug (Node l' x r') p" using Node.IH(1) by blast
    then have "Node l a r = plug (Node l' x r') (p @ [UpL a r])" by (simp add: plug_append)
    then show ?thesis by blast
  next
    case 3
    then obtain l' r' p where "r = plug (Node l' x r') p" using Node.IH(2) by blast
    then have "Node l a r = plug (Node l' x r') (p @ [UpR l a])" by (simp add: plug_append)
    then show ?thesis by blast
  qed
qed

text \<open>Renaming a node, as the deletion of an inner node does with its successor.\<close>

lemma avl_map_tree [simp]: "avl (map_tree f t) = avl t"
  by (induction t) auto

declare rebalance.simps(2) [simp del]

end
