(* ===== verification/MRD_Avl.thy ===== *)
theory MRD_Avl
  imports MRD_AvlTree
begin

text \<open>
  The intrusive AVL tree of \<^verbatim>\<open>shared/src/MRD_avl.cpp\<close>, on a store from addresses to nodes with
  parent pointers and cached 32-bit height and count. Every function reads and writes the store
  in the order of the C++ statements; a null or dangling dereference, a failed assertion and an
  endless loop are \<open>None\<close>.
\<close>

record avl_node =
  parent :: "addr option"
  left :: "addr option"
  right :: "addr option"
  sub_height :: u32
  sub_count :: u32

type_synonym avl_heap = "addr \<rightharpoonup> avl_node"

definition AVLNode_init :: avl_node where
  "AVLNode_init = \<lparr>parent = None, left = None, right = None, sub_height = 1, sub_count = 1\<rparr>"

subsection \<open>Cached fields and rotations\<close>

definition AVLNode_h :: "avl_heap \<Rightarrow> addr option \<Rightarrow> u32 option" where
  "AVLNode_h H node = (case node of None \<Rightarrow> Some 0 | Some a \<Rightarrow> map_option sub_height (H a))"

definition AVLNode_cnt :: "avl_heap \<Rightarrow> addr option \<Rightarrow> u32 option" where
  "AVLNode_cnt H node = (case node of None \<Rightarrow> Some 0 | Some a \<Rightarrow> map_option sub_count (H a))"

definition AVLNode_update :: "addr \<Rightarrow> avl_heap \<Rightarrow> avl_heap option" where
  "AVLNode_update this H = do {
     n \<leftarrow> H this;
     hl \<leftarrow> AVLNode_h H (left n);
     hr \<leftarrow> AVLNode_h H (right n);
     H \<leftarrow> upd_at this (\<lambda>n. n\<lparr>sub_height := max hl hr + 1\<rparr>) H;
     cl \<leftarrow> AVLNode_cnt H (left n);
     cr \<leftarrow> AVLNode_cnt H (right n);
     upd_at this (\<lambda>n. n\<lparr>sub_count := 1 + cl + cr\<rparr>) H
   }"

text \<open>\<^verbatim>\<open>if (p) p->parent = q;\<close>\<close>

definition set_parent :: "addr option \<Rightarrow> addr option \<Rightarrow> avl_heap \<Rightarrow> avl_heap option" where
  "set_parent p q H = (case p of None \<Rightarrow> Some H | Some a \<Rightarrow> upd_at a (\<lambda>n. n\<lparr>parent := q\<rparr>) H)"

definition AVLNode_rot_left :: "addr \<Rightarrow> avl_heap \<Rightarrow> (avl_heap \<times> addr) option" where
  "AVLNode_rot_left node H = do {
     n \<leftarrow> H node;
     let par = parent n;
     new_node \<leftarrow> right n;
     nn \<leftarrow> H new_node;
     let inner = left nn;
     H \<leftarrow> upd_at node (\<lambda>n. n\<lparr>right := inner\<rparr>) H;
     H \<leftarrow> set_parent inner (Some node) H;
     H \<leftarrow> upd_at new_node (\<lambda>n. n\<lparr>parent := par\<rparr>) H;
     H \<leftarrow> upd_at new_node (\<lambda>n. n\<lparr>left := Some node\<rparr>) H;
     H \<leftarrow> upd_at node (\<lambda>n. n\<lparr>parent := Some new_node\<rparr>) H;
     H \<leftarrow> AVLNode_update node H;
     H \<leftarrow> AVLNode_update new_node H;
     Some (H, new_node)
   }"

definition AVLNode_rot_right :: "addr \<Rightarrow> avl_heap \<Rightarrow> (avl_heap \<times> addr) option" where
  "AVLNode_rot_right node H = do {
     n \<leftarrow> H node;
     let par = parent n;
     new_node \<leftarrow> left n;
     nn \<leftarrow> H new_node;
     let inner = right nn;
     H \<leftarrow> upd_at node (\<lambda>n. n\<lparr>left := inner\<rparr>) H;
     H \<leftarrow> set_parent inner (Some node) H;
     H \<leftarrow> upd_at new_node (\<lambda>n. n\<lparr>parent := par\<rparr>) H;
     H \<leftarrow> upd_at new_node (\<lambda>n. n\<lparr>right := Some node\<rparr>) H;
     H \<leftarrow> upd_at node (\<lambda>n. n\<lparr>parent := Some new_node\<rparr>) H;
     H \<leftarrow> AVLNode_update node H;
     H \<leftarrow> AVLNode_update new_node H;
     Some (H, new_node)
   }"

definition AVLNode_fix_left :: "addr \<Rightarrow> avl_heap \<Rightarrow> (avl_heap \<times> addr) option" where
  "AVLNode_fix_left node H = do {
     n \<leftarrow> H node;
     l \<leftarrow> left n;
     ln \<leftarrow> H l;
     hll \<leftarrow> AVLNode_h H (left ln);
     hlr \<leftarrow> AVLNode_h H (right ln);
     H \<leftarrow> (if hll < hlr
          then do { (H, l') \<leftarrow> AVLNode_rot_left l H; upd_at node (\<lambda>n. n\<lparr>left := Some l'\<rparr>) H }
          else Some H);
     AVLNode_rot_right node H
   }"

definition AVLNode_fix_right :: "addr \<Rightarrow> avl_heap \<Rightarrow> (avl_heap \<times> addr) option" where
  "AVLNode_fix_right node H = do {
     n \<leftarrow> H node;
     r \<leftarrow> right n;
     rn \<leftarrow> H r;
     hrr \<leftarrow> AVLNode_h H (right rn);
     hrl \<leftarrow> AVLNode_h H (left rn);
     H \<leftarrow> (if hrr < hrl
          then do { (H, r') \<leftarrow> AVLNode_rot_right r H; upd_at node (\<lambda>n. n\<lparr>right := Some r'\<rparr>) H }
          else Some H);
     AVLNode_rot_left node H
   }"

subsection \<open>The walk to the root\<close>

text \<open>
  \<^verbatim>\<open>AVLNode **from\<close> is the address of a link: the local variable \<^verbatim>\<open>node\<close> (or \<^verbatim>\<open>root\<close>), or the left
  or right link of a parent.
\<close>

datatype link = LocalVar | LeftOf addr | RightOf addr

definition link_of :: "addr \<Rightarrow> addr option \<Rightarrow> avl_heap \<Rightarrow> link option" where
  "link_of node par H = (case par of None \<Rightarrow> Some LocalVar
     | Some p \<Rightarrow> do { pn \<leftarrow> H p; Some (if left pn = Some node then LeftOf p else RightOf p) })"

definition store_link :: "link \<Rightarrow> addr option \<Rightarrow> avl_heap \<Rightarrow> avl_heap option" where
  "store_link from q H = (case from of LocalVar \<Rightarrow> Some H
     | LeftOf p \<Rightarrow> upd_at p (\<lambda>n. n\<lparr>left := q\<rparr>) H
     | RightOf p \<Rightarrow> upd_at p (\<lambda>n. n\<lparr>right := q\<rparr>) H)"

partial_function (option) AVLNode_fix :: "addr \<Rightarrow> avl_heap \<Rightarrow> (avl_heap \<times> addr) option" where
  "AVLNode_fix node H = do {
     n \<leftarrow> H node;
     let par = parent n;
     from \<leftarrow> link_of node par H;
     H \<leftarrow> AVLNode_update node H;
     n \<leftarrow> H node;
     l \<leftarrow> AVLNode_h H (left n);
     r \<leftarrow> AVLNode_h H (right n);
     (H, sub) \<leftarrow>
       (if l = r + 2
        then do { (H, s) \<leftarrow> AVLNode_fix_left node H; H \<leftarrow> store_link from (Some s) H; Some (H, s) }
        else if l + 2 = r
        then do { (H, s) \<leftarrow> AVLNode_fix_right node H; H \<leftarrow> store_link from (Some s) H; Some (H, s) }
        else Some (H, node));
     (case par of None \<Rightarrow> Some (H, sub) | Some p \<Rightarrow> AVLNode_fix p H)
   }"

declare AVLNode_fix.simps [code]

subsection \<open>Deletion\<close>

definition AVLNode_del_easy :: "addr \<Rightarrow> avl_heap \<Rightarrow> (avl_heap \<times> addr option) option" where
  "AVLNode_del_easy node H = do {
     n \<leftarrow> H node;
     oguard (left n = None \<or> right n = None);
     let child = (if left n \<noteq> None then left n else right n);
     let par = parent n;
     H \<leftarrow> set_parent child par H;
     (case par of None \<Rightarrow> Some (H, child)
      | Some p \<Rightarrow> do {
          from \<leftarrow> link_of node par H;
          H \<leftarrow> store_link from child H;
          (H, r) \<leftarrow> AVLNode_fix p H;
          Some (H, Some r)
        })
   }"

text \<open>The loops \<^verbatim>\<open>while (v->left) v = v->left;\<close> and its mirror image.\<close>

partial_function (option) leftmost :: "avl_heap \<Rightarrow> addr \<Rightarrow> addr option" where
  "leftmost H v = do {
     n \<leftarrow> H v;
     (case left n of None \<Rightarrow> Some v | Some l \<Rightarrow> leftmost H l)
   }"

declare leftmost.simps [code]

partial_function (option) rightmost :: "avl_heap \<Rightarrow> addr \<Rightarrow> addr option" where
  "rightmost H v = do {
     n \<leftarrow> H v;
     (case right n of None \<Rightarrow> Some v | Some r \<Rightarrow> rightmost H r)
   }"

declare rightmost.simps [code]

text \<open>
  In the inner case the fields of the node are copied into its successor after the successor
  has been unlinked; the copy brings the node's links and cached fields of that moment.
\<close>

definition AVLNode_del :: "addr \<Rightarrow> avl_heap \<Rightarrow> (avl_heap \<times> addr option) option" where
  "AVLNode_del node H = do {
     n \<leftarrow> H node;
     (if left n = None \<or> right n = None then AVLNode_del_easy node H
      else do {
        r \<leftarrow> right n;
        victim \<leftarrow> leftmost H r;
        (H, root) \<leftarrow> AVLNode_del_easy victim H;
        n \<leftarrow> H node;
        H \<leftarrow> upd_at victim (\<lambda>_. n) H;
        v \<leftarrow> H victim;
        H \<leftarrow> set_parent (left v) (Some victim) H;
        v \<leftarrow> H victim;
        H \<leftarrow> set_parent (right v) (Some victim) H;
        n \<leftarrow> H node;
        from \<leftarrow> link_of node (parent n) H;
        H \<leftarrow> store_link from (Some victim) H;
        Some (H, if from = LocalVar then Some victim else root)
      })
   }"

subsection \<open>Navigation\<close>

partial_function (option) climb_right :: "avl_heap \<Rightarrow> addr \<Rightarrow> addr option option" where
  "climb_right H node = do {
     n \<leftarrow> H node;
     (case parent n of None \<Rightarrow> Some None
      | Some p \<Rightarrow> do {
          pn \<leftarrow> H p;
          (if left pn = Some node then Some (Some p) else climb_right H p)
        })
   }"

declare climb_right.simps [code]

definition AVLNode_successor :: "avl_heap \<Rightarrow> addr \<Rightarrow> addr option option" where
  "AVLNode_successor H node = do {
     n \<leftarrow> H node;
     (case right n of Some r \<Rightarrow> map_option Some (leftmost H r) | None \<Rightarrow> climb_right H node)
   }"

partial_function (option) climb_left :: "avl_heap \<Rightarrow> addr \<Rightarrow> addr option option" where
  "climb_left H node = do {
     n \<leftarrow> H node;
     (case parent n of None \<Rightarrow> Some None
      | Some p \<Rightarrow> do {
          pn \<leftarrow> H p;
          (if right pn = Some node then Some (Some p) else climb_left H p)
        })
   }"

declare climb_left.simps [code]

definition AVLNode_predscessor :: "avl_heap \<Rightarrow> addr \<Rightarrow> addr option option" where
  "AVLNode_predscessor H node = do {
     n \<leftarrow> H node;
     (case left n of Some l \<Rightarrow> map_option Some (rightmost H l) | None \<Rightarrow> climb_left H node)
   }"

text \<open>
  Ranks and offsets are \<^verbatim>\<open>int64_t\<close>; the sum \<^verbatim>\<open>cnt + 1\<close> is computed in \<^verbatim>\<open>uint32_t\<close> first.
\<close>

partial_function (option) rank_climb :: "avl_heap \<Rightarrow> addr \<Rightarrow> int \<Rightarrow> int option" where
  "rank_climb H node rk = do {
     n \<leftarrow> H node;
     (case parent n of None \<Rightarrow> Some rk
      | Some p \<Rightarrow> do {
          pn \<leftarrow> H p;
          (if right pn = Some node
           then do { c \<leftarrow> AVLNode_cnt H (left pn); rank_climb H p (rk + uint (c + 1)) }
           else Some rk)
        })
   }"

declare rank_climb.simps [code]

definition AVLNode_rank :: "avl_heap \<Rightarrow> addr \<Rightarrow> int option" where
  "AVLNode_rank H node = do {
     n \<leftarrow> H node;
     c \<leftarrow> (if left n \<noteq> None then AVLNode_cnt H (left n) else Some 0);
     rank_climb H node (1 + uint c)
   }"

partial_function (option) offset_loop :: "avl_heap \<Rightarrow> addr \<Rightarrow> int \<Rightarrow> int \<Rightarrow> addr option option" where
  "offset_loop H node pos off =
     (if pos = off then Some (Some node)
      else do {
        n \<leftarrow> H node;
        cr \<leftarrow> AVLNode_cnt H (right n);
        cl \<leftarrow> AVLNode_cnt H (left n);
        (if pos < off \<and> pos + uint cr \<ge> off
         then do {
           node \<leftarrow> right n;
           n \<leftarrow> H node;
           c \<leftarrow> AVLNode_cnt H (left n);
           offset_loop H node (pos + uint (c + 1)) off
         }
         else if pos > off \<and> pos - uint cl \<le> off
         then do {
           node \<leftarrow> left n;
           n \<leftarrow> H node;
           c \<leftarrow> AVLNode_cnt H (right n);
           offset_loop H node (pos - uint (c + 1)) off
         }
         else (case parent n of None \<Rightarrow> Some None
           | Some p \<Rightarrow> do {
               pn \<leftarrow> H p;
               (if right pn = Some node
                then offset_loop H p (pos - uint (cl + 1)) off
                else offset_loop H p (pos + uint (cr + 1)) off)
             }))
      })"

declare offset_loop.simps [code]

definition AVLNode_offset :: "avl_heap \<Rightarrow> addr \<Rightarrow> int \<Rightarrow> addr option option" where
  "AVLNode_offset H node off = offset_loop H node 0 off"

end
