(* ===== verification/MRD_AvlStore.thy ===== *)
theory MRD_AvlStore
  imports MRD_Avl
begin

text \<open>
  The store of AVL nodes represents a tree: links, parent pointers and cached fields agree
  with a binary tree of addresses. This theory holds the representation predicates, their frame
  rules and the refinement of rotations and of the walk to the root.
\<close>

subsection \<open>Representation\<close>

fun is_tree :: "avl_heap \<Rightarrow> addr option \<Rightarrow> addr option \<Rightarrow> addr tree \<Rightarrow> bool" where
  "is_tree H par q Leaf = (q = None)"
| "is_tree H par q (Node l a r) = (q = Some a \<and> (\<exists>n. H a = Some n \<and> parent n = par \<and>
     is_tree H (Some a) (left n) l \<and> is_tree H (Some a) (right n) r \<and>
     sub_height n = of_nat (height (Node l a r)) \<and> sub_count n = of_nat (size (Node l a r))))"

text \<open>A node whose own cached fields may be out of date.\<close>

definition is_node :: "avl_heap \<Rightarrow> addr option \<Rightarrow> addr \<Rightarrow> addr tree \<Rightarrow> addr tree \<Rightarrow> bool" where
  "is_node H par a l r = (\<exists>n. H a = Some n \<and> parent n = par \<and>
     is_tree H (Some a) (left n) l \<and> is_tree H (Some a) (right n) r)"

text \<open>The ancestors of a place in the tree; their cached fields may be out of date.\<close>

fun is_path :: "avl_heap \<Rightarrow> addr option \<Rightarrow> addr option \<Rightarrow> addr step list \<Rightarrow> bool" where
  "is_path H q par [] = (par = None)"
| "is_path H q par (UpL a r # p) = (par = Some a \<and> (\<exists>n. H a = Some n \<and> left n = q \<and>
     is_tree H (Some a) (right n) r \<and> is_path H (Some a) (parent n) p))"
| "is_path H q par (UpR l a # p) = (par = Some a \<and> (\<exists>n. H a = Some n \<and> right n = q \<and>
     is_tree H (Some a) (left n) l \<and> is_path H (Some a) (parent n) p))"

lemma is_tree_frame:
  "(\<And>b. b \<in> set_tree t \<Longrightarrow> H' b = H b) \<Longrightarrow> is_tree H' par q t = is_tree H par q t"
proof (induction t arbitrary: par q)
  case Leaf
  then show ?case by simp
next
  case (Node l a r)
  have "is_tree H' par' q' l = is_tree H par' q' l" "is_tree H' par' q' r = is_tree H par' q' r"
    for par' q'
    using Node.prems by (auto intro!: Node.IH)
  moreover have "H' a = H a" using Node.prems by simp
  ultimately show ?case by simp
qed

lemma is_tree_upd [heap_simps]:
  "b \<notin> set_tree t \<Longrightarrow> is_tree (H(b := v)) par q t = is_tree H par q t"
  by (rule is_tree_frame) auto

lemma is_path_frame:
  "(\<And>b. b \<in> set (before p) \<union> set (behind p) \<Longrightarrow> H' b = H b) \<Longrightarrow>
   is_path H' q par p = is_path H q par p"
proof (induction p arbitrary: par q)
  case Nil
  then show ?case by simp
next
  case (Cons s p)
  have IH: "is_path H' q' par' p = is_path H q' par' p" for q' par'
    using Cons.prems by (cases s) (auto intro!: Cons.IH)
  show ?case
  proof (cases s)
    case (UpL a r)
    have "is_tree H' par' q' r = is_tree H par' q' r" for par' q'
      by (rule is_tree_frame) (use Cons.prems UpL in auto)
    moreover have "H' a = H a" using Cons.prems UpL by simp
    ultimately show ?thesis using UpL IH by simp
  next
    case (UpR l a)
    have "is_tree H' par' q' l = is_tree H par' q' l" for par' q'
      by (rule is_tree_frame) (use Cons.prems UpR in auto)
    moreover have "H' a = H a" using Cons.prems UpR by simp
    ultimately show ?thesis using UpR IH by simp
  qed
qed

lemma is_path_upd [heap_simps]:
  "b \<notin> set (before p) \<union> set (behind p) \<Longrightarrow> is_path (H(b := v)) q par p = is_path H q par p"
  by (rule is_path_frame) auto

lemma is_tree_root: "is_tree H par q t \<Longrightarrow> (q = None) = (t = Leaf)"
  by (cases t) auto

lemma is_tree_in_dom: "is_tree H par q t \<Longrightarrow> a \<in> set_tree t \<Longrightarrow> H a \<noteq> None"
  by (induction t arbitrary: par q) auto

lemma is_tree_node: "is_tree H par q (Node l a r) \<Longrightarrow> is_node H par a l r"
  by (auto simp: is_node_def)

lemma is_tree_child_mem: "is_tree H par (Some b) t \<Longrightarrow> b \<in> set_tree t"
  by (cases t) auto

text \<open>A represented tree splits at any of its nodes, and joins again.\<close>

lemma is_tree_plugD:
  "is_tree H None root (plug t p) \<Longrightarrow> \<exists>q par. is_tree H par q t \<and> is_path H q par p"
proof (induction p arbitrary: t)
  case Nil
  then show ?case by auto
next
  case (Cons s p)
  have "is_tree H None root (plug (plug1 t s) p)" using Cons.prems by simp
  then obtain q par where *: "is_tree H par q (plug1 t s)" "is_path H q par p"
    using Cons.IH by blast
  then show ?case by (cases s) auto
qed

text \<open>Cached fields of the ancestors, as the invariant has them outside of an update.\<close>

fun path_cached :: "avl_heap \<Rightarrow> addr tree \<Rightarrow> addr step list \<Rightarrow> bool" where
  "path_cached H t [] = True"
| "path_cached H t (s # p) = ((\<exists>n. H (case s of UpL a r \<Rightarrow> a | UpR l a \<Rightarrow> a) = Some n \<and>
     sub_height n = of_nat (height (plug1 t s)) \<and> sub_count n = of_nat (size (plug1 t s))) \<and>
     path_cached H (plug1 t s) p)"

lemma is_tree_plug_split:
  "is_tree H None root (plug t p) \<Longrightarrow>
   \<exists>q par. is_tree H par q t \<and> is_path H q par p \<and> path_cached H t p \<and> (p = [] \<longrightarrow> q = root)"
proof (induction p arbitrary: t)
  case Nil
  then show ?case by auto
next
  case (Cons s p)
  have "is_tree H None root (plug (plug1 t s) p)" using Cons.prems by simp
  then obtain q par where *: "is_tree H par q (plug1 t s)" "is_path H q par p"
      "path_cached H (plug1 t s) p"
    using Cons.IH by blast
  then show ?case by (cases s) auto
qed

lemma is_tree_plug_join:
  "is_tree H par q t \<Longrightarrow> is_path H q par p \<Longrightarrow> path_cached H t p \<Longrightarrow>
   \<exists>root. is_tree H None root (plug t p) \<and> (p = [] \<longrightarrow> root = q)"
proof (induction p arbitrary: t par q)
  case Nil
  then show ?case by auto
next
  case (Cons s p)
  show ?case
  proof (cases s)
    case (UpL a r)
    then obtain n where n: "par = Some a" "H a = Some n" "left n = q"
        "is_tree H (Some a) (right n) r" "is_path H (Some a) (parent n) p"
      using Cons.prems by auto
    then have "is_tree H (parent n) (Some a) (plug1 t s)"
      using Cons.prems UpL by simp
    then show ?thesis using Cons.IH [of "parent n" "Some a" "plug1 t s", OF _ n(5)] n Cons.prems UpL by auto
  next
    case (UpR l a)
    then obtain n where n: "par = Some a" "H a = Some n" "right n = q"
        "is_tree H (Some a) (left n) l" "is_path H (Some a) (parent n) p"
      using Cons.prems by auto
    then have "is_tree H (parent n) (Some a) (plug1 t s)"
      using Cons.prems UpR by simp
    then show ?thesis using Cons.IH [of "parent n" "Some a" "plug1 t s", OF _ n(5)] n Cons.prems UpR by auto
  qed
qed

subsection \<open>Reading the cached fields\<close>

lemma AVLNode_h_tree [heap_simps]: "is_tree H par q t \<Longrightarrow> AVLNode_h H q = Some (of_nat (height t))"
  by (cases t) (auto simp: AVLNode_h_def)

lemma AVLNode_cnt_tree [heap_simps]: "is_tree H par q t \<Longrightarrow> AVLNode_cnt H q = Some (of_nat (size t))"
  by (cases t) (auto simp: AVLNode_cnt_def)

text \<open>All sizes stay below the 32-bit bound, so the cached numbers are the true ones.\<close>

abbreviation small :: "nat \<Rightarrow> bool" where
  "small k \<equiv> k + 2 < 2 ^ 32"

lemma height_bound: "small (size (t :: 'a tree)) \<Longrightarrow> height t + 2 < 2 ^ 32"
  using height_le_size_tree [of t] by linarith

lemma max_height_word:
  "small (size (l :: 'a tree)) \<Longrightarrow> small (size (r :: 'a tree)) \<Longrightarrow>
   max (of_nat (height l)) (of_nat (height r)) + 1 = (of_nat (height (Node l a r)) :: u32)"
  using height_bound [of l] height_bound [of r] by (simp add: of_nat_max_word)

lemma AVLNode_update_node:
  assumes "is_node H par a l r" "a \<notin> set_tree l" "a \<notin> set_tree r" "small (size l)" "small (size r)"
  shows "\<exists>n. H a = Some n \<and>
     AVLNode_update a H = Some (H(a \<mapsto> n\<lparr>sub_height := of_nat (height (Node l a r)),
       sub_count := of_nat (size (Node l a r))\<rparr>)) \<and>
     is_tree (H(a \<mapsto> n\<lparr>sub_height := of_nat (height (Node l a r)),
       sub_count := of_nat (size (Node l a r))\<rparr>)) par (Some a) (Node l a r)"
proof -
  obtain n where n: "H a = Some n" "parent n = par"
      "is_tree H (Some a) (left n) l" "is_tree H (Some a) (right n) r"
    using assms(1) by (auto simp: is_node_def)
  define H1 where "H1 = H(a \<mapsto> n\<lparr>sub_height := of_nat (height (Node l a r))\<rparr>)"
  have t1: "is_tree H1 (Some a) (left n) l" "is_tree H1 (Some a) (right n) r"
    using n assms by (simp_all add: H1_def heap_simps)
  have h: "max (of_nat (height l)) (of_nat (height r)) + 1 = (of_nat (height (Node l a r)) :: u32)"
    using max_height_word [of l r a] assms by blast
  have "AVLNode_update a H = do {
      cl \<leftarrow> AVLNode_cnt H1 (left n);
      cr \<leftarrow> AVLNode_cnt H1 (right n);
      upd_at a (\<lambda>n. n\<lparr>sub_count := 1 + cl + cr\<rparr>) H1 }"
    using n by (simp add: AVLNode_update_def AVLNode_h_tree h H1_def del: height_tree.simps of_nat_Suc)
  then have "AVLNode_update a H = Some (H(a \<mapsto> n\<lparr>sub_height := of_nat (height (Node l a r)),
       sub_count := of_nat (size (Node l a r))\<rparr>))"
    using AVLNode_cnt_tree [OF t1(1)] AVLNode_cnt_tree [OF t1(2)]
    by (simp add: H1_def add_ac del: height_tree.simps)
  then show ?thesis using n assms by (simp add: heap_simps)
qed

subsection \<open>Rotations\<close>

lemma set_parent_tree:
  assumes "is_tree H par q t" "distinct (inorder t)"
  shows "\<exists>H'. set_parent q par' H = Some H' \<and> is_tree H' par' q t \<and>
    (\<forall>b. b \<notin> set_tree t \<longrightarrow> H' b = H b)"
proof (cases t)
  case Leaf
  then show ?thesis using assms by (auto simp: set_parent_def)
next
  case (Node l a r)
  then obtain n where n: "q = Some a" "H a = Some n" "is_tree H (Some a) (left n) l"
      "is_tree H (Some a) (right n) r" "sub_height n = of_nat (height t)"
      "sub_count n = of_nat (size t)"
    using assms by auto
  then show ?thesis using assms Node by (auto simp: set_parent_def heap_simps)
qed

lemma rot_right_tree:
  assumes node: "is_node H par a (Node ll x lr) r"
    and dist: "distinct (inorder (Node (Node ll x lr) a r))"
    and size: "small (size (Node (Node ll x lr) a r))"
  shows "\<exists>H'. AVLNode_rot_right a H = Some (H', x) \<and>
    is_tree H' par (Some x) (Node ll x (Node lr a r)) \<and>
    (\<forall>b. b \<notin> set_tree (Node (Node ll x lr) a r) \<longrightarrow> H' b = H b)"
proof -
  obtain n m where n: "H a = Some n" "parent n = par" "left n = Some x"
      "is_tree H (Some a) (right n) r"
    and m: "H x = Some m" "is_tree H (Some x) (left m) ll" "is_tree H (Some x) (right m) lr"
    using node by (auto simp: is_node_def)
  have d: "a \<noteq> x" "a \<notin> set_tree ll" "a \<notin> set_tree lr" "a \<notin> set_tree r" "x \<notin> set_tree ll"
      "x \<notin> set_tree lr" "x \<notin> set_tree r" "set_tree ll \<inter> set_tree lr = {}"
      "set_tree lr \<inter> set_tree r = {}" "distinct (inorder lr)"
    using dist by auto
  define Ha where "Ha = H(a \<mapsto> n\<lparr>left := right m\<rparr>)"
  have "is_tree Ha (Some x) (right m) lr" using m d by (simp add: Ha_def heap_simps)
  then obtain Hb where Hb: "set_parent (right m) (Some a) Ha = Some Hb"
      "is_tree Hb (Some a) (right m) lr" "\<And>b. b \<notin> set_tree lr \<Longrightarrow> Hb b = Ha b"
    using set_parent_tree [of Ha "Some x" "right m" lr "Some a"] d(10) by blast
  have b: "Hb x = Some m" "Hb a = Some (n\<lparr>left := right m\<rparr>)"
    using Hb(3) d m by (simp_all add: Ha_def)
  define Hc where "Hc = Hb(x \<mapsto> m\<lparr>parent := par, right := Some a\<rparr>,
    a \<mapsto> n\<lparr>left := right m, parent := Some x\<rparr>)"
  have "Hc b = H b" if b: "b \<in> set_tree r \<or> b \<in> set_tree ll" for b
  proof -
    have "b \<notin> set_tree lr" "b \<noteq> a" "b \<noteq> x" using b d by blast+
    then show ?thesis using Hb(3) by (simp add: Hc_def Ha_def)
  qed
  then have frame_c: "is_tree Hc p q r = is_tree H p q r" "is_tree Hc p q ll = is_tree H p q ll"
    for p q by (auto intro!: is_tree_frame)
  have node_a: "is_node Hc (Some x) a lr r"
    using n Hb(2) d by (auto simp: is_node_def Hc_def frame_c [unfolded Hc_def] heap_simps)
  then obtain n1 where upd_a: "AVLNode_update a Hc = Some (Hc(a \<mapsto> n1))"
      "is_tree (Hc(a \<mapsto> n1)) (Some x) (Some a) (Node lr a r)"
    using AVLNode_update_node [OF node_a] d size by auto
  define Hd where "Hd = Hc(a \<mapsto> n1)"
  have "is_node Hd par x ll (Node lr a r)"
    using upd_a(2) m d frame_c(2) by (auto simp: is_node_def Hd_def Hc_def heap_simps)
  then obtain m1 where upd_x: "AVLNode_update x Hd = Some (Hd(x \<mapsto> m1))"
      "is_tree (Hd(x \<mapsto> m1)) par (Some x) (Node ll x (Node lr a r))"
    using AVLNode_update_node [of Hd par x ll "Node lr a r"] d size by auto
  have "AVLNode_rot_right a H = Some (Hd(x \<mapsto> m1), x)"
    using n m Hb(1) b d(1) upd_a(1) upd_x(1)
    by (simp add: AVLNode_rot_right_def Ha_def [symmetric] Hc_def [symmetric] Hd_def [symmetric]
        fun_upd_twist [of a x])
  moreover have "\<forall>b. b \<notin> set_tree (Node (Node ll x lr) a r) \<longrightarrow> (Hd(x \<mapsto> m1)) b = H b"
    using Hb(3) by (simp add: Hd_def Hc_def Ha_def)
  ultimately show ?thesis using upd_x(2) by blast
qed

lemma rot_left_tree:
  assumes node: "is_node H par a l (Node rl x rr)"
    and dist: "distinct (inorder (Node l a (Node rl x rr)))"
    and size: "small (size (Node l a (Node rl x rr)))"
  shows "\<exists>H'. AVLNode_rot_left a H = Some (H', x) \<and>
    is_tree H' par (Some x) (Node (Node l a rl) x rr) \<and>
    (\<forall>b. b \<notin> set_tree (Node l a (Node rl x rr)) \<longrightarrow> H' b = H b)"
proof -
  obtain n m where n: "H a = Some n" "parent n = par" "right n = Some x"
      "is_tree H (Some a) (left n) l"
    and m: "H x = Some m" "is_tree H (Some x) (left m) rl" "is_tree H (Some x) (right m) rr"
    using node by (auto simp: is_node_def)
  have d: "a \<noteq> x" "a \<notin> set_tree rl" "a \<notin> set_tree rr" "a \<notin> set_tree l" "x \<notin> set_tree rl"
      "x \<notin> set_tree rr" "x \<notin> set_tree l" "set_tree rl \<inter> set_tree rr = {}"
      "set_tree l \<inter> set_tree rl = {}" "distinct (inorder rl)"
    using dist by auto
  define Ha where "Ha = H(a \<mapsto> n\<lparr>right := left m\<rparr>)"
  have "is_tree Ha (Some x) (left m) rl" using m d by (simp add: Ha_def heap_simps)
  then obtain Hb where Hb: "set_parent (left m) (Some a) Ha = Some Hb"
      "is_tree Hb (Some a) (left m) rl" "\<And>b. b \<notin> set_tree rl \<Longrightarrow> Hb b = Ha b"
    using set_parent_tree [of Ha "Some x" "left m" rl "Some a"] d(10) by blast
  have b: "Hb x = Some m" "Hb a = Some (n\<lparr>right := left m\<rparr>)"
    using Hb(3) d m by (simp_all add: Ha_def)
  define Hc where "Hc = Hb(x \<mapsto> m\<lparr>parent := par, left := Some a\<rparr>,
    a \<mapsto> n\<lparr>right := left m, parent := Some x\<rparr>)"
  have "Hc b = H b" if b: "b \<in> set_tree l \<or> b \<in> set_tree rr" for b
  proof -
    have "b \<notin> set_tree rl" "b \<noteq> a" "b \<noteq> x" using b d by blast+
    then show ?thesis using Hb(3) by (simp add: Hc_def Ha_def)
  qed
  then have frame_c: "is_tree Hc p q l = is_tree H p q l" "is_tree Hc p q rr = is_tree H p q rr"
    for p q by (auto intro!: is_tree_frame)
  have node_a: "is_node Hc (Some x) a l rl"
    using n Hb(2) d by (auto simp: is_node_def Hc_def frame_c [unfolded Hc_def] heap_simps)
  then obtain n1 where upd_a: "AVLNode_update a Hc = Some (Hc(a \<mapsto> n1))"
      "is_tree (Hc(a \<mapsto> n1)) (Some x) (Some a) (Node l a rl)"
    using AVLNode_update_node [OF node_a] d size by auto
  define Hd where "Hd = Hc(a \<mapsto> n1)"
  have "is_node Hd par x (Node l a rl) rr"
    using upd_a(2) m d frame_c(2) by (auto simp: is_node_def Hd_def Hc_def heap_simps)
  then obtain m1 where upd_x: "AVLNode_update x Hd = Some (Hd(x \<mapsto> m1))"
      "is_tree (Hd(x \<mapsto> m1)) par (Some x) (Node (Node l a rl) x rr)"
    using AVLNode_update_node [of Hd par x "Node l a rl" rr] d size by auto
  have "AVLNode_rot_left a H = Some (Hd(x \<mapsto> m1), x)"
    using n m Hb(1) b d(1) upd_a(1) upd_x(1)
    by (simp add: AVLNode_rot_left_def Ha_def [symmetric] Hc_def [symmetric] Hd_def [symmetric]
        fun_upd_twist [of a x])
  moreover have "\<forall>b. b \<notin> set_tree (Node l a (Node rl x rr)) \<longrightarrow> (Hd(x \<mapsto> m1)) b = H b"
    using Hb(3) by (simp add: Hd_def Hc_def Ha_def)
  ultimately show ?thesis using upd_x(2) by blast
qed

subsection \<open>One step of the walk\<close>

lemma fix_left_tree:
  assumes node: "is_node H par a l r" and h: "height l = height r + 2"
    and dist: "distinct (inorder (Node l a r))" and size: "small (size (Node l a r))"
  shows "\<exists>H' x. AVLNode_fix_left a H = Some (H', x) \<and>
    is_tree H' par (Some x) (lift_left (Node l a r)) \<and>
    (\<forall>b. b \<notin> set_tree (Node l a r) \<longrightarrow> H' b = H b)"
proof -
  obtain ll x lr where l: "l = Node ll x lr" using h height_pos_Node [of l] by auto
  obtain n m where n: "H a = Some n" "parent n = par" "left n = Some x"
      "is_tree H (Some a) (right n) r" and sub: "is_tree H (Some a) (Some x) l"
    and m: "H x = Some m" "is_tree H (Some x) (left m) ll" "is_tree H (Some x) (right m) lr"
    using node l by (auto simp: is_node_def)
  have cmp: "((of_nat (height ll) :: u32) < of_nat (height lr)) = (height ll < height lr)"
    using size l height_bound [of ll] height_bound [of lr] by (intro of_nat_less_word) auto
  show ?thesis
  proof (cases "height ll < height lr")
    case False
    then have "AVLNode_fix_left a H = AVLNode_rot_right a H"
      using n m cmp by (simp add: AVLNode_fix_left_def AVLNode_h_tree)
    then show ?thesis
      using rot_right_tree [of H par a ll x lr r] node dist size False l by auto
  next
    case True
    then obtain b y c where lr: "lr = Node b y c" using height_pos_Node [of lr] by auto
    have "is_node H (Some a) x ll (Node b y c)" "distinct (inorder (Node ll x (Node b y c)))"
        "small (size (Node ll x (Node b y c)))"
      using is_tree_node [of H "Some a" "Some x" ll x lr] sub l lr dist size by auto
    from rot_left_tree [OF this] obtain H1 where H1: "AVLNode_rot_left x H = Some (H1, y)"
        "is_tree H1 (Some a) (Some y) (Node (Node ll x b) y c)"
        "\<And>b. b \<notin> set_tree l \<Longrightarrow> H1 b = H b"
      unfolding l lr by blast
    define H2 where "H2 = H1(a \<mapsto> n\<lparr>left := Some y\<rparr>)"
    have "H1 a = Some n" using H1(3) n(1) dist by simp
    then have eq: "AVLNode_fix_left a H = AVLNode_rot_right a H2"
      using n m cmp True H1(1) by (simp add: AVLNode_fix_left_def AVLNode_h_tree H2_def)
    have "H2 b = H b" if "b \<in> set_tree r" for b
    proof -
      have "b \<notin> set_tree l" "b \<noteq> a" using that dist by auto
      then show ?thesis using H1(3) by (simp add: H2_def)
    qed
    then have "is_tree H2 (Some a) (right n) r" using n(4) is_tree_frame by metis
    moreover have "a \<notin> set_tree (Node (Node ll x b) y c)" using dist l lr by auto
    ultimately have "is_node H2 par a (Node (Node ll x b) y c) r"
      using H1(2) n by (simp add: is_node_def H2_def is_tree_upd del: is_tree.simps)
    moreover have "distinct (inorder (Node (Node (Node ll x b) y c) a r))"
        "small (size (Node (Node (Node ll x b) y c) a r))"
      using dist size l lr by auto
    ultimately obtain H3 where H3: "AVLNode_rot_right a H2 = Some (H3, y)"
        "is_tree H3 par (Some y) (Node (Node ll x b) y (Node c a r))"
        "\<And>z. z \<notin> set_tree (Node (Node (Node ll x b) y c) a r) \<Longrightarrow> H3 z = H2 z"
      using rot_right_tree [of H2 par a "Node ll x b" y c r] by blast
    have "H3 z = H z" if "z \<notin> set_tree (Node l a r)" for z
      using that H3(3) [of z] H1(3) [of z] l lr by (simp add: H2_def)
    moreover have "lift_left (Node l a r) = Node (Node ll x b) y (Node c a r)"
      using True l lr by simp
    ultimately show ?thesis using eq H3(1,2) by auto
  qed
qed

lemma fix_right_tree:
  assumes node: "is_node H par a l r" and h: "height r = height l + 2"
    and dist: "distinct (inorder (Node l a r))" and size: "small (size (Node l a r))"
  shows "\<exists>H' x. AVLNode_fix_right a H = Some (H', x) \<and>
    is_tree H' par (Some x) (lift_right (Node l a r)) \<and>
    (\<forall>b. b \<notin> set_tree (Node l a r) \<longrightarrow> H' b = H b)"
proof -
  obtain rl x rr where r: "r = Node rl x rr" using h height_pos_Node [of r] by auto
  obtain n m where n: "H a = Some n" "parent n = par" "right n = Some x"
      "is_tree H (Some a) (left n) l" and sub: "is_tree H (Some a) (Some x) r"
    and m: "H x = Some m" "is_tree H (Some x) (left m) rl" "is_tree H (Some x) (right m) rr"
    using node r by (auto simp: is_node_def)
  have cmp: "((of_nat (height rr) :: u32) < of_nat (height rl)) = (height rr < height rl)"
    using size r height_bound [of rl] height_bound [of rr] by (intro of_nat_less_word) auto
  show ?thesis
  proof (cases "height rr < height rl")
    case False
    then have "AVLNode_fix_right a H = AVLNode_rot_left a H"
      using n m cmp by (simp add: AVLNode_fix_right_def AVLNode_h_tree)
    then show ?thesis
      using rot_left_tree [of H par a l rl x rr] node dist size False r by auto
  next
    case True
    then obtain b y c where rl: "rl = Node b y c" using height_pos_Node [of rl] by auto
    have "is_node H (Some a) x (Node b y c) rr" "distinct (inorder (Node (Node b y c) x rr))"
        "small (size (Node (Node b y c) x rr))"
      using is_tree_node [of H "Some a" "Some x" rl x rr] sub r rl dist size by auto
    from rot_right_tree [OF this] obtain H1 where H1: "AVLNode_rot_right x H = Some (H1, y)"
        "is_tree H1 (Some a) (Some y) (Node b y (Node c x rr))"
        "\<And>b. b \<notin> set_tree r \<Longrightarrow> H1 b = H b"
      unfolding r rl by blast
    define H2 where "H2 = H1(a \<mapsto> n\<lparr>right := Some y\<rparr>)"
    have "H1 a = Some n" using H1(3) n(1) dist by simp
    then have eq: "AVLNode_fix_right a H = AVLNode_rot_left a H2"
      using n m cmp True H1(1) by (simp add: AVLNode_fix_right_def AVLNode_h_tree H2_def)
    have "H2 b = H b" if "b \<in> set_tree l" for b
    proof -
      have "b \<notin> set_tree r" "b \<noteq> a" using that dist by auto
      then show ?thesis using H1(3) by (simp add: H2_def)
    qed
    then have "is_tree H2 (Some a) (left n) l" using n(4) is_tree_frame by metis
    moreover have "a \<notin> set_tree (Node b y (Node c x rr))" using dist r rl by auto
    ultimately have "is_node H2 par a l (Node b y (Node c x rr))"
      using H1(2) n by (simp add: is_node_def H2_def is_tree_upd del: is_tree.simps)
    moreover have "distinct (inorder (Node l a (Node b y (Node c x rr))))"
        "small (size (Node l a (Node b y (Node c x rr))))"
      using dist size r rl by auto
    ultimately obtain H3 where H3: "AVLNode_rot_left a H2 = Some (H3, y)"
        "is_tree H3 par (Some y) (Node (Node l a b) y (Node c x rr))"
        "\<And>z. z \<notin> set_tree (Node l a (Node b y (Node c x rr))) \<Longrightarrow> H3 z = H2 z"
      using rot_left_tree [of H2 par a l b y "Node c x rr"] by blast
    have "H3 z = H z" if "z \<notin> set_tree (Node l a r)" for z
      using that H3(3) [of z] H1(3) [of z] r rl by (simp add: H2_def)
    moreover have "lift_right (Node l a r) = Node (Node l a b) y (Node c x rr)"
      using True r rl by simp
    ultimately show ?thesis using eq H3(1,2) by auto
  qed
qed

text \<open>The link that holds a node is found from its parent.\<close>

lemma link_of_path:
  assumes "is_path H (Some a) par p" "a \<notin> set (before p) \<union> set (behind p)"
  shows "link_of a par H = Some (case p of [] \<Rightarrow> LocalVar
    | UpL b r # _ \<Rightarrow> LeftOf b | UpR l b # _ \<Rightarrow> RightOf b)"
proof (cases p)
  case Nil
  then show ?thesis using assms by (simp add: link_of_def)
next
  case (Cons s p')
  then show ?thesis
    using assms by (cases s) (auto simp: link_of_def dest!: is_tree_child_mem)
qed

text \<open>After the link is written, the place holds the new subtree.\<close>

lemma store_link_path:
  assumes "is_path H q par p" "distinct (before p @ behind p)"
  shows "\<exists>H'. store_link (case p of [] \<Rightarrow> LocalVar
    | UpL b r # _ \<Rightarrow> LeftOf b | UpR l b # _ \<Rightarrow> RightOf b) q' H = Some H' \<and>
    is_path H' q' par p \<and> (\<forall>b. b \<notin> set (before p) \<union> set (behind p) \<longrightarrow> H' b = H b) \<and>
    (\<forall>b n. H b = Some n \<longrightarrow> (\<exists>n'. H' b = Some n' \<and> sub_height n' = sub_height n \<and>
       sub_count n' = sub_count n))"
proof (cases p)
  case Nil
  then show ?thesis using assms by (auto simp: store_link_def)
next
  case (Cons s p')
  then show ?thesis
    using assms by (cases s) (auto simp: store_link_def heap_simps)
qed

subsection \<open>The walk to the root\<close>

lemma plus2_word_eq:
  assumes "m + 2 < 2 ^ 32" "k + 2 < 2 ^ 32"
  shows "((of_nat m :: u32) = of_nat k + 2) = (m = k + 2)"
proof -
  have "((of_nat m :: u32) = of_nat (k + 2)) = (m = k + 2)"
    using assms by (intro of_nat_eq_word) auto
  then show ?thesis by (simp only: of_nat_add of_nat_numeral)
qed

lemma two_apart_word:
  assumes "small (size (Node l a r :: addr tree))"
  shows "((of_nat (height l) :: u32) = of_nat (height r) + 2) = (height l = height r + 2)"
    and "((of_nat (height l) :: u32) + 2 = of_nat (height r)) = (height l + 2 = height r)"
proof -
  have h: "height l + 2 < 2 ^ 32" "height r + 2 < 2 ^ 32"
    using assms height_bound [of l] height_bound [of r] by auto
  show "((of_nat (height l) :: u32) = of_nat (height r) + 2) = (height l = height r + 2)"
    by (rule plus2_word_eq [OF h])
  show "((of_nat (height l) :: u32) + 2 = of_nat (height r)) = (height l + 2 = height r)"
    using plus2_word_eq [OF h(2,1)] by metis
qed

lemma fix_iteration:
  assumes node: "is_node H par a l r" and path: "is_path H (Some a) par p"
    and dist: "distinct (inorder (plug (Node l a r) p))"
    and size: "small (size (plug (Node l a r) p))"
  shows "\<exists>H' x. is_tree H' par (Some x) (rebalance (Node l a r)) \<and> is_path H' (Some x) par p \<and>
    (\<forall>b. b \<notin> set_tree (plug (Node l a r) p) \<longrightarrow> H' b = H b) \<and>
    AVLNode_fix a H = (case par of None \<Rightarrow> Some (H', x) | Some q \<Rightarrow> AVLNode_fix q H')"
proof -
  have d: "distinct (inorder (Node l a r))" "small (size (Node l a r))"
      "a \<notin> set (before p) \<union> set (behind p)" "distinct (before p @ behind p)"
      "set_tree (Node l a r) \<inter> (set (before p) \<union> set (behind p)) = {}"
    using dist size by auto
  define from_link where "from_link = (case p of [] \<Rightarrow> LocalVar
    | UpL b r # _ \<Rightarrow> LeftOf b | UpR l b # _ \<Rightarrow> RightOf b)"
  have link: "link_of a par H = Some from_link"
    using link_of_path [OF path d(3)] by (simp add: from_link_def)
  obtain n0 where n0: "H a = Some n0" "parent n0 = par" using node by (auto simp: is_node_def)
  have "a \<notin> set_tree l" "a \<notin> set_tree r" "small (size l)" "small (size r)" using d(1,2) by auto
  from AVLNode_update_node [OF node this] obtain n where
    upd: "AVLNode_update a H = Some (H(a \<mapsto> n))" "is_tree (H(a \<mapsto> n)) par (Some a) (Node l a r)"
    by blast
  define H1 where "H1 = H(a \<mapsto> n)"
  have path1: "is_path H1 (Some a) par p"
    using path d(3) by (simp add: H1_def heap_simps)
  have node1: "is_node H1 par a l r" using upd(2) is_tree_node H1_def by blast
  have hs: "AVLNode_h H1 (left n) = Some (of_nat (height l))"
      "AVLNode_h H1 (right n) = Some (of_nat (height r))"
    using upd(2) by (auto simp: H1_def intro: AVLNode_h_tree)
  have frame: "H1 b = H b" if "b \<noteq> a" for b using that by (simp add: H1_def)
  have unfold: "AVLNode_fix a H = do {
      (H, sub) \<leftarrow>
       (if height l = height r + 2
        then do { (H, s) \<leftarrow> AVLNode_fix_left a H1; H \<leftarrow> store_link from_link (Some s) H; Some (H, s) }
        else if height l + 2 = height r
        then do { (H, s) \<leftarrow> AVLNode_fix_right a H1; H \<leftarrow> store_link from_link (Some s) H; Some (H, s) }
        else Some (H1, a));
      (case par of None \<Rightarrow> Some (H, sub) | Some q \<Rightarrow> AVLNode_fix q H) }"
    using n0 link upd(1) hs two_apart_word [OF d(2)]
    by (subst AVLNode_fix.simps) (simp add: H1_def)
  have rotated: ?thesis
    if *: "AVLNode_fix a H = do {
        (H, s) \<leftarrow> Some (H2, x); H \<leftarrow> store_link from_link (Some s) H;
        (case par of None \<Rightarrow> Some (H, s) | Some q \<Rightarrow> AVLNode_fix q H) }"
      "is_tree H2 par (Some x) (rebalance (Node l a r))"
      "\<And>b. b \<notin> set_tree (Node l a r) \<Longrightarrow> H2 b = H1 b" for H2 x
  proof -
    have "H2 b = H1 b" if "b \<in> set (before p) \<union> set (behind p)" for b
      using that d(5) by (intro *(3)) auto
    then have "is_path H2 (Some a) par p" using path1 is_path_frame [of p H2 H1] by blast
    from store_link_path [OF this d(4), of "Some x"] obtain H3 where
      H3: "store_link from_link (Some x) H2 = Some H3" "is_path H3 (Some x) par p"
        "\<And>b. b \<notin> set (before p) \<union> set (behind p) \<Longrightarrow> H3 b = H2 b"
      unfolding from_link_def by blast
    have "H3 b = H2 b" if "b \<in> set_tree (rebalance (Node l a r))" for b
      using that d(5) by (intro H3(3)) auto
    then have "is_tree H3 par (Some x) (rebalance (Node l a r))"
      using *(2) is_tree_frame [of "rebalance (Node l a r)" H3 H2] by blast
    moreover have "H3 b = H b" if "b \<notin> set_tree (plug (Node l a r) p)" for b
      using that H3(3) [of b] *(3) [of b] frame [of b] by auto
    moreover have "AVLNode_fix a H = (case par of None \<Rightarrow> Some (H3, x) | Some q \<Rightarrow> AVLNode_fix q H3)"
      using *(1) H3(1) by simp
    ultimately show ?thesis using H3(2) by blast
  qed
  consider "height l = height r + 2" | "height l + 2 = height r"
    | "height l \<noteq> height r + 2" "height l + 2 \<noteq> height r" by blast
  then show ?thesis
  proof cases
    case 1
    from fix_left_tree [OF node1 1 d(1,2)] obtain H2 x where
      *: "AVLNode_fix_left a H1 = Some (H2, x)" "is_tree H2 par (Some x) (lift_left (Node l a r))"
        "\<And>b. b \<notin> set_tree (Node l a r) \<Longrightarrow> H2 b = H1 b" by blast
    show ?thesis by (rule rotated [of H2 x]) (use 1 * unfold in \<open>auto simp: rebalance.simps\<close>)
  next
    case 2
    then have h: "height r = height l + 2" by simp
    from fix_right_tree [OF node1 h d(1,2)] obtain H2 x where
      *: "AVLNode_fix_right a H1 = Some (H2, x)" "is_tree H2 par (Some x) (lift_right (Node l a r))"
        "\<And>b. b \<notin> set_tree (Node l a r) \<Longrightarrow> H2 b = H1 b" by blast
    show ?thesis by (rule rotated [of H2 x]) (use 2 * unfold in \<open>auto simp: rebalance.simps\<close>)
  next
    case 3
    then have "AVLNode_fix a H = (case par of None \<Rightarrow> Some (H1, a) | Some q \<Rightarrow> AVLNode_fix q H1)"
      using unfold by simp
    moreover have "\<forall>b. b \<notin> set_tree (plug (Node l a r) p) \<longrightarrow> H1 b = H b" using frame by auto
    moreover have "is_tree H1 par (Some a) (rebalance (Node l a r))"
      using 3 upd(2) by (simp add: H1_def rebalance.simps)
    ultimately show ?thesis using path1 by blast
  qed
qed

lemma fix_tree:
  assumes "is_node H par a l r" "is_path H (Some a) par p"
    "distinct (inorder (plug (Node l a r) p))" "small (size (plug (Node l a r) p))"
  shows "\<exists>H' root. AVLNode_fix a H = Some (H', root) \<and>
    is_tree H' None (Some root) (retrace (rebalance (Node l a r)) p) \<and>
    (\<forall>b. b \<notin> set_tree (plug (Node l a r) p) \<longrightarrow> H' b = H b)"
  using assms
proof (induction p arbitrary: H par a l r)
  case Nil
  from fix_iteration [OF Nil.prems] Nil.prems(2) show ?case by auto
next
  case (Cons s p)
  from fix_iteration [OF Cons.prems] obtain H1 x where
    *: "is_tree H1 par (Some x) (rebalance (Node l a r))" "is_path H1 (Some x) par (s # p)"
      "\<And>b. b \<notin> set_tree (plug (Node l a r) (s # p)) \<Longrightarrow> H1 b = H b"
      "AVLNode_fix a H = (case par of None \<Rightarrow> Some (H1, x) | Some q \<Rightarrow> AVLNode_fix q H1)" by blast
  define t where "t = rebalance (Node l a r)"
  note tree1 = *(1) [folded t_def]
  have t: "set_tree t = set_tree (Node l a r)" "size t = size (Node l a r)"
      "inorder t = inorder (Node l a r)"
    by (simp_all only: t_def set_rebalance size_rebalance inorder_rebalance)
  obtain b l' r' where s: "plug1 t s = Node l' b r'" "par = Some b"
    using *(2) by (cases s) auto
  obtain par' where np: "is_node H1 par' b l' r'" "is_path H1 (Some b) par' p"
    using tree1 *(2) s by (cases s) (auto simp: is_node_def)
  have in1: "inorder (plug (Node l' b r') p) = inorder (plug (Node l a r) (s # p))"
    unfolding s(1) [symmetric] using t(3) by (cases s) auto
  have "distinct (inorder (plug (Node l' b r') p))" "small (size (plug (Node l' b r') p))"
    using Cons.prems(3,4) in1 same_inorder_size [OF in1] by (simp_all only:)
  from Cons.IH [OF np this] obtain H2 root where
    **: "AVLNode_fix b H1 = Some (H2, root)"
      "is_tree H2 None (Some root) (retrace (rebalance (Node l' b r')) p)"
      "\<And>c. c \<notin> set_tree (plug (Node l' b r') p) \<Longrightarrow> H2 c = H1 c" by blast
  have "H2 c = H c" if c: "c \<notin> set_tree (plug (Node l a r) (s # p))" for c
  proof -
    have "c \<notin> set_tree (plug (Node l' b r') p)" using c same_inorder_set [OF in1] by metis
    then show ?thesis using **(3) *(3) [OF c] by metis
  qed
  then show ?case using * ** s by (auto simp: t_def [symmetric])
qed

end
