(* ===== verification/MRD_AvlDel.thy ===== *)
theory MRD_AvlDel
  imports MRD_AvlStore
begin

text \<open>
  Deletion from the AVL tree: unlinking a node with one child at most, the successor that takes
  the place of an inner node, and the refinement of \<open>AVLNode_del\<close> to the removal of the
  node from the inorder sequence.
\<close>

subsection \<open>Unlinking a node with one child at most\<close>

abbreviation link_at :: "addr step list \<Rightarrow> link" where
  "link_at p \<equiv> (case p of [] \<Rightarrow> LocalVar | UpL b r # _ \<Rightarrow> LeftOf b | UpR l b # _ \<Rightarrow> RightOf b)"

lemma del_easy_tree:
  assumes tree: "is_tree H None root (plug (Node l a r) p)"
    and dist: "distinct (inorder (plug (Node l a r) p))"
    and size: "small (size (plug (Node l a r) p))"
    and one: "l = Leaf \<or> r = Leaf"
  defines "c \<equiv> if l = Leaf then r else l"
  shows "\<exists>H' root'. AVLNode_del_easy a H = Some (H', root') \<and> is_tree H' None root' (retrace c p) \<and>
    (\<forall>b. b \<notin> set_tree (plug c p) \<longrightarrow> H' b = H b)"
proof -
  obtain q par where *: "is_tree H par q (Node l a r)" "is_path H q par p"
    using is_tree_plugD [OF tree] by blast
  then obtain n where n: "q = Some a" "H a = Some n" "parent n = par"
      "is_tree H (Some a) (left n) l" "is_tree H (Some a) (right n) r" by auto
  define child where "child = (if left n \<noteq> None then left n else right n)"
  have child: "is_tree H (Some a) child c" "left n = None \<or> right n = None"
    using n(4,5) one is_tree_root [OF n(4)] is_tree_root [OF n(5)] by (auto simp: child_def c_def)
  have d: "distinct (inorder c)" "a \<notin> set (before p) \<union> set (behind p)"
      "distinct (before p @ behind p)" "set_tree c \<inter> (set (before p) \<union> set (behind p)) = {}"
    using dist by (auto simp: c_def)
  obtain H1 where H1: "set_parent child par H = Some H1" "is_tree H1 par child c"
      "\<And>b. b \<notin> set_tree c \<Longrightarrow> H1 b = H b"
    using set_parent_tree [OF child(1) d(1)] by blast
  have path1: "is_path H1 (Some a) par p"
    using *(2) n(1) d(4) is_path_frame [of p H1 H] H1(3) by blast
  have unfold: "AVLNode_del_easy a H =
     (case par of None \<Rightarrow> Some (H1, child)
      | Some p \<Rightarrow> do {
          from \<leftarrow> link_of a par H1;
          H \<leftarrow> store_link from child H1;
          (H, r) \<leftarrow> AVLNode_fix p H;
          Some (H, Some r) })"
    using n(2,3) child(2) H1(1)
    by (cases "left n"; cases par) (simp_all add: AVLNode_del_easy_def child_def)
  show ?thesis
  proof (cases p)
    case Nil
    then have "AVLNode_del_easy a H = Some (H1, child)" "par = None"
      using unfold path1 by auto
    then show ?thesis using H1 Nil by auto
  next
    case (Cons s p')
    obtain H2 where H2: "store_link (link_at p) child H1 = Some H2" "is_path H2 child par p"
        "\<And>b. b \<notin> set (before p) \<union> set (behind p) \<Longrightarrow> H2 b = H1 b"
      using store_link_path [OF path1 d(3), of child] by blast
    have link: "link_of a par H1 = Some (link_at p)" by (rule link_of_path [OF path1 d(2)])
    have "is_tree H2 par child c"
      using H1(2) H2(3) d(4) is_tree_frame [of c H2 H1] by blast
    moreover obtain b l' r' where s: "plug1 c s = Node l' b r'" "par = Some b"
      using path1 Cons by (cases s) auto
    ultimately obtain par' where np: "is_node H2 par' b l' r'" "is_path H2 (Some b) par' p'"
      using H2(2) s Cons by (cases s) (auto simp: is_node_def)
    have in1: "inorder (plug (Node l' b r') p') = before p @ inorder c @ behind p"
      unfolding s(1) [symmetric] using Cons by (cases s) auto
    then have "distinct (inorder (plug (Node l' b r') p'))"
      using dist by (auto simp: c_def)
    moreover have "size (plug (Node l' b r') p') \<le> size (plug (Node l a r) p)"
      unfolding length_inorder [symmetric] in1 by (simp add: c_def)
    then have "small (size (plug (Node l' b r') p'))" using size by linarith
    ultimately obtain H3 root' where H3: "AVLNode_fix b H2 = Some (H3, root')"
        "is_tree H3 None (Some root') (retrace (rebalance (Node l' b r')) p')"
        "\<And>z. z \<notin> set_tree (plug (Node l' b r') p') \<Longrightarrow> H3 z = H2 z"
      using fix_tree [OF np] by blast
    have sets: "set_tree (plug (Node l' b r') p') = set_tree (plug c p)"
      using arg_cong [OF in1, of set] by (simp add: Un_assoc)
    have "AVLNode_del_easy a H = Some (H3, Some root')"
      using unfold H2(1) H3(1) link s(2) by simp
    moreover have "retrace c p = retrace (rebalance (Node l' b r')) p'"
      using Cons s by simp
    moreover have "H3 z = H z" if z: "z \<notin> set_tree (plug c p)" for z
    proof -
      have "z \<notin> set (before p) \<union> set (behind p)" "z \<notin> set_tree c" using z by auto
      moreover have "z \<notin> set_tree (plug (Node l' b r') p')" using z sets by metis
      ultimately show ?thesis using H3(3) H2(3) H1(3) by metis
    qed
    ultimately show ?thesis using H3(2) by auto
  qed
qed

lemma del_easy_avl:
  assumes "avl (plug (Node l a r) p)" "l = Leaf \<or> r = Leaf"
  shows "avl (retrace (if l = Leaf then r else l) p)"
  using avl_retrace [OF assms(1), of "if l = Leaf then r else l"] avl_plugD [OF assms(1)] assms(2)
  by auto

subsection \<open>The leftmost and rightmost nodes\<close>

lemma leftmost_tree:
  "is_tree H par (Some v) t \<Longrightarrow>
   \<exists>m rm q. t = plug (Node Leaf m rm) q \<and> before q = [] \<and> leftmost H v = Some m"
proof (induction t arbitrary: par v)
  case Leaf
  then show ?case by simp
next
  case (Node l a r)
  then obtain n where n: "v = a" "H a = Some n" "is_tree H (Some a) (left n) l" by auto
  show ?case
  proof (cases "left n")
    case None
    then have "leftmost H v = Some a" using n by (subst leftmost.simps) simp
    moreover have "l = Leaf" using None n is_tree_root by auto
    ultimately show ?thesis by (intro exI [of _ a] exI [of _ r] exI [of _ "[]"]) simp
  next
    case (Some w)
    then obtain m rm q where IH: "l = plug (Node Leaf m rm) q" "before q = []"
        "leftmost H w = Some m"
      using Node.IH(1) [of "Some a" w] n by auto
    moreover have "leftmost H v = leftmost H w" using n Some by (subst leftmost.simps) simp
    moreover have "before (q @ [UpL a r]) = []" using IH(2) by simp
    ultimately show ?thesis
      by (intro exI [of _ m] exI [of _ rm] exI [of _ "q @ [UpL a r]"]) (simp add: plug_append)
  qed
qed

lemma rightmost_tree:
  "is_tree H par (Some v) t \<Longrightarrow>
   \<exists>m lm q. t = plug (Node lm m Leaf) q \<and> behind q = [] \<and> rightmost H v = Some m"
proof (induction t arbitrary: par v)
  case Leaf
  then show ?case by simp
next
  case (Node l a r)
  then obtain n where n: "v = a" "H a = Some n" "is_tree H (Some a) (right n) r" by auto
  show ?case
  proof (cases "right n")
    case None
    then have "rightmost H v = Some a" using n by (subst rightmost.simps) simp
    moreover have "r = Leaf" using None n is_tree_root by auto
    ultimately show ?thesis by (intro exI [of _ a] exI [of _ l] exI [of _ "[]"]) simp
  next
    case (Some w)
    then obtain m lm q where IH: "r = plug (Node lm m Leaf) q" "behind q = []"
        "rightmost H w = Some m"
      using Node.IH(2) [of "Some a" w] n by auto
    moreover have "rightmost H v = rightmost H w" using n Some by (subst rightmost.simps) simp
    moreover have "behind (q @ [UpR l a]) = []" using IH(2) by simp
    ultimately show ?thesis
      by (intro exI [of _ m] exI [of _ lm] exI [of _ "q @ [UpR l a]"]) (simp add: plug_append)
  qed
qed

subsection \<open>Putting one node in the place of another\<close>

lemma path_cached_upd:
  assumes "path_cached H t p" "height t' = height t" "size t' = size t"
    "\<And>b n. H b = Some n \<Longrightarrow> b \<in> set (before p) \<union> set (behind p) \<Longrightarrow>
      \<exists>n'. H' b = Some n' \<and> sub_height n' = sub_height n \<and> sub_count n' = sub_count n"
  shows "path_cached H' t' p"
  using assms
proof (induction p arbitrary: t t')
  case Nil
  then show ?case by simp
next
  case (Cons s p)
  define b where "b = (case s of UpL a r \<Rightarrow> a | UpR l a \<Rightarrow> a)"
  have b: "b \<in> set (before (s # p)) \<union> set (behind (s # p))"
    "set (before p) \<union> set (behind p) \<subseteq> set (before (s # p)) \<union> set (behind (s # p))"
    by (auto simp: b_def split: step.splits) (cases s; auto)+
  have eq: "height (plug1 t' s) = height (plug1 t s)" "size (plug1 t' s) = size (plug1 t s)"
    using Cons.prems by (cases s; simp)+
  obtain n where n: "H b = Some n" "sub_height n = of_nat (height (plug1 t s))"
      "sub_count n = of_nat (size (plug1 t s))" "path_cached H (plug1 t s) p"
    using Cons.prems(1) by (auto simp: b_def)
  have "path_cached H' (plug1 t' s) p"
    using Cons.IH [OF n(4) eq] Cons.prems(4) b(2) by blast
  then show ?case using Cons.prems(4) [OF n(1) b(1)] n eq by (simp add: b_def [symmetric])
qed


lemma replace_node_tree:
  assumes tree: "is_tree H None root (plug (Node l a r) p)"
    and dist: "distinct (inorder (plug (Node l a r) p))"
    and fresh: "v \<notin> set_tree (plug (Node l a r) p)" "H v = Some w"
    and body: "F = do {
        n \<leftarrow> H a;
        H \<leftarrow> upd_at v (\<lambda>_. n) H;
        v' \<leftarrow> H v;
        H \<leftarrow> set_parent (left v') (Some v) H;
        v' \<leftarrow> H v;
        H \<leftarrow> set_parent (right v') (Some v) H;
        n \<leftarrow> H a;
        from \<leftarrow> link_of a (parent n) H;
        H \<leftarrow> store_link from (Some v) H;
        Some (H, if from = LocalVar then Some v else root) }"
  shows "\<exists>H' root'. F = Some (H', root') \<and> is_tree H' None root' (plug (Node l v r) p) \<and>
    (\<forall>b. b \<notin> set_tree (plug (Node l v r) p) \<longrightarrow> H' b = H b)"
proof -
  obtain q par where *: "is_tree H par q (Node l a r)" "is_path H q par p"
      "path_cached H (Node l a r) p" "p = [] \<longrightarrow> q = root"
    using is_tree_plug_split [OF tree] by blast
  then obtain n where n: "q = Some a" "H a = Some n" "parent n = par"
      "is_tree H (Some a) (left n) l" "is_tree H (Some a) (right n) r"
      "sub_height n = of_nat (height (Node l a r))" "sub_count n = of_nat (size (Node l a r))"
    by auto
  have d: "distinct (inorder l)" "distinct (inorder r)" "set_tree l \<inter> set_tree r = {}"
      "a \<notin> set_tree l" "a \<notin> set_tree r" "a \<notin> set (before p) \<union> set (behind p)"
      "distinct (before p @ behind p)"
      "(set_tree l \<union> set_tree r) \<inter> (set (before p) \<union> set (behind p)) = {}"
      "v \<noteq> a" "v \<notin> set_tree l" "v \<notin> set_tree r" "v \<notin> set (before p) \<union> set (behind p)"
    using dist fresh(1) by auto
  define H1 where "H1 = H(v \<mapsto> n)"
  have t1: "is_tree H1 (Some a) (left n) l" "is_tree H1 (Some a) (right n) r"
    using n d by (simp_all add: H1_def heap_simps)
  obtain H2 where H2: "set_parent (left n) (Some v) H1 = Some H2" "is_tree H2 (Some v) (left n) l"
      "\<And>b. b \<notin> set_tree l \<Longrightarrow> H2 b = H1 b"
    using set_parent_tree [OF t1(1) d(1)] by blast
  have "is_tree H2 (Some a) (right n) r"
    using t1(2) H2(3) d(3) is_tree_frame [of r H2 H1] by blast
  then obtain H3 where H3: "set_parent (right n) (Some v) H2 = Some H3"
      "is_tree H3 (Some v) (right n) r" "\<And>b. b \<notin> set_tree r \<Longrightarrow> H3 b = H2 b"
    using set_parent_tree d(2) by blast
  have H3_else: "H3 b = H1 b" if "b \<notin> set_tree l" "b \<notin> set_tree r" for b
    using that H2(3) H3(3) by simp
  have l3: "is_tree H3 (Some v) (left n) l"
    using H2(2) H3(3) d(3) is_tree_frame [of l H3 H2] by blast
  have at: "H2 v = Some n" "H3 v = Some n" "H3 a = Some n"
    using H2(3) H3_else d n(2) by (simp_all add: H1_def)
  have out: "H3 b = H b" if "b \<in> set (before p) \<union> set (behind p)" for b
  proof -
    have "b \<notin> set_tree l" "b \<notin> set_tree r" "b \<noteq> v" using that d(8,12) by blast+
    then show ?thesis using H3_else by (simp add: H1_def)
  qed
  have path3: "is_path H3 (Some a) par p"
    using *(2) n(1) out is_path_frame [of p H3 H] by blast
  obtain H4 where H4: "store_link (link_at p) (Some v) H3 = Some H4" "is_path H4 (Some v) par p"
      "\<And>b. b \<notin> set (before p) \<union> set (behind p) \<Longrightarrow> H4 b = H3 b"
      "\<And>b n. H3 b = Some n \<Longrightarrow> \<exists>n'. H4 b = Some n' \<and> sub_height n' = sub_height n \<and>
        sub_count n' = sub_count n"
    using store_link_path [OF path3 d(7), of "Some v"] by blast
  have link: "link_of a par H3 = Some (link_at p)" by (rule link_of_path [OF path3 d(6)])
  have F: "F = Some (H4, if link_at p = LocalVar then Some v else root)"
    unfolding body using n(2,3) fresh(2) H2(1) H3(1) at link H4(1) by (simp add: H1_def)
  have "H4 b = H3 b" if "b \<in> set_tree l \<union> set_tree r" for b
    using that d(8) H4(3) by blast
  then have "is_tree H4 (Some v) (left n) l" "is_tree H4 (Some v) (right n) r" "H4 v = Some n"
    using l3 H3(2) at H4(3) [OF d(12)] is_tree_frame [of l H4 H3] is_tree_frame [of r H4 H3]
    by auto
  then have sub: "is_tree H4 par (Some v) (Node l v r)" using n by simp
  have "path_cached H4 (Node l v r) p"
    by (rule path_cached_upd [OF *(3)]) (use H4(4) out in auto)
  from is_tree_plug_join [OF sub H4(2) this] obtain root' where
    root': "is_tree H4 None root' (plug (Node l v r) p)" "p = [] \<longrightarrow> root' = Some v" by blast
  have "root' = (if link_at p = LocalVar then Some v else root)"
  proof (cases p)
    case Nil
    then show ?thesis using root'(2) by simp
  next
    case (Cons s p')
    then have "root' = root"
      using root'(1) tree plug_root_same [of p "Node l v r" "Node l a r"] by auto
    then show ?thesis using Cons by (auto split: step.splits)
  qed
  moreover have "H4 b = H b" if b: "b \<notin> set_tree (plug (Node l v r) p)" for b
  proof -
    have "b \<notin> set (before p) \<union> set (behind p)" "b \<notin> set_tree l" "b \<notin> set_tree r" "b \<noteq> v"
      using b by auto
    then show ?thesis using H4(3) [of b] H3_else [of b] by (simp add: H1_def)
  qed
  ultimately show ?thesis using F root'(1) by auto
qed


subsection \<open>Deletion\<close>

text \<open>An inner node: its successor is unlinked and takes its place.\<close>

lemma del_inner_tree:
  assumes tree: "is_tree H None root (plug (Node l a r) p)"
    and dist: "distinct (inorder (plug (Node l a r) p))"
    and size: "small (size (plug (Node l a r) p))" and two: "l \<noteq> Leaf" "r \<noteq> Leaf"
  shows "\<exists>H' root' t'. AVLNode_del a H = Some (H', root') \<and> is_tree H' None root' t' \<and>
    inorder t' = before p @ inorder l @ inorder r @ behind p \<and>
    (avl (plug (Node l a r) p) \<longrightarrow> avl t') \<and> H' a \<noteq> None \<and>
    (\<forall>b. b \<notin> set_tree (plug (Node l a r) p) \<longrightarrow> H' b = H b)"
proof -
  let ?t = "plug (Node l a r) p"
  obtain q par where "is_tree H par q (Node l a r)" using is_tree_plugD [OF tree] by blast
  then obtain n where n: "H a = Some n" "is_tree H (Some a) (left n) l"
      "is_tree H (Some a) (right n) r" by auto
  obtain w where w: "right n = Some w" "left n \<noteq> None"
    using is_tree_root [OF n(2)] is_tree_root [OF n(3)] two by auto
  obtain v rv qv where r: "r = plug (Node Leaf v rv) qv" "before qv = []" "leftmost H w = Some v"
    using leftmost_tree n(3) w(1) by metis
  define ps where "ps = qv @ UpR l a # p"
  have t: "?t = plug (Node Leaf v rv) ps" using r(1) by (simp add: ps_def plug_append)
  obtain H1 root1 where D: "AVLNode_del_easy v H = Some (H1, root1)"
      "is_tree H1 None root1 (retrace rv ps)" "\<And>b. b \<notin> set_tree (plug rv ps) \<Longrightarrow> H1 b = H b"
    using del_easy_tree [of H root Leaf v rv ps] tree dist size unfolding t by auto
  have mem: "a \<in> set_tree (retrace rv ps)" by (simp add: ps_def)
  from find_context [OF this] obtain l1 r1 p1 where T1: "retrace rv ps = plug (Node l1 a r1) p1"
    by (elim exE)
  have in1: "before p1 @ inorder l1 @ a # inorder r1 @ behind p1 =
      before p @ inorder l @ a # inorder rv @ behind qv @ behind p"
    using arg_cong [OF T1, of inorder] r(2) by (simp add: ps_def)
  have in_t: "inorder ?t = before p @ inorder l @ a # v # inorder rv @ behind qv @ behind p"
    using r(1,2) by simp
  have dist1: "distinct (inorder (plug (Node l1 a r1) p1))"
    using dist unfolding in_t by (simp add: in1 del: distinct_append) auto
  have v: "v \<notin> set_tree (plug (Node l1 a r1) p1)"
    using dist arg_cong [OF in1, of set] unfolding in_t by auto
  have "H1 v = H v" using D(3) [of v] v T1 set_retrace [of rv ps] by (metis set_plug)
  then obtain hv where hv: "H1 v = Some hv"
    using is_tree_in_dom [OF tree, of v] t by auto
  have eq: "AVLNode_del a H = do {
      n \<leftarrow> H1 a;
      H \<leftarrow> upd_at v (\<lambda>_. n) H1;
      v' \<leftarrow> H v;
      H \<leftarrow> set_parent (left v') (Some v) H;
      v' \<leftarrow> H v;
      H \<leftarrow> set_parent (right v') (Some v) H;
      n \<leftarrow> H a;
      from \<leftarrow> link_of a (parent n) H;
      H \<leftarrow> store_link from (Some v) H;
      Some (H, if from = LocalVar then Some v else root1) }"
    using n(1) w r(3) D(1) by (auto simp: AVLNode_del_def)
  obtain H' root' where R: "AVLNode_del a H = Some (H', root')"
      "is_tree H' None root' (plug (Node l1 v r1) p1)"
      "\<And>b. b \<notin> set_tree (plug (Node l1 v r1) p1) \<Longrightarrow> H' b = H1 b"
    using replace_node_tree [OF D(2) [unfolded T1] dist1 v hv eq] by blast
  have "a \<notin> set (before p1 @ inorder l1)" "a \<notin> set (inorder r1 @ behind p1)"
    using dist1 by auto
  from append_Cons_eq_iff [OF this, of "before p @ inorder l" "inorder rv @ behind qv @ behind p"]
  have parts: "before p1 @ inorder l1 = before p @ inorder l"
      "inorder r1 @ behind p1 = inorder rv @ behind qv @ behind p"
    using in1 by simp_all
  then have in2: "inorder (plug (Node l1 v r1) p1) = before p @ inorder l @ inorder r @ behind p"
    using r(1,2) by simp
  have "avl ?t \<longrightarrow> avl (plug (Node l1 v r1) p1)"
    using del_easy_avl [of Leaf v rv ps] avl_plug_cong [of "Node l1 v r1" "Node l1 a r1" p1]
    unfolding t by (simp add: T1)
  moreover have "H' a \<noteq> None"
    using R(3) [of a] dist1 v is_tree_in_dom [OF D(2) mem] by auto
  moreover have "H' b = H b" if b: "b \<notin> set_tree ?t" for b
  proof -
    have "b \<notin> set_tree (plug (Node l1 v r1) p1)" "b \<notin> set_tree (plug rv ps)"
      using b arg_cong [OF in2, of set] unfolding t by (auto simp: ps_def r(1))
    then show ?thesis using R(3) D(3) by metis
  qed
  ultimately show ?thesis using R(1,2) in2 by blast
qed

text \<open>
  Deletion returns, the store represents the tree without the node, the order of the other
  nodes is kept, and balance is restored.
\<close>

lemma AVLNode_del_tree:
  assumes tree: "is_tree H None root t" and dist: "distinct (inorder t)"
    and size: "small (size t)" and mem: "a \<in> set_tree t"
  shows "\<exists>H' root' t'. AVLNode_del a H = Some (H', root') \<and> is_tree H' None root' t' \<and>
    inorder t' = remove1 a (inorder t) \<and> (avl t \<longrightarrow> avl t') \<and> H' a \<noteq> None \<and>
    (\<forall>b. b \<notin> set_tree t \<longrightarrow> H' b = H b)"
proof -
  obtain l r p where t: "t = plug (Node l a r) p" using find_context [OF mem] by blast
  have a: "a \<notin> set (before p)" "a \<notin> set_tree l" "a \<notin> set_tree r" "a \<notin> set (behind p)"
    using dist t by auto
  have rem: "remove1 a (inorder t) = before p @ inorder l @ inorder r @ behind p"
    using t a by (simp add: remove1_append)
  show ?thesis
  proof (cases "l = Leaf \<or> r = Leaf")
    case True
    define c where "c = (if l = Leaf then r else l)"
    obtain H' root' where D: "AVLNode_del_easy a H = Some (H', root')"
        "is_tree H' None root' (retrace c p)" "\<And>b. b \<notin> set_tree (plug c p) \<Longrightarrow> H' b = H b"
      using del_easy_tree [of H root l a r p] tree dist size True unfolding t c_def by blast
    obtain q par where "is_tree H par q (Node l a r)" using is_tree_plugD tree t by blast
    then obtain n where n: "H a = Some n" "is_tree H (Some a) (left n) l"
        "is_tree H (Some a) (right n) r" by auto
    then have "AVLNode_del a H = AVLNode_del_easy a H"
      using True is_tree_root by (auto simp: AVLNode_del_def)
    moreover have "inorder (retrace c p) = remove1 a (inorder t)"
      using rem True by (auto simp: c_def)
    moreover have "avl t \<longrightarrow> avl (retrace c p)"
      using del_easy_avl [of l a r p] True t by (simp add: c_def)
    moreover have "H' a \<noteq> None" using D(3) [of a] a n(1) by (simp add: c_def)
    moreover have "H' b = H b" if "b \<notin> set_tree t" for b
      using that t by (intro D(3)) (auto simp: c_def)
    ultimately show ?thesis using D by auto
  next
    case False
    then show ?thesis
      using del_inner_tree [of H root l a r p] tree dist size rem unfolding t by metis
  qed
qed

end
