(* ===== verification/MRD_AvlNav.thy ===== *)
theory MRD_AvlNav
  imports MRD_AvlDel
begin

text \<open>
  Insertion of a leaf and navigation in the AVL tree: successor and predecessor, signed offsets
  along the inorder sequence, and the rank the code computes.
\<close>

subsection \<open>Linking a new leaf\<close>

fun path_parent :: "'a step list \<Rightarrow> 'a option" where
  "path_parent [] = None"
| "path_parent (UpL b r # p) = Some b"
| "path_parent (UpR l b # p) = Some b"

lemma is_path_parent: "is_path H q par p \<Longrightarrow> par = path_parent p"
  by (cases p rule: path_parent.cases) auto

lemma insert_leaf_tree:
  assumes tree: "is_tree H None root (plug Leaf p)" and dist: "distinct (inorder (plug Leaf p))"
    and size: "small (Suc (size (plug Leaf p)))"
    and new: "H a = Some AVLNode_init" "a \<notin> set_tree (plug Leaf p)"
  shows "\<exists>H' root'. do {
      H \<leftarrow> store_link (link_at p) (Some a) H;
      H \<leftarrow> upd_at a (\<lambda>n. n\<lparr>parent := path_parent p\<rparr>) H;
      AVLNode_fix a H } = Some (H', root') \<and>
    is_tree H' None (Some root') (retrace (Node Leaf a Leaf) p) \<and>
    (\<forall>b. b \<noteq> a \<longrightarrow> b \<notin> set_tree (plug Leaf p) \<longrightarrow> H' b = H b)"
proof -
  obtain q par where *: "is_tree H par q Leaf" "is_path H q par p"
    using is_tree_plugD [OF tree] by blast
  have par: "par = path_parent p" using is_path_parent *(2) by blast
  have d: "distinct (before p @ behind p)" "a \<notin> set (before p) \<union> set (behind p)"
    using dist new(2) by auto
  obtain H1 where H1: "store_link (link_at p) (Some a) H = Some H1" "is_path H1 (Some a) par p"
      "\<And>b. b \<notin> set (before p) \<union> set (behind p) \<Longrightarrow> H1 b = H b"
    using store_link_path [OF *(2) d(1), of "Some a"] by blast
  have at: "H1 a = Some AVLNode_init" using H1(3) [OF d(2)] new(1) by simp
  define H2 where "H2 = H1(a \<mapsto> AVLNode_init\<lparr>parent := par\<rparr>)"
  have "is_node H2 par a Leaf Leaf" by (simp add: is_node_def H2_def AVLNode_init_def)
  moreover have "is_path H2 (Some a) par p" using H1(2) d(2) by (simp add: H2_def heap_simps)
  moreover have "distinct (inorder (plug (Node Leaf a Leaf) p))"
      "small (size (plug (Node Leaf a Leaf) p))" using dist size new(2) by auto
  ultimately obtain H3 root' where H3: "AVLNode_fix a H2 = Some (H3, root')"
      "is_tree H3 None (Some root') (retrace (rebalance (Node Leaf a Leaf)) p)"
      "\<And>b. b \<notin> set_tree (plug (Node Leaf a Leaf) p) \<Longrightarrow> H3 b = H2 b"
    using fix_tree by blast
  have "H3 b = H b" if "b \<noteq> a" "b \<notin> set_tree (plug Leaf p)" for b
    using that H3(3) [of b] H1(3) [of b] by (simp add: H2_def)
  then show ?thesis
    using H3(1,2) H1(1) at par by (simp add: H2_def rebalance.simps)
qed

lemma insert_leaf_avl: "avl (plug Leaf p) \<Longrightarrow> avl (retrace (Node Leaf a Leaf) p)"
  by (rule avl_retrace [of Leaf]) auto

subsection \<open>Navigation\<close>

lemma climb_right_path:
  assumes "is_path H (Some a) par p" "H a = Some n" "parent n = par"
    "distinct (before p @ behind p)" "a \<notin> set (before p) \<union> set (behind p)"
  shows "climb_right H a = Some (case behind p of [] \<Rightarrow> None | b # _ \<Rightarrow> Some b)"
  using assms
proof (induction p arbitrary: a par n)
  case Nil
  then show ?case by (subst climb_right.simps) simp
next
  case (Cons s p)
  show ?case
  proof (cases s)
    case (UpL b r)
    then show ?thesis using Cons.prems by (subst climb_right.simps) auto
  next
    case (UpR l b)
    then obtain m where m: "H b = Some m" "right m = Some a" "is_tree H (Some b) (left m) l"
        "is_path H (Some b) (parent m) p" "par = Some b"
      using Cons.prems by auto
    have "left m \<noteq> Some a" using m(3) is_tree_child_mem Cons.prems(5) UpR by auto
    then have "climb_right H a = climb_right H b"
      using m Cons.prems by (subst climb_right.simps) auto
    then show ?thesis using Cons.IH [OF m(4,1)] Cons.prems UpR by auto
  qed
qed

lemma climb_left_path:
  assumes "is_path H (Some a) par p" "H a = Some n" "parent n = par"
    "distinct (before p @ behind p)" "a \<notin> set (before p) \<union> set (behind p)"
  shows "climb_left H a = Some (if before p = [] then None else Some (last (before p)))"
  using assms
proof (induction p arbitrary: a par n)
  case Nil
  then show ?case by (subst climb_left.simps) simp
next
  case (Cons s p)
  show ?case
  proof (cases s)
    case (UpR l b)
    then show ?thesis using Cons.prems by (subst climb_left.simps) auto
  next
    case (UpL b r)
    then obtain m where m: "H b = Some m" "left m = Some a" "is_tree H (Some b) (right m) r"
        "is_path H (Some b) (parent m) p" "par = Some b"
      using Cons.prems by auto
    have "right m \<noteq> Some a" using m(3) is_tree_child_mem Cons.prems(5) UpL by auto
    then have "climb_left H a = climb_left H b"
      using m Cons.prems by (subst climb_left.simps) auto
    then show ?thesis using Cons.IH [OF m(4,1)] Cons.prems UpL by (auto simp: Int_Un_distrib)
  qed
qed

lemma successor_path:
  assumes "is_tree H par (Some a) (Node l a r)" "is_path H (Some a) par p"
    "distinct (inorder (plug (Node l a r) p))"
  shows "AVLNode_successor H a = Some (case inorder r @ behind p of [] \<Rightarrow> None | b # _ \<Rightarrow> Some b)"
proof -
  obtain n where n: "H a = Some n" "parent n = par" "is_tree H (Some a) (right n) r"
    using assms(1) by auto
  show ?thesis
  proof (cases "right n")
    case None
    then have "r = Leaf" using n(3) is_tree_root by auto
    then show ?thesis using None n climb_right_path [OF assms(2) n(1,2)] assms(3)
      by (auto simp: AVLNode_successor_def)
  next
    case (Some w)
    then obtain m rm q where "r = plug (Node Leaf m rm) q" "before q = []" "leftmost H w = Some m"
      using leftmost_tree n(3) by metis
    then show ?thesis using Some n by (auto simp: AVLNode_successor_def)
  qed
qed

lemma predscessor_path:
  assumes "is_tree H par (Some a) (Node l a r)" "is_path H (Some a) par p"
    "distinct (inorder (plug (Node l a r) p))"
  shows "AVLNode_predscessor H a =
    Some (if before p @ inorder l = [] then None else Some (last (before p @ inorder l)))"
proof -
  obtain n where n: "H a = Some n" "parent n = par" "is_tree H (Some a) (left n) l"
    using assms(1) by auto
  show ?thesis
  proof (cases "left n")
    case None
    then have "l = Leaf" using n(3) is_tree_root by auto
    then show ?thesis using None n climb_left_path [OF assms(2) n(1,2)] assms(3)
      by (auto simp: AVLNode_predscessor_def Int_Un_distrib)
  next
    case (Some w)
    then obtain m lm q where "l = plug (Node lm m Leaf) q" "behind q = []" "rightmost H w = Some m"
      using rightmost_tree n(3) by metis
    then show ?thesis using Some n by (auto simp: AVLNode_predscessor_def)
  qed
qed

subsection \<open>Offsets\<close>

lemma uint_small:
  "k + 1 < 2 ^ 32 \<Longrightarrow> uint (of_nat k + 1 :: u32) = int k + 1"
  "k + 1 < 2 ^ 32 \<Longrightarrow> uint (of_nat k :: u32) = int k"
proof -
  have *: "k < 2 ^ 32 \<Longrightarrow> uint (of_nat k :: u32) = int k" for k
    by (simp add: uint_nat unat_of_nat_small)
  show "k + 1 < 2 ^ 32 \<Longrightarrow> uint (of_nat k + 1 :: u32) = int k + 1"
    using * [of "k + 1"] by (simp add: add.commute)
  show "k + 1 < 2 ^ 32 \<Longrightarrow> uint (of_nat k :: u32) = int k"
    using * [of k] by simp
qed

lemma offset_down:
  assumes "is_tree H par (Some a) (Node l a r)" "small (size (Node l a r))"
    "- int (size l) \<le> off - pos" "off - pos \<le> int (size r)"
  shows "offset_loop H a pos off =
    Some (Some (inorder (Node l a r) ! nat (int (size l) + (off - pos))))"
  using assms
proof (induction "Node l a r" arbitrary: l a r par pos)
  case (Node l a r)
  then obtain n where n: "H a = Some n" "is_tree H (Some a) (left n) l"
      "is_tree H (Some a) (right n) r" by auto
  have sz: "size l + 1 < 2 ^ 32" "size r + 1 < 2 ^ 32" using Node.prems(2) by auto
  note cnts = AVLNode_cnt_tree [OF n(2)] AVLNode_cnt_tree [OF n(3)]
  consider "off = pos" | "pos < off" | "off < pos" by linarith
  then show ?case
  proof cases
    case 1
    then show ?thesis by (subst offset_loop.simps) (simp add: nth_append)
  next
    case 2
    then obtain rl b rr where r: "r = Node rl b rr" using Node.prems(4) by (cases r) auto
    then obtain m where m: "right n = Some b" "H b = Some m" "is_tree H (Some b) (left m) rl"
      using n(3) by auto
    have szr: "size rl + 1 < 2 ^ 32" "small (size r)" using Node.prems(2) r by auto
    have "offset_loop H a pos off = offset_loop H b (pos + (int (size rl) + 1)) off"
      using 2 n cnts m AVLNode_cnt_tree [OF m(3)] Node.prems(4) uint_small [OF sz(2)]
        uint_small [OF szr(1)]
      by (subst offset_loop.simps) simp
    also have "\<dots> = Some (Some (inorder r !
        nat (int (size rl) + (off - (pos + (int (size rl) + 1))))))"
      using Node.hyps(2) [OF r, of "Some a" "pos + (int (size rl) + 1)"] n(3) m(1) r szr(2)
        Node.prems(3,4) 2 by simp
    also have "nat (int (size rl) + (off - (pos + (int (size rl) + 1)))) = nat (off - pos) - 1"
      by simp
    finally show ?thesis using 2 by (simp add: nth_append nat_diff_distrib nat_add_distrib)
  next
    case 3
    then obtain ll b lr where l: "l = Node ll b lr" using Node.prems(3) by (cases l) auto
    then obtain m where m: "left n = Some b" "H b = Some m" "is_tree H (Some b) (right m) lr"
      using n(2) by auto
    have szl: "size lr + 1 < 2 ^ 32" "small (size l)" using Node.prems(2) l by auto
    have "offset_loop H a pos off = offset_loop H b (pos - (int (size lr) + 1)) off"
      using 3 n cnts m AVLNode_cnt_tree [OF m(3)] Node.prems(3) uint_small [OF sz(1)]
        uint_small [OF szl(1)]
      by (subst offset_loop.simps) simp
    also have "\<dots> = Some (Some (inorder l !
        nat (int (size ll) + (off - (pos - (int (size lr) + 1))))))"
      using Node.hyps(1) [OF l, of "Some a" "pos - (int (size lr) + 1)"] n(2) m(1) l szl(2)
        Node.prems(3,4) 3 by simp
    also have "nat (int (size ll) + (off - (pos - (int (size lr) + 1)))) =
        nat (int (size l) + (off - pos))" using l by simp
    finally show ?thesis using 3 Node.prems(3) by (simp add: nth_append nat_less_iff)
  qed
qed


text \<open>
  The loop moves to the node at distance \<open>off - pos\<close> in the order, or returns null when there
  is none.
\<close>

lemma offset_loop_tree:
  assumes "is_tree H par (Some a) (Node l a r)" "is_path H (Some a) par p"
    "path_cached H (Node l a r) p" "distinct (inorder (plug (Node l a r) p))"
    "small (size (plug (Node l a r) p))"
    "j = int (length (before p) + size l) + (off - pos)"
  shows "offset_loop H a pos off = Some (if 0 \<le> j \<and> j < int (size (plug (Node l a r) p))
     then Some (inorder (plug (Node l a r) p) ! nat j) else None)"
  using assms
proof (induction p arbitrary: l a r par pos)
  case Nil
  show ?case
  proof (cases "0 \<le> j \<and> j < int (size (Node l a r))")
    case True
    then show ?thesis using offset_down [of H par a l r off pos] Nil.prems by simp
  next
    case False
    obtain n where n: "H a = Some n" "is_tree H (Some a) (left n) l" "parent n = None"
        "is_tree H (Some a) (right n) r" using Nil.prems(1,2) by auto
    have sz: "size l + 1 < 2 ^ 32" "size r + 1 < 2 ^ 32" using Nil.prems(5) by auto
    have "offset_loop H a pos off = Some None"
      using n AVLNode_cnt_tree [OF n(2)] AVLNode_cnt_tree [OF n(4)] Nil.prems(6) False
        uint_small [OF sz(1)] uint_small [OF sz(2)]
      by (subst offset_loop.simps) auto
    then show ?thesis using False by auto
  qed
next
  case (Cons s p)
  show ?case
  proof (cases "- int (size l) \<le> off - pos \<and> off - pos \<le> int (size r)")
    case True
    have "nat j < length (before (s # p) @ inorder (Node l a r))"
      "nat j = length (before (s # p)) + nat (int (size l) + (off - pos))"
      "nat j - length (before (s # p)) < size (Node l a r)"
      using True Cons.prems(6) by auto
    then have "inorder (plug (Node l a r) (s # p)) ! nat j =
        inorder (Node l a r) ! nat (int (size l) + (off - pos))"
      by (simp add: nth_append del: inorder.simps before.simps behind.simps plug.simps)
    moreover have "0 \<le> j \<and> j < int (size (plug (Node l a r) (s # p)))"
      using True Cons.prems(6) by (simp del: before.simps behind.simps plug.simps)
    moreover have "small (size (Node l a r))" using Cons.prems(5) by (cases s) auto
    ultimately show ?thesis
      using offset_down [of H par a l r off pos] Cons.prems(1) True by presburger
  next
    case False
    obtain n where n: "H a = Some n" "is_tree H (Some a) (left n) l" "parent n = par"
        "is_tree H (Some a) (right n) r" using Cons.prems(1) by auto
    have sz: "size l + 1 < 2 ^ 32" "size r + 1 < 2 ^ 32" using Cons.prems(5) by (cases s; auto)+
    obtain b l' r' where s: "plug1 (Node l a r) s = Node l' b r'" "par = Some b"
      using Cons.prems(2) by (cases s) auto
    obtain m where m: "H b = Some m" using Cons.prems(2) s by (cases s) auto
    have up: "is_tree H (parent m) (Some b) (Node l' b r')" "is_path H (Some b) (parent m) p"
      using Cons.prems(1,2,3) s m by (cases s; auto)+
    have "right m = Some a \<longleftrightarrow> (\<exists>l b. s = UpR l b)"
      using Cons.prems(2,4) m s by (cases s) (auto dest!: is_tree_child_mem)
    then have step: "offset_loop H a pos off = offset_loop H b
        (case s of UpR _ _ \<Rightarrow> pos - (int (size l) + 1) | UpL _ _ \<Rightarrow> pos + (int (size r) + 1)) off"
      using n s(2) m False AVLNode_cnt_tree [OF n(2)] AVLNode_cnt_tree [OF n(4)]
        uint_small [OF sz(1)] uint_small [OF sz(2)]
      by (subst offset_loop.simps) (auto split: step.splits)
    have same: "plug (Node l' b r') p = plug (Node l a r) (s # p)" using s(1) by simp
    have "path_cached H (Node l' b r') p" using Cons.prems(3) s(1) by simp
    moreover have "j = int (length (before p) + size l') + (off -
        (case s of UpR _ _ \<Rightarrow> pos - (int (size l) + 1) | UpL _ _ \<Rightarrow> pos + (int (size r) + 1)))"
      using Cons.prems(6) s(1) by (cases s) auto
    ultimately show ?thesis
      using Cons.IH [OF up] Cons.prems(4,5) unfolding same step by blast
  qed
qed


subsection \<open>Ranks\<close>

text \<open>
  The climb of \<open>AVLNode_rank\<close> goes on only while the node is a right child: it counts the left
  subtrees of the innermost run of right steps, and no ancestor beyond the first left step.
\<close>

fun right_run :: "'a step list \<Rightarrow> nat" where
  "right_run [] = 0"
| "right_run (UpL b r # p) = 0"
| "right_run (UpR l b # p) = size l + 1 + right_run p"

lemma right_run_le: "right_run p \<le> length (before p)"
  by (induction p rule: right_run.induct) auto

lemma rank_climb_path:
  assumes "is_tree H par (Some a) t" "is_path H (Some a) par p" "path_cached H t p"
    "distinct (inorder (plug t p))" "small (size (plug t p))"
  shows "rank_climb H a rk = Some (rk + int (right_run p))"
  using assms
proof (induction p arbitrary: a par t rk)
  case Nil
  then show ?case by (cases t) (auto simp: rank_climb.simps)
next
  case (Cons s p)
  obtain n where n: "H a = Some n" "parent n = par" using Cons.prems(1) by (cases t) auto
  show ?case
  proof (cases s)
    case (UpL b r)
    then have "right m \<noteq> Some a" if "H b = Some m" for m
      using that Cons.prems(1,2,4) by (auto dest!: is_tree_child_mem)
    then show ?thesis using Cons.prems(2) UpL n by (subst rank_climb.simps) auto
  next
    case (UpR l b)
    then obtain m where m: "H b = Some m" "right m = Some a" "is_tree H (Some b) (left m) l"
        "is_path H (Some b) (parent m) p" "par = Some b" using Cons.prems(2) by auto
    have sz: "size l + 1 < 2 ^ 32" using Cons.prems(5) UpR by auto
    have "is_tree H (parent m) (Some b) (Node l b t)" "path_cached H (Node l b t) p"
      using Cons.prems(1,3) m UpR by auto
    then have "rank_climb H b (rk + (int (size l) + 1)) =
        Some (rk + (int (size l) + 1) + int (right_run p))"
      using Cons.IH [of "parent m" b "Node l b t"] m(4) Cons.prems(4,5) UpR by simp
    then show ?thesis
      using n m AVLNode_cnt_tree [OF m(3)] uint_small(1) [OF sz] UpR
      by (subst rank_climb.simps) simp
  qed
qed

lemma AVLNode_rank_tree:
  assumes "is_tree H None root (plug (Node l a r) p)"
    "distinct (inorder (plug (Node l a r) p))" "small (size (plug (Node l a r) p))"
  shows "AVLNode_rank H a = Some (int (Suc (size l + right_run p)))"
proof -
  obtain q par where *: "is_tree H par q (Node l a r)" "is_path H q par p"
      "path_cached H (Node l a r) p"
    using is_tree_plug_split [OF assms(1)] by blast
  then obtain n where n: "q = Some a" "H a = Some n" "is_tree H (Some a) (left n) l" by auto
  have sz: "size l + 1 < 2 ^ 32" using assms(3) by auto
  have "AVLNode_rank H a = rank_climb H a (1 + int (size l))"
    using n AVLNode_cnt_tree [OF n(3)] uint_small(2) [OF sz] is_tree_root [OF n(3)]
    by (auto simp: AVLNode_rank_def)
  then show ?thesis using rank_climb_path [of H par a "Node l a r" p] * n(1) assms(2,3) by simp
qed

lemma AVLNode_offset_tree:
  assumes "is_tree H None root (plug (Node l a r) p)"
    "distinct (inorder (plug (Node l a r) p))" "small (size (plug (Node l a r) p))"
    "j = int (length (before p) + size l) + off"
  shows "AVLNode_offset H a off = Some (if 0 \<le> j \<and> j < int (size (plug (Node l a r) p))
     then Some (inorder (plug (Node l a r) p) ! nat j) else None)"
proof -
  obtain q par where *: "is_tree H par q (Node l a r)" "is_path H q par p"
      "path_cached H (Node l a r) p"
    using is_tree_plug_split [OF assms(1)] by blast
  then have "q = Some a" by simp
  with * show ?thesis
    using offset_loop_tree [of H par a l r p j off 0] assms(2,3,4)
    unfolding AVLNode_offset_def by simp
qed

end
