(* ===== verification/MRD_AvlSeq.thy ===== *)
theory MRD_AvlSeq
  imports MRD_AvlDel MRD_AvlNav
begin

text \<open>
  The AVL tree as its clients see it: a store and a root represent a sequence of node addresses.
  The laws of moving by an offset are a locale, in which the walks that enumerate a range are
  proved once.
\<close>

definition avl_seq :: "avl_heap \<Rightarrow> addr option \<Rightarrow> addr list \<Rightarrow> bool" where
  "avl_seq H root xs = (\<exists>t. is_tree H None root t \<and> avl t \<and> inorder t = xs \<and> distinct xs \<and>
     small (length xs))"

lemma avl_seqE:
  assumes "avl_seq H root xs"
  obtains t where "is_tree H None root t" "avl t" "inorder t = xs" "distinct (inorder t)"
    "small (size t)" "set_tree t = set xs" "size t = length xs"
  using assms by (auto simp: avl_seq_def)

lemma avl_seq_distinct: "avl_seq H root xs \<Longrightarrow> distinct xs"
  by (auto simp: avl_seq_def)

lemma avl_seq_empty [simp]: "avl_seq H None []"
  by (auto simp: avl_seq_def intro: exI [of _ Leaf])

lemma avl_seq_alloc: "avl_seq H root xs \<Longrightarrow> a \<in> set xs \<Longrightarrow> H a \<noteq> None"
  by (elim avl_seqE) (use is_tree_in_dom in blast)

lemma avl_seq_frame:
  assumes "avl_seq H root xs" "\<And>a. a \<in> set xs \<Longrightarrow> H' a = H a"
  shows "avl_seq H' root xs"
proof -
  obtain t where t: "is_tree H None root t" "avl t" "inorder t = xs" "distinct (inorder t)"
    "small (size t)" "set_tree t = set xs" "size t = length xs"
    using avl_seqE [OF assms(1)] .
  then have "is_tree H' None root t" using is_tree_frame [of t H' H] assms(2) by simp
  then show ?thesis using t by (auto simp: avl_seq_def)
qed

lemma avl_seq_upd: "avl_seq H root xs \<Longrightarrow> a \<notin> set xs \<Longrightarrow> avl_seq (H(a := v)) root xs"
  by (rule avl_seq_frame, assumption, metis fun_upd_other)

lemma avl_seq_small: "avl_seq H root xs \<Longrightarrow> small (length xs)"
  by (elim avl_seqE) simp

text \<open>The place of an element.\<close>

lemma avl_seq_context:
  assumes "avl_seq H root xs" "i < length xs"
  obtains l r p where "is_tree H None root (plug (Node l (xs ! i) r) p)"
    "distinct (inorder (plug (Node l (xs ! i) r) p))" "small (size (plug (Node l (xs ! i) r) p))"
    "inorder (plug (Node l (xs ! i) r) p) = xs" "length (before p) + size l = i"
    "avl (plug (Node l (xs ! i) r) p)"
proof -
  obtain t where t: "is_tree H None root t" "avl t" "inorder t = xs" "distinct (inorder t)"
    "small (size t)" "set_tree t = set xs"
    using avl_seqE [OF assms(1)] by metis
  have "xs ! i \<in> set_tree t" using assms(2) t(6) by simp
  from find_context [OF this] obtain l r p where c: "t = plug (Node l (xs ! i) r) p"
    by (elim exE)
  have len: "length (inorder l) = size l" by (rule length_inorder)
  let ?k = "length (before p) + size l"
  have xs: "xs = (before p @ inorder l) @ xs ! i # (inorder r @ behind p)" using t(3) c by simp
  have "xs ! ?k = xs ! i"
    using arg_cong [OF xs, of "\<lambda>ys. ys ! ?k"] by (simp add: nth_append)
  moreover have "?k < length xs" using arg_cong [OF xs, of length] by simp
  ultimately have "xs ! ?k = xs ! i" "?k < length xs" .
  then have "?k = i" using t(3,4) assms(2) nth_eq_iff_index_eq by metis
  then show ?thesis using that [of l r p] t(1-5) unfolding c by blast
qed

lemma avl_seq_offset:
  assumes "avl_seq H root xs" "i < length xs"
  shows "AVLNode_offset H (xs ! i) k = Some (if 0 \<le> int i + k \<and> int i + k < int (length xs)
    then Some (xs ! nat (int i + k)) else None)"
proof -
  obtain l r p where c: "is_tree H None root (plug (Node l (xs ! i) r) p)"
    "distinct (inorder (plug (Node l (xs ! i) r) p))" "small (size (plug (Node l (xs ! i) r) p))"
    "inorder (plug (Node l (xs ! i) r) p) = xs" "length (before p) + size l = i"
    "avl (plug (Node l (xs ! i) r) p)"
    by (rule avl_seq_context [OF assms])
  have "size (plug (Node l (xs ! i) r) p) = length xs" using c(4) by (metis length_inorder)
  then show ?thesis
    using AVLNode_offset_tree [OF c(1-3), of "int i + k" k] c(4,5) by simp
qed

lemma avl_seq_del:
  assumes "avl_seq H root xs" "a \<in> set xs"
  obtains H' root' where "AVLNode_del a H = Some (H', root')" "avl_seq H' root' (remove1 a xs)"
    "H' a \<noteq> None" "\<And>b. b \<notin> set xs \<Longrightarrow> H' b = H b"
proof -
  obtain t where t: "is_tree H None root t" "avl t" "inorder t = xs" "distinct (inorder t)"
    "small (size t)" "set_tree t = set xs" "size t = length xs"
    using avl_seqE [OF assms(1)] .
  from AVLNode_del_tree [OF t(1,4,5)] assms(2) t(6) obtain H' root' t' where
    d: "AVLNode_del a H = Some (H', root')" "is_tree H' None root' t'"
    "inorder t' = remove1 a (inorder t)" "avl t \<longrightarrow> avl t'" "H' a \<noteq> None"
    "\<forall>b. b \<notin> set_tree t \<longrightarrow> H' b = H b"
    by blast
  have "length (remove1 a xs) \<le> length xs" by (simp add: length_remove1)
  then have "small (length (remove1 a xs))" using t(5,7) by linarith
  then have "avl_seq H' root' (remove1 a xs)"
    unfolding avl_seq_def using d t(2,3,4) by (intro exI [of _ t']) simp
  then show ?thesis using that d t(6) by simp
qed

lemma avl_seq_successor:
  assumes "avl_seq H root xs" "i < length xs"
  shows "AVLNode_successor H (xs ! i) = Some (if Suc i < length xs then Some (xs ! Suc i) else None)"
    "AVLNode_predscessor H (xs ! i) = Some (if i = 0 then None else Some (xs ! (i - 1)))"
proof -
  obtain l r p where c: "is_tree H None root (plug (Node l (xs ! i) r) p)"
    "distinct (inorder (plug (Node l (xs ! i) r) p))" "small (size (plug (Node l (xs ! i) r) p))"
    "inorder (plug (Node l (xs ! i) r) p) = xs" "length (before p) + size l = i"
    "avl (plug (Node l (xs ! i) r) p)"
    by (rule avl_seq_context [OF assms])
  obtain par where t: "is_tree H par (Some (xs ! i)) (Node l (xs ! i) r)"
      "is_path H (Some (xs ! i)) par p"
    using is_tree_plugD [OF c(1)] by auto
  define us vs where "us = before p @ inorder l" and "vs = inorder r @ behind p"
  have xs: "xs = us @ xs ! i # vs" "length us = i" using c(4,5) by (simp_all add: us_def vs_def)
  have "AVLNode_successor H (xs ! i) = Some (case vs of [] \<Rightarrow> None | b # _ \<Rightarrow> Some b)"
    using successor_path [OF t c(2)] by (simp add: vs_def)
  moreover have "length xs = Suc (i + length vs)" "xs ! Suc i = vs ! 0" if "vs \<noteq> []"
    by (subst xs(1), simp add: xs(2)) (subst xs(1), simp add: xs(2) nth_append)
  moreover have "length xs = Suc i" if "vs = []" by (subst xs(1)) (simp add: xs(2) that)
  ultimately show "AVLNode_successor H (xs ! i) = Some (if Suc i < length xs then Some (xs ! Suc i) else None)"
    by (cases vs) simp_all
  have "AVLNode_predscessor H (xs ! i) = Some (if us = [] then None else Some (last us))"
    using predscessor_path [OF t c(2)] by (simp add: us_def)
  moreover have "last us = xs ! (i - 1)" if "us \<noteq> []"
    by (subst xs(1)) (use that xs(2) in \<open>auto simp: nth_append last_conv_nth\<close>)
  ultimately show "AVLNode_predscessor H (xs ! i) = Some (if i = 0 then None else Some (xs ! (i - 1)))"
    using xs(2) by auto
qed

lemma avl_seq_rank:
  assumes "avl_seq H root xs" "i < length xs"
  obtains k where "AVLNode_rank H (xs ! i) = Some (int k)" "1 \<le> k" "k \<le> Suc i"
proof -
  obtain l r p where c: "is_tree H None root (plug (Node l (xs ! i) r) p)"
    "distinct (inorder (plug (Node l (xs ! i) r) p))" "small (size (plug (Node l (xs ! i) r) p))"
    "inorder (plug (Node l (xs ! i) r) p) = xs" "length (before p) + size l = i"
    "avl (plug (Node l (xs ! i) r) p)"
    by (rule avl_seq_context [OF assms])
  show ?thesis
    using that [of "Suc (size l + right_run p)"] AVLNode_rank_tree [OF c(1-3)] c(5) right_run_le [of p]
    by simp
qed

lemma right_run_append:
  "\<forall>s \<in> set p. \<exists>l b. s = UpR l b \<Longrightarrow> q = [] \<or> (\<exists>b r q'. q = UpL b r # q') \<Longrightarrow> right_run (p @ q) = length (before p)"
  by (induction p) auto

text \<open>Linking a fresh node at a leaf position and fixing the tree, as an insertion does.\<close>

lemma avl_seq_insert:
  assumes "is_tree H None root (plug Leaf p)" "avl (plug Leaf p)" "distinct (before p @ behind p)"
    "small (Suc (length (before p @ behind p)))" "H a = Some AVLNode_init" "a \<notin> set (before p @ behind p)"
  obtains H' root' where "do {
      H \<leftarrow> store_link (link_at p) (Some a) H;
      H \<leftarrow> upd_at a (\<lambda>n. n\<lparr>parent := path_parent p\<rparr>) H;
      AVLNode_fix a H } = Some (H', root')"
    "avl_seq H' (Some root') (before p @ a # behind p)"
    "\<And>b. b \<noteq> a \<Longrightarrow> b \<notin> set (before p @ behind p) \<Longrightarrow> H' b = H b"
proof -
  from insert_leaf_tree [of H root p a] assms obtain H' root' where
    i: "do {
      H \<leftarrow> store_link (link_at p) (Some a) H;
      H \<leftarrow> upd_at a (\<lambda>n. n\<lparr>parent := path_parent p\<rparr>) H;
      AVLNode_fix a H } = Some (H', root')"
    "is_tree H' None (Some root') (retrace (Node Leaf a Leaf) p)"
    "\<forall>b. b \<noteq> a \<longrightarrow> b \<notin> set_tree (plug Leaf p) \<longrightarrow> H' b = H b"
    by auto
  have "avl_seq H' (Some root') (before p @ a # behind p)"
    unfolding avl_seq_def
    using i(2) insert_leaf_avl [OF assms(2)] assms(3,4,6)
    by (intro exI [of _ "retrace (Node Leaf a Leaf) p"]) auto
  then show ?thesis using that i by simp
qed

subsection \<open>Sequences with a cursor\<close>

text \<open>
  The loops of the range commands: from a cursor, at most \<open>n\<close> elements, each reached from the one
  before by an offset of one in a fixed direction.
\<close>

fun enumerate_by :: "('a \<Rightarrow> int \<Rightarrow> 'a option option) \<Rightarrow> int \<Rightarrow> nat \<Rightarrow> 'a option \<Rightarrow> 'a list option" where
  "enumerate_by offset d 0 cur = Some []"
| "enumerate_by offset d (Suc n) None = Some []"
| "enumerate_by offset d (Suc n) (Some a) = do {
     next \<leftarrow> offset a d;
     rest \<leftarrow> enumerate_by offset d n next;
     Some (a # rest)
   }"

locale cursor_sequence =
  fixes elems :: "'h \<Rightarrow> 'a list \<Rightarrow> bool"
    and offset :: "'h \<Rightarrow> 'a \<Rightarrow> int \<Rightarrow> 'a option option"
  assumes offset_law: "elems H xs \<Longrightarrow> i < length xs \<Longrightarrow>
    offset H (xs ! i) k = Some (if 0 \<le> int i + k \<and> int i + k < int (length xs)
      then Some (xs ! nat (int i + k)) else None)"
begin

lemma offset_zero: "elems H xs \<Longrightarrow> a \<in> set xs \<Longrightarrow> offset H a 0 = Some (Some a)"
  by (auto simp: in_set_conv_nth offset_law)

lemma offset_add:
  assumes "elems H xs" "a \<in> set xs" "offset H a j = Some (Some b)"
  shows "b \<in> set xs \<and> offset H b k = offset H a (j + k)"
proof -
  obtain i where i: "i < length xs" "a = xs ! i" using assms(2) by (auto simp: in_set_conv_nth)
  then have b: "0 \<le> int i + j" "int i + j < int (length xs)" "b = xs ! nat (int i + j)"
    using offset_law [OF assms(1) i(1), of j] assms(3) by (auto split: if_splits)
  then show ?thesis
    using offset_law [OF assms(1), of "nat (int i + j)" k] offset_law [OF assms(1) i(1), of "j + k"] i(2)
    by (simp add: add.assoc)
qed

lemma enumerate_forward:
  assumes "elems H xs"
  shows "i \<le> length xs \<Longrightarrow>
    enumerate_by (offset H) 1 n (if i < length xs then Some (xs ! i) else None) = Some (take n (drop i xs))"
proof (induction n arbitrary: i)
  case (Suc n)
  show ?case
  proof (cases "i < length xs")
    case True
    have "offset H (xs ! i) 1 = Some (if Suc i < length xs then Some (xs ! Suc i) else None)"
      using offset_law [OF assms True, of 1] by (auto simp: nat_add_distrib)
    then show ?thesis
      using Suc.IH [of "Suc i"] True by (simp add: Cons_nth_drop_Suc [symmetric])
  qed simp
qed simp

lemma enumerate_backward:
  assumes "elems H xs"
  shows "i \<le> length xs \<Longrightarrow>
    enumerate_by (offset H) (- 1) n (if 0 < i then Some (xs ! (i - 1)) else None) =
      Some (take n (rev (take i xs)))"
proof (induction n arbitrary: i)
  case (Suc n)
  show ?case
  proof (cases i)
    case (Suc j)
    have "offset H (xs ! j) (- 1) = Some (if 0 < j then Some (xs ! (j - 1)) else None)"
      using offset_law [OF assms, of j "- 1"] Suc Suc.prems by (auto simp: nat_diff_distrib)
    then show ?thesis
      using Suc.IH [of j] Suc Suc.prems by (simp add: take_Suc_conv_app_nth)
  qed simp
qed simp

end

interpretation avl: cursor_sequence "\<lambda>(H, root) xs. avl_seq H root xs" "\<lambda>(H, root). AVLNode_offset H"
  by unfold_locales (auto simp: avl_seq_offset)

lemmas avl_enumerate = avl.enumerate_forward [where H = "(H, root)" for H root, simplified]
  avl.enumerate_backward [where H = "(H, root)" for H root, simplified]

subsection \<open>A sample tree\<close>

text \<open>The tree of four nodes whose right child is the root's greatest left-leaning subtree.\<close>

definition sample_avl :: avl_heap where
  "sample_avl = [
     2 \<mapsto> \<lparr>parent = None, left = Some 1, right = Some 4, sub_height = 3, sub_count = 4\<rparr>,
     1 \<mapsto> \<lparr>parent = Some 2, left = None, right = None, sub_height = 1, sub_count = 1\<rparr>,
     4 \<mapsto> \<lparr>parent = Some 2, left = Some 3, right = None, sub_height = 2, sub_count = 2\<rparr>,
     3 \<mapsto> \<lparr>parent = Some 4, left = None, right = None, sub_height = 1, sub_count = 1\<rparr>]"

lemma sample_avl_seq: "avl_seq sample_avl (Some 2) [1, 2, 3, 4]"
proof -
  let ?t = "Node (Node Leaf 1 Leaf) (2::nat) (Node (Node Leaf 3 Leaf) 4 Leaf)"
  have "is_tree sample_avl None (Some 2) ?t" by (simp add: sample_avl_def)
  moreover have "avl ?t" by simp
  ultimately show ?thesis unfolding avl_seq_def by (intro exI [of _ ?t]) simp
qed

subsection \<open>Properties\<close>

text \<open>C9: Deleting any node of an AVL tree returns (the walk to the root and every rotation
  dereference only live nodes), and the store then represents the same sequence without the node,
  balanced and with correct cached heights and counts, at the returned root; no node outside of the
  tree is touched.\<close>

theorem AVLNode_del_correct:
  assumes "avl_seq H root xs" "a \<in> set xs"
  shows "\<exists>H' root'. AVLNode_del a H = Some (H', root') \<and> avl_seq H' root' (remove1 a xs) \<and>
    (\<forall>b. b \<notin> set xs \<longrightarrow> H' b = H b)"
  using avl_seq_del [OF assms] by metis

lemma AVLNode_del_correct_witness:
  "\<exists>H' root'. AVLNode_del 2 sample_avl = Some (H', root') \<and> avl_seq H' root' [1, 3, 4]"
  using AVLNode_del_correct [OF sample_avl_seq, of 2] by auto

text \<open>C19: Linking a fresh node at any leaf position of an AVL tree and running \<^verbatim>\<open>fix\<close> on it
  returns a root of a balanced tree with correct cached fields whose sequence has the new node in
  that position and is otherwise unchanged.\<close>

theorem AVLNode_insert_correct:
  assumes "is_tree H None root (plug Leaf p)" "avl (plug Leaf p)" "distinct (before p @ behind p)"
    "small (Suc (length (before p @ behind p)))" "H a = Some AVLNode_init" "a \<notin> set (before p @ behind p)"
  shows "\<exists>H' root'. do {
      H \<leftarrow> store_link (link_at p) (Some a) H;
      H \<leftarrow> upd_at a (\<lambda>n. n\<lparr>parent := path_parent p\<rparr>) H;
      AVLNode_fix a H } = Some (H', root') \<and>
    avl_seq H' (Some root') (before p @ a # behind p) \<and>
    (\<forall>b. b \<noteq> a \<longrightarrow> b \<notin> set (before p @ behind p) \<longrightarrow> H' b = H b)"
  using avl_seq_insert [OF assms] by metis

lemma AVLNode_insert_correct_witness:
  "\<exists>H' root'. do {
      H \<leftarrow> store_link (LeftOf 3) (Some 9) (sample_avl(9 \<mapsto> AVLNode_init));
      H \<leftarrow> upd_at 9 (\<lambda>n. n\<lparr>parent := Some 3\<rparr>) H;
      AVLNode_fix 9 H } = Some (H', root') \<and>
    avl_seq H' (Some root') [1, 2, 9, 3, 4]"
proof -
  let ?p = "[UpL 3 Leaf, UpL 4 Leaf, UpR (Node Leaf 1 Leaf) (2::nat)]"
  have "is_tree (sample_avl(9 \<mapsto> AVLNode_init)) None (Some 2) (plug Leaf ?p)"
    by (simp add: sample_avl_def)
  moreover have "avl (plug Leaf ?p)" by simp
  ultimately show ?thesis
    using AVLNode_insert_correct [of "sample_avl(9 \<mapsto> AVLNode_init)" "Some 2" ?p 9] by auto
qed

text \<open>C20: Moving by a signed offset from the node at position \<open>i\<close> returns the node at position
  \<open>i + offset\<close> of the sequence, or null when that lies outside of it, for every offset.\<close>

theorem AVLNode_offset_correct:
  assumes "avl_seq H root xs" "i < length xs"
  shows "AVLNode_offset H (xs ! i) k = Some (if 0 \<le> int i + k \<and> int i + k < int (length xs)
    then Some (xs ! nat (int i + k)) else None)"
  by (rule avl_seq_offset [OF assms])

lemma AVLNode_offset_correct_witness: "AVLNode_offset sample_avl 4 (- 3) = Some (Some 1)"
  using AVLNode_offset_correct [OF sample_avl_seq, of 3 "- 3"] by simp

text \<open>Successor and predecessor return the neighbours in the sequence, and null at its ends.\<close>

theorem AVLNode_neighbours_correct:
  assumes "avl_seq H root xs" "i < length xs"
  shows "AVLNode_successor H (xs ! i) = Some (if Suc i < length xs then Some (xs ! Suc i) else None) \<and>
    AVLNode_predscessor H (xs ! i) = Some (if i = 0 then None else Some (xs ! (i - 1)))"
  using avl_seq_successor [OF assms] by simp

lemma AVLNode_neighbours_correct_witness:
  "AVLNode_successor sample_avl 2 = Some (Some 3) \<and> AVLNode_predscessor sample_avl 2 = Some (Some 1)"
  using AVLNode_neighbours_correct [OF sample_avl_seq, of 1] by simp

text \<open>C38: The rank returned for a node is its position among the nodes of the largest subtree that is
  reached from it by going from right children to their parents, since the climb stops at the first left
  child; it is the position in the whole tree exactly when no node lies before that subtree.\<close>

theorem AVLNode_rank_correct:
  assumes "is_tree H None root (plug (Node l a r) (p @ q))" "distinct (inorder (plug (Node l a r) (p @ q)))"
    and "small (size (plug (Node l a r) (p @ q)))"
    and "\<forall>s \<in> set p. \<exists>l b. s = UpR l b" "q = [] \<or> (\<exists>b r q'. q = UpL b r # q')"
  shows "AVLNode_rank H a = Some (1 + int (length (takeWhile (\<lambda>b. b \<noteq> a) (inorder (plug (Node l a r) p))))) \<and>
    (AVLNode_rank H a = Some (1 + int (length (takeWhile (\<lambda>b. b \<noteq> a) (inorder (plug (Node l a r) (p @ q)))))) \<longleftrightarrow>
     before q = [])"
proof -
  have tw: "takeWhile (\<lambda>b. b \<noteq> a) (inorder (plug (Node l a r) x)) = before x @ inorder l"
    if "distinct (inorder (plug (Node l a r) x))" for x
    using that by (auto simp: takeWhile_append)
  have "distinct (inorder (plug (Node l a r) p))" using assms(2) by (auto simp: plug_append)
  from tw [OF this] have "length (takeWhile (\<lambda>b. b \<noteq> a) (inorder (plug (Node l a r) p))) = length (before p) + size l" by simp
  moreover have "length (takeWhile (\<lambda>b. b \<noteq> a) (inorder (plug (Node l a r) (p @ q)))) = length (before q) + length (before p) + size l"
    using tw [OF assms(2)] by (simp add: before_append)
  moreover have "AVLNode_rank H a = Some (int (Suc (size l + length (before p))))"
    using AVLNode_rank_tree [OF assms(1-3)] right_run_append [OF assms(4,5)] by simp
  ultimately show ?thesis by auto
qed

lemma AVLNode_rank_correct_witness:
  "AVLNode_rank sample_avl 4 = Some 4 \<and> AVLNode_rank sample_avl 3 = Some 1 \<and> inorder (plug (Node Leaf 3 Leaf) [UpL 4 Leaf, UpR (Node Leaf 1 Leaf) 2]) = [1, 2, 3, 4 :: addr]"
proof -
  have t: "is_tree sample_avl None (Some 2) (plug (Node (Node Leaf 3 Leaf) 4 Leaf) ([UpR (Node Leaf 1 Leaf) 2] @ []))"
    "is_tree sample_avl None (Some 2) (plug (Node Leaf 3 Leaf) ([] @ [UpL 4 Leaf, UpR (Node Leaf 1 Leaf) 2]))"
    by (simp_all add: sample_avl_def)
  show ?thesis using AVLNode_rank_correct [OF t(1)] AVLNode_rank_correct [OF t(2)] by simp
qed

end
