(* ===== verification/MRD_Hashtable.thy ===== *)
theory MRD_Hashtable
  imports MRD_Prelude
begin

text \<open>
  The chained hash table with progressive rehashing of \<^verbatim>\<open>shared/src/MRD_hashtable.cpp\<close>. A chain of
  intrusive nodes is the list of the nodes in chain order; the payload a node is embedded in is
  the type parameter. A key given to a lookup is its hash code with the client's equality applied
  to it. The index is presented to its clients as the locale \<open>keyed_index\<close>.
\<close>

subsection \<open>The fixed-size table\<close>

record 'a hnode =
  hcode :: u64
  item :: 'a

text \<open>
  \<open>tab\<close> is \<open>None\<close> for a null array; the counter \<^verbatim>\<open>size\<close> is a number of nodes in memory, and so a
  natural number.
\<close>

record 'a htab =
  tab :: "'a hnode list list option"
  mask :: u64
  nkeys :: nat

definition HTab_zombie :: "'a htab" where
  "HTab_zombie = \<lparr>tab = None, mask = 0, nkeys = 0\<rparr>"

definition HTab_init :: "u64 \<Rightarrow> 'a htab" where
  "HTab_init n = \<lparr>tab = Some (replicate (unat n) []), mask = n - 1, nkeys = 0\<rparr>"

definition HTab_insert :: "'a htab \<Rightarrow> 'a hnode \<Rightarrow> 'a htab option" where
  "HTab_insert t node = do {
     slots \<leftarrow> tab t;
     let pos = unat (hcode node AND mask t);
     oguard (pos < length slots);
     Some (t\<lparr>tab := Some (slots[pos := node # slots ! pos]), nkeys := nkeys t + 1\<rparr>)
   }"

text \<open>The incoming pointer of a node is its slot with its place in the chain.\<close>

fun chain_lookup :: "u64 \<Rightarrow> ('a \<Rightarrow> bool) \<Rightarrow> 'a hnode list \<Rightarrow> nat option" where
  "chain_lookup h eq [] = None"
| "chain_lookup h eq (cur # next) =
    (if hcode cur = h \<and> eq (item cur) then Some 0 else map_option Suc (chain_lookup h eq next))"

definition HTab_lookup :: "'a htab \<Rightarrow> u64 \<Rightarrow> ('a \<Rightarrow> bool) \<Rightarrow> (nat \<times> nat) option option" where
  "HTab_lookup t h eq =
    (case tab t of
       None \<Rightarrow> Some None
     | Some slots \<Rightarrow> do {
         let pos = unat (h AND mask t);
         oguard (pos < length slots);
         Some (map_option (Pair pos) (chain_lookup h eq (slots ! pos)))
       })"

text \<open>Removing the node behind an incoming pointer.\<close>

definition HTab_detach :: "'a htab \<Rightarrow> nat \<times> nat \<Rightarrow> ('a hnode \<times> 'a htab) option" where
  "HTab_detach t = (\<lambda>(pos, j). do {
     slots \<leftarrow> tab t;
     oguard (pos < length slots \<and> j < length (slots ! pos));
     Some (slots ! pos ! j,
       t\<lparr>tab := Some (slots[pos := take j (slots ! pos) @ drop (Suc j) (slots ! pos)]),
         nkeys := nkeys t - 1\<rparr>)
   })"

text \<open>The callback reads and writes a state and says whether to go on.\<close>

fun chain_foreach :: "('a hnode \<Rightarrow> 's \<Rightarrow> bool \<times> 's) \<Rightarrow> 'a hnode list \<Rightarrow> 's \<Rightarrow> bool \<times> 's" where
  "chain_foreach f [] s = (True, s)"
| "chain_foreach f (node # next) s =
    (case f node s of (True, s) \<Rightarrow> chain_foreach f next s | (False, s) \<Rightarrow> (False, s))"

definition HTab_foreach ::
  "('a hnode \<Rightarrow> 's \<Rightarrow> bool \<times> 's) \<Rightarrow> 'a htab \<Rightarrow> 's \<Rightarrow> (bool \<times> 's) option" where
  "HTab_foreach f t s =
    (if mask t = 0 then Some (True, s)
     else do {
       slots \<leftarrow> tab t;
       oguard (unat (mask t) < length slots);
       Some (chain_foreach f (concat (take (Suc (unat (mask t))) slots)) s)
     })"

text \<open>Clearing a table leaves it as a default-constructed one.\<close>

definition HTab_clear :: "'a htab \<Rightarrow> 'a htab" where
  "HTab_clear t = t\<lparr>tab := None, mask := 0, nkeys := 0\<rparr>"

text \<open>The move assignment swaps its sides: the source is left with the old value of the target.\<close>

definition HTab_swap :: "'a htab \<Rightarrow> 'a htab \<Rightarrow> 'a htab \<times> 'a htab" where
  "HTab_swap lhs rhs = (lhs\<lparr>tab := tab rhs, mask := mask rhs, nkeys := nkeys rhs\<rparr>,
     rhs\<lparr>tab := tab lhs, mask := mask lhs, nkeys := nkeys lhs\<rparr>)"

definition HTab_move :: "'a htab \<Rightarrow> 'a htab \<Rightarrow> 'a htab \<times> 'a htab" where
  "HTab_move lhs rhs = HTab_swap lhs rhs"

text \<open>The move constructor swaps with a new table; it returns the new object and what is left of the other.\<close>

definition HTab_take :: "'a htab \<Rightarrow> 'a htab \<times> 'a htab" where
  "HTab_take other = HTab_swap HTab_zombie other"

lemma HTab_swap_eq [simp]: "HTab_swap lhs rhs = (rhs, lhs)"
  by (cases lhs, cases rhs) (simp add: HTab_swap_def)

subsection \<open>The map of two tables\<close>

record 'a hmap =
  newer :: "'a htab"
  older :: "'a htab"
  migrate_pos :: nat

definition k_rehashing_work :: nat where "k_rehashing_work = 128"
definition k_max_load_factor :: u64 where "k_max_load_factor = 8"

definition HMap_empty :: "'a hmap" where
  "HMap_empty = \<lparr>newer = HTab_zombie, older = HTab_zombie, migrate_pos = 0\<rparr>"

text \<open>The number of slots behind the migration position and the work left bound the loop.\<close>

definition slots_of :: "'a htab \<Rightarrow> 'a hnode list list" where
  "slots_of t = (case tab t of None \<Rightarrow> [] | Some slots \<Rightarrow> slots)"

lemma slots_of_detach:
  "HTab_detach t p = Some (n, t') \<Longrightarrow> length (slots_of t') = length (slots_of t)"
  by (cases p) (auto simp: HTab_detach_def slots_of_def bind_simps split: option.splits)

function migrate ::
  "nat \<Rightarrow> 'a htab \<Rightarrow> 'a htab \<Rightarrow> nat \<Rightarrow> ('a htab \<times> 'a htab \<times> nat) option" where
  "migrate nwork new old pos =
    (if nwork < k_rehashing_work \<and> nkeys old > 0 then
       if pos < length (slots_of old) then
         if slots_of old ! pos = [] then migrate nwork new old (pos + 1)
         else (case HTab_detach old (pos, 0) of
                 None \<Rightarrow> None
               | Some (node, old') \<Rightarrow>
                   (case HTab_insert new node of
                      None \<Rightarrow> None
                    | Some new' \<Rightarrow> migrate (nwork + 1) new' old' pos))
       else None
     else Some (new, old, pos))"
  by pat_completeness auto
termination
  by (relation "measure (\<lambda>(nwork, new, old, pos). (k_rehashing_work - nwork) + (length (slots_of old) - pos))")
    (auto dest: slots_of_detach)

text \<open>
  The clean-up condition is the code's: it asks for a null array, so that it never frees one.
\<close>

definition HMap_help_rehashing :: "'a hmap \<Rightarrow> 'a hmap option" where
  "HMap_help_rehashing m = do {
     (new, old, pos) \<leftarrow> migrate 0 (newer m) (older m) (migrate_pos m);
     let old = (if nkeys old = 0 \<and> tab old = None
                then fst (HTab_move (HTab_clear old) HTab_zombie) else old);
     Some \<lparr>newer = new, older = old, migrate_pos = pos\<rparr>
   }"

definition HMap_trigger_rehashing :: "'a hmap \<Rightarrow> 'a hmap option" where
  "HMap_trigger_rehashing m = do {
     oguard (tab (older m) = None);
     let (old, new) = HTab_move (older m) (newer m);
     Some \<lparr>newer = HTab_init ((mask new + 1) * 2), older = old, migrate_pos = 0\<rparr>
   }"

definition node_at :: "'a htab \<Rightarrow> nat \<times> nat \<Rightarrow> 'a hnode" where
  "node_at t = (\<lambda>(pos, j). slots_of t ! pos ! j)"

definition HMap_lookup :: "'a hmap \<Rightarrow> u64 \<Rightarrow> ('a \<Rightarrow> bool) \<Rightarrow> 'a hnode option option" where
  "HMap_lookup m h eq = do {
     from \<leftarrow> HTab_lookup (newer m) h eq;
     case from of
       Some p \<Rightarrow> Some (Some (node_at (newer m) p))
     | None \<Rightarrow> do {
         from \<leftarrow> HTab_lookup (older m) h eq;
         Some (map_option (node_at (older m)) from)
       }
   }"

definition HMap_foreach ::
  "('a hnode \<Rightarrow> 's \<Rightarrow> bool \<times> 's) \<Rightarrow> 'a hmap \<Rightarrow> 's \<Rightarrow> 's option" where
  "HMap_foreach f m s = do {
     (go, s) \<leftarrow> HTab_foreach f (newer m) s;
     if go then map_option snd (HTab_foreach f (older m) s) else Some s
   }"

definition HMap_insert :: "'a hmap \<Rightarrow> 'a hnode \<Rightarrow> 'a hmap option" where
  "HMap_insert m node = do {
     let m = (if tab (newer m) = None then m\<lparr>newer := HTab_init 4\<rparr> else m);
     new \<leftarrow> HTab_insert (newer m) node;
     let m = m\<lparr>newer := new\<rparr>;
     m \<leftarrow> (if tab (older m) = None \<and> nkeys (newer m) \<ge> unat ((mask (newer m) + 1) * k_max_load_factor)
           then HMap_trigger_rehashing m else Some m);
     HMap_help_rehashing m
   }"

definition HMap_erase ::
  "'a hmap \<Rightarrow> u64 \<Rightarrow> ('a \<Rightarrow> bool) \<Rightarrow> ('a hnode option \<times> 'a hmap) option" where
  "HMap_erase m h eq = do {
     m \<leftarrow> HMap_help_rehashing m;
     from \<leftarrow> HTab_lookup (newer m) h eq;
     case from of
       Some p \<Rightarrow> do {
         (node, t) \<leftarrow> HTab_detach (newer m) p;
         Some (Some node, m\<lparr>newer := t\<rparr>)
       }
     | None \<Rightarrow> do {
         from \<leftarrow> HTab_lookup (older m) h eq;
         case from of
           Some p \<Rightarrow> do {
             (node, t) \<leftarrow> HTab_detach (older m) p;
             Some (Some node, m\<lparr>older := t\<rparr>)
           }
         | None \<Rightarrow> Some (None, m)
       }
   }"

definition HMap_clear :: "'a hmap \<Rightarrow> 'a hmap" where
  "HMap_clear m =
    \<lparr>newer = HTab_clear (newer m), older = HTab_clear (older m), migrate_pos = 0\<rparr>"

definition HMap_size :: "'a hmap \<Rightarrow> nat" where
  "HMap_size m = nkeys (newer m) + nkeys (older m)"

definition HMap_swap :: "'a hmap \<Rightarrow> 'a hmap \<Rightarrow> 'a hmap \<times> 'a hmap" where
  "HMap_swap lhs rhs =
    (let (new_l, new_r) = HTab_swap (newer lhs) (newer rhs);
         (old_l, old_r) = HTab_swap (older lhs) (older rhs)
     in (lhs\<lparr>newer := new_l, older := old_l, migrate_pos := migrate_pos rhs\<rparr>,
         rhs\<lparr>newer := new_r, older := old_r, migrate_pos := migrate_pos lhs\<rparr>))"

lemma HMap_swap_eq [simp]: "HMap_swap lhs rhs = (rhs, lhs)"
  by (cases lhs, cases rhs) (simp add: HMap_swap_def)

declare migrate.simps [simp del]

subsection \<open>The table's invariant\<close>

definition htab_ok :: "'a htab \<Rightarrow> bool" where
  "htab_ok t =
    (case tab t of
       None \<Rightarrow> mask t = 0 \<and> nkeys t = 0
     | Some slots \<Rightarrow> length slots = Suc (unat (mask t)) \<and> nkeys t = length (concat slots) \<and>
         (\<forall>i < length slots. \<forall>n \<in> set (slots ! i). unat (hcode n AND mask t) = i))"

definition nodes :: "'a htab \<Rightarrow> 'a hnode multiset" where
  "nodes t = mset (concat (slots_of t))"

definition in_range :: "'a htab \<Rightarrow> nat \<times> nat \<Rightarrow> bool" where
  "in_range t = (\<lambda>(pos, j). pos < length (slots_of t) \<and> j < length (slots_of t ! pos))"

lemmas tab_defs = nodes_def slots_of_def in_range_def node_at_def

lemma slot_in_mask: "unat ((h::u64) AND m) < Suc (unat m)"
  by (simp add: less_Suc_eq_le word_le_nat_alt [symmetric] word_and_le1)

lemma nodes_size: "htab_ok t \<Longrightarrow> nkeys t = size (nodes t)"
  by (auto simp: htab_ok_def tab_defs split: option.splits)

lemma HTab_zombie_ok [simp]: "htab_ok HTab_zombie" "nodes HTab_zombie = {#}" "tab HTab_zombie = None"
  by (simp_all add: HTab_zombie_def htab_ok_def tab_defs)

lemma HTab_take_ok: "htab_ok t \<Longrightarrow> htab_ok (fst (HTab_take t))" "nodes (fst (HTab_take t)) = nodes t"
    "snd (HTab_take t) = HTab_zombie"
  by (simp_all add: HTab_take_def)

lemma HTab_clear_ok [simp]: "htab_ok (HTab_clear t)" "nodes (HTab_clear t) = {#}" "tab (HTab_clear t) = None"
  by (simp_all add: HTab_clear_def htab_ok_def tab_defs)

lemma HTab_init_ok:
  assumes "n > 0"
  shows "htab_ok (HTab_init n :: 'a htab)" "nodes (HTab_init n :: 'a htab) = {#}"
    "tab (HTab_init n :: 'a htab) \<noteq> None" "mask (HTab_init n :: 'a htab) = n - 1"
    "nkeys (HTab_init n :: 'a htab) = 0"
proof -
  have "unat n = Suc (unat (n - 1))"
    using assms by (simp add: unat_minus_one unat_gt_0 word_neq_0_conv)
  then show "htab_ok (HTab_init n :: 'a htab)" by (auto simp: HTab_init_def htab_ok_def simp del: replicate_Suc)
qed (simp_all add: HTab_init_def tab_defs)

lemma HTab_insert_ok:
  assumes "htab_ok t" "tab t \<noteq> None"
  obtains t' where "HTab_insert t n = Some t'" "htab_ok t'" "nodes t' = add_mset n (nodes t)"
    "tab t' \<noteq> None" "mask t' = mask t" "nkeys t' = Suc (nkeys t)"
proof -
  obtain slots where t: "tab t = Some slots" using assms(2) by auto
  let ?pos = "unat (hcode n AND mask t)"
  let ?t = "t\<lparr>tab := Some (slots[?pos := n # slots ! ?pos]), nkeys := nkeys t + 1\<rparr>"
  have pos: "?pos < length slots" using assms(1) t by (simp add: htab_ok_def slot_in_mask)
  have m: "mset (concat (slots[?pos := n # slots ! ?pos])) = add_mset n (mset (concat slots))"
    using mset_concat_update [OF pos, of "n # slots ! ?pos"] by simp
  then have "length (concat (slots[?pos := n # slots ! ?pos])) = Suc (length (concat slots))"
    by (metis size_add_mset size_mset)
  then have "htab_ok ?t"
    using assms(1) t pos by (auto simp: htab_ok_def nth_list_update split: if_splits)
  then show ?thesis
    using that [of ?t] t pos m by (simp add: HTab_insert_def Let_def tab_defs)
qed

lemma chain_lookup_None:
  "chain_lookup h eq ns = None \<longleftrightarrow> (\<forall>n \<in> set ns. \<not> (hcode n = h \<and> eq (item n)))"
  by (induction ns) auto

lemma chain_lookup_Some:
  "chain_lookup h eq ns = Some j \<Longrightarrow> j < length ns \<and> hcode (ns ! j) = h \<and> eq (item (ns ! j))"
  by (induction ns arbitrary: j) (auto split: if_splits)

lemma HTab_lookup_ok:
  assumes "htab_ok t"
  obtains (Absent) "HTab_lookup t h eq = Some None" "\<forall>n \<in># nodes t. \<not> (hcode n = h \<and> eq (item n))"
  | (Present) p where "HTab_lookup t h eq = Some (Some p)" "in_range t p" "tab t \<noteq> None"
      "hcode (node_at t p) = h" "eq (item (node_at t p))"
proof (cases "tab t")
  case None
  then show ?thesis using Absent by (simp add: HTab_lookup_def tab_defs)
next
  case (Some slots)
  let ?pos = "unat (h AND mask t)"
  have pos: "?pos < length slots" using assms Some by (simp add: htab_ok_def slot_in_mask)
  have lk: "HTab_lookup t h eq = Some (map_option (Pair ?pos) (chain_lookup h eq (slots ! ?pos)))"
    using Some pos by (simp add: HTab_lookup_def Let_def)
  show ?thesis
  proof (cases "chain_lookup h eq (slots ! ?pos)")
    case None
    have "\<not> (hcode n = h \<and> eq (item n))" if n: "n \<in># nodes t" for n
    proof
      assume hit: "hcode n = h \<and> eq (item n)"
      obtain i where "i < length slots" "n \<in> set (slots ! i)"
        using n Some by (auto simp: tab_defs in_set_conv_nth) (metis nth_mem)
      moreover from this have "i = ?pos" using assms Some hit by (auto simp: htab_ok_def)
      ultimately show False using None hit chain_lookup_None [of h eq "slots ! ?pos"] by blast
    qed
    then show ?thesis using Absent lk None by simp
  next
    case (Some j)
    then show ?thesis
      using Present [of "(?pos, j)"] lk pos \<open>tab t = Some slots\<close> chain_lookup_Some [OF Some]
      by (simp add: tab_defs)
  qed
qed

lemma in_range_mem: "in_range t p \<Longrightarrow> node_at t p \<in># nodes t"
  using nth_in_concat [of "fst p" "slots_of t"]
  by (auto simp: nodes_def in_range_def node_at_def split: prod.splits simp del: set_concat)

lemma HTab_detach_ok:
  assumes "htab_ok t" "in_range t p"
  obtains t' where "HTab_detach t p = Some (node_at t p, t')" "htab_ok t'"
    "nodes t = add_mset (node_at t p) (nodes t')" "tab t' \<noteq> None" "mask t' = mask t"
    "Suc (nkeys t') = nkeys t" "slots_of t' = (slots_of t)[fst p :=
       take (snd p) (slots_of t ! fst p) @ drop (Suc (snd p)) (slots_of t ! fst p)]"
proof -
  obtain pos j where p: "p = (pos, j)" by fastforce
  obtain slots where t: "tab t = Some slots" using assms(2) by (auto simp: tab_defs p split: option.splits)
  have pos: "pos < length slots" "j < length (slots ! pos)" using assms(2) t by (auto simp: p tab_defs)
  let ?c = "take j (slots ! pos) @ drop (Suc j) (slots ! pos)"
  let ?t = "t\<lparr>tab := Some (slots[pos := ?c]), nkeys := nkeys t - 1\<rparr>"
  have "mset (slots ! pos) = add_mset (slots ! pos ! j) (mset ?c)"
    using arg_cong [OF id_take_nth_drop [OF pos(2)], of mset] by simp
  then have m: "mset (concat slots) = add_mset (slots ! pos ! j) (mset (concat (slots[pos := ?c])))"
    using mset_concat_update [OF pos(1), of ?c] by (simp add: union_commute)
  then have len: "length (concat slots) = Suc (length (concat (slots[pos := ?c])))"
    by (metis size_add_mset size_mset)
  have "htab_ok ?t"
    using assms(1) t pos len
    by (auto simp: htab_ok_def nth_list_update dest!: in_set_takeD in_set_dropD split: if_splits)
  then show ?thesis
    using that [of ?t] assms(1) t pos m len by (simp add: HTab_detach_def p tab_defs htab_ok_def)
qed

subsection \<open>Migration\<close>

definition migrated :: "'a htab \<Rightarrow> nat \<Rightarrow> bool" where
  "migrated t pos = (\<forall>i < min pos (length (slots_of t)). slots_of t ! i = [])"

lemma migrated_in_bounds:
  assumes "migrated t pos" "htab_ok t" "nkeys t > 0"
  shows "pos < length (slots_of t)"
proof (rule ccontr)
  assume "\<not> ?thesis"
  then have "\<forall>s \<in> set (slots_of t). s = []" using assms(1) by (auto simp: migrated_def in_set_conv_nth)
  then have "concat (slots_of t) = []" by simp
  then show False using assms(2,3) by (auto simp: nodes_size nodes_def)
qed

text \<open>
  One call of the loop moves 128 nodes, or all there are, and never runs past the last slot.
\<close>

lemma migrate_ok:
  assumes "htab_ok new" "tab new \<noteq> None" "htab_ok old" "migrated old pos" "nwork \<le> k_rehashing_work"
  shows "\<exists>new' old' pos'. migrate nwork new old pos = Some (new', old', pos') \<and>
    htab_ok new' \<and> tab new' \<noteq> None \<and> mask new' = mask new \<and>
    htab_ok old' \<and> (tab old' = None \<longleftrightarrow> tab old = None) \<and> mask old' = mask old \<and> migrated old' pos' \<and>
    nodes new' + nodes old' = nodes new + nodes old \<and>
    nkeys old' = nkeys old - (k_rehashing_work - nwork)"
  using assms
proof (induction nwork new old pos rule: migrate.induct)
  case (1 nwork new old pos)
  note step = migrate.simps [of nwork new old pos]
  show ?case
  proof (cases "nwork < k_rehashing_work \<and> nkeys old > 0")
    case False
    then show ?thesis using 1(3-) by (auto simp: step)
  next
    case True
    have pos: "pos < length (slots_of old)" using migrated_in_bounds 1(5,6) True by blast
    show ?thesis
    proof (cases "slots_of old ! pos = []")
      case empty: True
      have "migrated old (pos + 1)"
        using 1(6) empty by (auto simp: migrated_def less_Suc_eq)
      then show ?thesis using 1(1) [OF True pos empty] 1(3,4,5,7) True pos empty by (simp add: step)
    next
      case full: False
      then have "in_range old (pos, 0)" using pos by (simp add: in_range_def)
      then obtain old' where d: "HTab_detach old (pos, 0) = Some (node_at old (pos, 0), old')"
        "htab_ok old'" "nodes old = add_mset (node_at old (pos, 0)) (nodes old')" "tab old' \<noteq> None"
        "mask old' = mask old" "Suc (nkeys old') = nkeys old"
        "slots_of old' = (slots_of old)[pos := drop 1 (slots_of old ! pos)]"
        using HTab_detach_ok [OF 1(5)] by (metis append_Nil fst_conv snd_conv take0 One_nat_def)
      obtain new' where i: "HTab_insert new (node_at old (pos, 0)) = Some new'" "htab_ok new'"
        "nodes new' = add_mset (node_at old (pos, 0)) (nodes new)" "tab new' \<noteq> None"
        "mask new' = mask new"
        using HTab_insert_ok [OF 1(3,4)] by metis
      have "tab old \<noteq> None" using pos by (auto simp: slots_of_def split: option.splits)
      moreover have "migrated old' pos"
        using 1(6) d(7) by (auto simp: migrated_def)
      moreover have "nkeys old' - (k_rehashing_work - (nwork + 1)) = nkeys old - (k_rehashing_work - nwork)"
        using d(6) True by simp
      moreover have "migrate nwork new old pos = migrate (nwork + 1) new' old' pos"
        using True pos full d(1) i(1) by (simp add: step)
      moreover have "nodes new' + nodes old' = nodes new + nodes old" using d(3) i(3) by simp
      ultimately show ?thesis
        using 1(2) [OF True pos full d(1) refl i(1) i(2) i(4) d(2)] d(4,5) i(5) True
        by (simp del: not_None_eq)
    qed
  qed
qed

subsection \<open>The map's invariant\<close>

text \<open>
  The shape of a reachable map: the threshold of the first table is 32 nodes, so one call of the
  migration empties the old table; afterwards the old table keeps its array and the new one its
  two slots.
\<close>

definition hmap_ok :: "'a hmap \<Rightarrow> bool" where
  "hmap_ok m = (htab_ok (newer m) \<and> htab_ok (older m) \<and> nkeys (older m) = 0 \<and>
     (if tab (older m) = None then tab (newer m) = None \<or> mask (newer m) = 3 \<and> nkeys (newer m) < 32
      else tab (newer m) \<noteq> None \<and> mask (newer m) = 1))"

definition hmap_nodes :: "'a hmap \<Rightarrow> 'a hnode multiset" where
  "hmap_nodes m = nodes (newer m) + nodes (older m)"

lemma nodes_empty: "htab_ok t \<Longrightarrow> nkeys t = 0 \<longleftrightarrow> nodes t = {#}"
  by (simp add: nodes_size)

lemma hmap_ok_older: "hmap_ok m \<Longrightarrow> nodes (older m) = {#}"
  using nodes_empty [of "older m"] by (auto simp: hmap_ok_def)

lemma hmap_ok_nodes: "hmap_ok m \<Longrightarrow> hmap_nodes m = nodes (newer m)"
  by (simp add: hmap_nodes_def hmap_ok_older)

lemma HMap_empty_ok: "hmap_ok HMap_empty" "hmap_nodes HMap_empty = {#}"
  by (simp_all add: HMap_empty_def hmap_ok_def hmap_nodes_def) (simp add: HTab_zombie_def)

lemma HMap_clear_ok: "hmap_ok (HMap_clear m)" "hmap_nodes (HMap_clear m) = {#}"
  by (simp_all add: HMap_clear_def hmap_ok_def hmap_nodes_def) (simp add: HTab_clear_def)

lemma HMap_size_ok: "hmap_ok m \<Longrightarrow> HMap_size m = size (hmap_nodes m)"
  by (simp add: HMap_size_def hmap_ok_nodes) (simp add: hmap_ok_def nodes_size)

lemma help_rehashing_idle:
  assumes "hmap_ok m"
  obtains m' where "HMap_help_rehashing m = Some m'" "hmap_ok m'" "hmap_nodes m' = hmap_nodes m"
    "newer m' = newer m"
proof -
  have "nkeys (older m) = 0" using assms by (simp add: hmap_ok_def)
  then have "migrate 0 (newer m) (older m) (migrate_pos m) = Some (newer m, older m, migrate_pos m)"
    by (simp add: migrate.simps)
  then show ?thesis
    using that assms
    by (auto simp: HMap_help_rehashing_def HTab_move_def hmap_ok_def hmap_nodes_def nodes_empty split: if_splits)
qed

text \<open>The table an insertion starts from.\<close>

definition with_table :: "'a hmap \<Rightarrow> 'a hmap" where
  "with_table m = (if tab (newer m) = None then m\<lparr>newer := HTab_init 4\<rparr> else m)"

lemma with_table_ok:
  fixes m :: "'a hmap"
  assumes "hmap_ok m"
  shows "hmap_ok (with_table m)" "tab (newer (with_table m)) \<noteq> None"
    "hmap_nodes (with_table m) = hmap_nodes m"
proof -
  have "tab (newer m) = None \<Longrightarrow> tab (older m) = None \<and> nodes (newer m) = {#}"
    using assms by (auto simp: hmap_ok_def tab_defs split: if_splits)
  then show "hmap_ok (with_table m)" "tab (newer (with_table m)) \<noteq> None"
    "hmap_nodes (with_table m) = hmap_nodes m"
    using assms HTab_init_ok [where n = 4 and 'a = 'a] by (auto simp: with_table_def hmap_ok_def hmap_nodes_def)
qed

lemma trigger_rehashing_ok:
  fixes new :: "'a htab"
  assumes "htab_ok new" "tab new \<noteq> None" "nkeys new \<le> k_rehashing_work"
    "newer m = new" "older m = HTab_zombie"
  obtains m' where "Option.bind (HMap_trigger_rehashing m) HMap_help_rehashing = Some m'"
    "hmap_ok m'" "hmap_nodes m' = nodes new" "tab (older m') \<noteq> None"
proof -
  note init = HTab_init_ok [where n = 2 and 'a = 'a]
  have mask: "mask (HTab_zombie :: 'a htab) = 0" by (simp add: HTab_zombie_def)
  obtain new' old' pos' where mg: "migrate 0 (HTab_init 2) new 0 = Some (new', old', pos')"
    "htab_ok new'" "tab new' \<noteq> None" "mask new' = 1" "htab_ok old'" "tab old' \<noteq> None"
    "nodes new' + nodes old' = nodes new" "nkeys old' = 0"
    using migrate_ok [of "HTab_init 2" new 0 0] init assms(1-3)
    by (fastforce simp: migrated_def simp del: not_None_eq)
  let ?m = "\<lparr>newer = new', older = old', migrate_pos = pos'\<rparr>"
  have "Option.bind (HMap_trigger_rehashing m) HMap_help_rehashing = Some ?m"
    using mg(1,6) assms(4,5) mask
    by (auto simp add: HMap_trigger_rehashing_def HMap_help_rehashing_def HTab_move_def)
  then show ?thesis using that [of ?m] mg by (simp add: hmap_ok_def hmap_nodes_def)
qed

lemma HMap_insert_ok:
  assumes "hmap_ok m"
  obtains m' where "HMap_insert m n = Some m'" "hmap_ok m'" "hmap_nodes m' = add_mset n (hmap_nodes m)"
proof -
  let ?m = "with_table m"
  note ok = with_table_ok [OF assms]
  obtain new where ins: "HTab_insert (newer ?m) n = Some new" "htab_ok new"
    "nodes new = add_mset n (nodes (newer ?m))" "tab new \<noteq> None" "mask new = mask (newer ?m)"
    "nkeys new = Suc (nkeys (newer ?m))"
    using HTab_insert_ok ok(1,2) by (metis hmap_ok_def)
  let ?n = "?m\<lparr>newer := new\<rparr>"
  have nn: "hmap_nodes m = nodes (newer ?m)" using hmap_ok_nodes ok(1,3) by metis
  let ?full = "tab (older ?n) = None \<and> nkeys (newer ?n) \<ge> unat ((mask (newer ?n) + 1) * k_max_load_factor)"
  have unfold: "HMap_insert m n =
      Option.bind (if ?full then HMap_trigger_rehashing ?n else Some ?n) HMap_help_rehashing"
    using ins(1) by (simp add: HMap_insert_def with_table_def Let_def)
  have limit: "unat ((3 + 1) * k_max_load_factor) = 32" by (simp add: k_max_load_factor_def)
  show ?thesis
  proof (cases ?full)
    case True
    then have old: "tab (older ?m) = None" by simp
    then have m3: "mask (newer ?m) = 3" "nkeys (newer ?m) < 32" using ok(1,2) by (auto simp: hmap_ok_def)
    have "older ?m = HTab_zombie"
      using old ok(1) by (auto simp: hmap_ok_def htab_ok_def HTab_zombie_def)
    then obtain m' where "Option.bind (HMap_trigger_rehashing ?n) HMap_help_rehashing = Some m'"
      "hmap_ok m'" "hmap_nodes m' = nodes new" "tab (older m') \<noteq> None"
      using trigger_rehashing_ok [of new ?n] ins m3 by (auto simp: k_rehashing_work_def)
    then show ?thesis using that ins(3) nn True unfold by simp
  next
    case False
    have "nkeys new < 32" if "tab (older ?m) = None"
    proof -
      have "mask new = 3" using that ok(1,2) ins(5) by (auto simp: hmap_ok_def)
      then show ?thesis using False that limit by simp
    qed
    moreover have "htab_ok (older ?m)" "nkeys (older ?m) = 0"
      "tab (older ?m) = None \<Longrightarrow> mask new = 3" "tab (older ?m) \<noteq> None \<Longrightarrow> mask new = 1"
      using ok(1,2) ins(5) by (metis hmap_ok_def)+
    ultimately have "hmap_ok ?n"
      using ins(2,4) by (cases "tab (older ?m) = None") (auto simp: hmap_ok_def)
    moreover have "hmap_nodes ?n = add_mset n (hmap_nodes m)"
      using hmap_ok_nodes [OF calculation] ins(3) nn by simp
    moreover obtain m' where "HMap_help_rehashing ?n = Some m'" "hmap_ok m'" "hmap_nodes m' = hmap_nodes ?n"
      using help_rehashing_idle [OF calculation(1)] by blast
    moreover have "HMap_insert m n = HMap_help_rehashing ?n" unfolding unfold using False by (simp only: if_False bind.bind_lunit)
    ultimately show ?thesis using that by metis
  qed
qed

lemma HMap_lookup_ok:
  assumes "hmap_ok m"
  obtains (Absent) "HMap_lookup m h eq = Some None" "\<forall>n \<in># hmap_nodes m. \<not> (hcode n = h \<and> eq (item n))"
  | (Present) n where "HMap_lookup m h eq = Some (Some n)" "n \<in># hmap_nodes m" "hcode n = h" "eq (item n)"
proof -
  have ok: "htab_ok (newer m)" "htab_ok (older m)" using assms by (auto simp: hmap_ok_def)
  show ?thesis
  proof (cases rule: HTab_lookup_ok [OF ok(1), of h eq])
    case 1
    note new = 1
    show ?thesis
    proof (cases rule: HTab_lookup_ok [OF ok(2), of h eq])
      case 1
      then show ?thesis using Absent new by (auto simp: HMap_lookup_def hmap_nodes_def)
    next
      case (2 p)
      then have "False" using in_range_mem [OF 2(2)] hmap_ok_older [OF assms] by simp
      then show ?thesis ..
    qed
  next
    case (2 p)
    then show ?thesis
      using Present [of "node_at (newer m) p"] in_range_mem [OF 2(2)]
      by (simp add: HMap_lookup_def hmap_nodes_def)
  qed
qed

lemma HMap_erase_ok:
  assumes "hmap_ok m"
  obtains (Absent) m' where "HMap_erase m h eq = Some (None, m')" "hmap_ok m'"
      "hmap_nodes m' = hmap_nodes m" "\<forall>n \<in># hmap_nodes m. \<not> (hcode n = h \<and> eq (item n))"
  | (Present) n m' where "HMap_erase m h eq = Some (Some n, m')" "hmap_ok m'"
      "hmap_nodes m = add_mset n (hmap_nodes m')" "hcode n = h" "eq (item n)"
proof -
  obtain m1 where m1: "HMap_help_rehashing m = Some m1" "hmap_ok m1" "hmap_nodes m1 = hmap_nodes m"
    using help_rehashing_idle [OF assms] by blast
  have ok: "htab_ok (newer m1)" "htab_ok (older m1)" using m1(2) by (auto simp: hmap_ok_def)
  have nn: "hmap_nodes m = nodes (newer m1)" using hmap_ok_nodes m1(2,3) by metis
  show ?thesis
  proof (cases rule: HTab_lookup_ok [OF ok(1), of h eq])
    case 1
    note new = 1
    show ?thesis
    proof (cases rule: HTab_lookup_ok [OF ok(2), of h eq])
      case 1
      then show ?thesis using Absent [of m1] new m1 nn by (simp add: HMap_erase_def)
    next
      case (2 p)
      then have "False" using in_range_mem [OF 2(2)] hmap_ok_older [OF m1(2)] by simp
      then show ?thesis ..
    qed
  next
    case (2 p)
    obtain t where t: "HTab_detach (newer m1) p = Some (node_at (newer m1) p, t)" "htab_ok t"
      "nodes (newer m1) = add_mset (node_at (newer m1) p) (nodes t)" "tab t \<noteq> None"
      "mask t = mask (newer m1)" "Suc (nkeys t) = nkeys (newer m1)"
      using HTab_detach_ok [OF ok(1) 2(2)] by blast
    have "hmap_ok (m1\<lparr>newer := t\<rparr>)" using m1(2) t 2(3) by (auto simp: hmap_ok_def split: if_splits)
    moreover have "HMap_erase m h eq = Some (Some (node_at (newer m1) p), m1\<lparr>newer := t\<rparr>)"
      using m1(1) 2(1) t(1) by (simp add: HMap_erase_def)
    ultimately show ?thesis
      using Present hmap_ok_nodes [of "m1\<lparr>newer := t\<rparr>"] t(3) nn 2(4,5) by simp
  qed
qed

text \<open>A callback that never stops the walk sees every node once.\<close>

definition walk_order :: "'a hmap \<Rightarrow> 'a hnode list" where
  "walk_order m = concat (slots_of (newer m)) @ concat (slots_of (older m))"

lemma chain_foreach_all: "chain_foreach (\<lambda>n s. (True, g n s)) ns s = (True, fold g ns s)"
  by (induction ns arbitrary: s) auto

lemma HTab_foreach_all:
  assumes "htab_ok t" "mask t \<noteq> 0 \<or> nkeys t = 0"
  shows "HTab_foreach (\<lambda>n s. (True, g n s)) t s = Some (True, fold g (concat (slots_of t)) s)"
proof (cases "mask t = 0")
  case True
  then have "mset (concat (slots_of t)) = {#}"
    using assms nodes_empty [of t] by (simp add: nodes_def)
  then have "concat (slots_of t) = []" by (simp only: mset_zero_iff)
  then show ?thesis using True by (simp add: HTab_foreach_def del: concat_eq_Nil_conv)
next
  case False
  then obtain slots where "tab t = Some slots" "length slots = Suc (unat (mask t))"
    using assms(1) by (auto simp: htab_ok_def split: option.splits)
  then show ?thesis using False by (simp add: HTab_foreach_def chain_foreach_all slots_of_def)
qed

lemma HMap_foreach_all:
  assumes "hmap_ok m"
  shows "HMap_foreach (\<lambda>n s. (True, g n s)) m s = Some (fold g (walk_order m) s)"
    "mset (walk_order m) = hmap_nodes m"
proof -
  have ok: "htab_ok (newer m)" "htab_ok (older m)" "nkeys (older m) = 0"
    using assms by (auto simp: hmap_ok_def)
  have new: "mask (newer m) \<noteq> 0 \<or> nkeys (newer m) = 0"
    using assms by (auto simp: hmap_ok_def htab_ok_def split: if_splits)
  then show "HMap_foreach (\<lambda>n s. (True, g n s)) m s = Some (fold g (walk_order m) s)"
    using ok(3)
    by (simp add: HMap_foreach_def walk_order_def HTab_foreach_all [OF ok(1) new] HTab_foreach_all [OF ok(2)])
qed (simp add: walk_order_def hmap_nodes_def nodes_def)

subsection \<open>Indexes by key\<close>

text \<open>
  What a client stores: every node carries the hash of its item's key, and no two items share a
  key. The locale derives the finite map the client sees.
\<close>

definition keyed :: "('a \<Rightarrow> 'k) \<Rightarrow> ('k \<Rightarrow> u64) \<Rightarrow> 'a hnode multiset \<Rightarrow> bool" where
  "keyed key hash N = ((\<forall>n \<in># N. hcode n = hash (key (item n))) \<and>
     (\<forall>k. size {#n \<in># N. key (item n) = k#} \<le> 1))"

definition node_for :: "('a \<Rightarrow> 'k) \<Rightarrow> ('k \<Rightarrow> u64) \<Rightarrow> 'a \<Rightarrow> 'a hnode" where
  "node_for key hash x = \<lparr>hcode = hash (key x), item = x\<rparr>"

lemma keyed_unique:
  assumes "keyed key hash N" "n \<in># N" "m \<in># N" "key (item n) = key (item m)"
  shows "n = m"
proof (rule ccontr)
  assume ne: "n \<noteq> m"
  let ?F = "{#x \<in># N. key (item x) = key (item n)#}"
  have "n \<in># ?F" "m \<in># ?F" using assms by auto
  moreover from this have "m \<in># ?F - {#n#}" using ne by (simp add: in_diff_count)
  ultimately have "n \<in># ?F" "m \<in># ?F - {#n#}" by auto
  then have "size ?F \<noteq> 0" "size (?F - {#n#}) \<noteq> 0" by auto
  moreover have "size (?F - {#n#}) = size ?F - 1" using \<open>n \<in># ?F\<close> by (rule size_Diff_singleton)
  moreover have "size ?F \<le> 1" using assms(1) by (simp add: keyed_def)
  ultimately show False by simp
qed

locale keyed_index =
  fixes inv :: "'m \<Rightarrow> bool"
    and content :: "'m \<Rightarrow> 'a hnode multiset"
    and insert_node :: "'m \<Rightarrow> 'a hnode \<Rightarrow> 'm option"
    and find_node :: "'m \<Rightarrow> u64 \<Rightarrow> ('a \<Rightarrow> bool) \<Rightarrow> 'a hnode option option"
    and erase_node :: "'m \<Rightarrow> u64 \<Rightarrow> ('a \<Rightarrow> bool) \<Rightarrow> ('a hnode option \<times> 'm) option"
  assumes insert_law: "inv m \<Longrightarrow>
      \<exists>m'. insert_node m n = Some m' \<and> inv m' \<and> content m' = add_mset n (content m)"
    and find_law: "inv m \<Longrightarrow>
      find_node m h eq = Some None \<and> (\<forall>n \<in># content m. \<not> (hcode n = h \<and> eq (item n))) \<or>
      (\<exists>n. find_node m h eq = Some (Some n) \<and> n \<in># content m \<and> hcode n = h \<and> eq (item n))"
    and erase_law: "inv m \<Longrightarrow>
      (\<exists>m'. erase_node m h eq = Some (None, m') \<and> inv m' \<and> content m' = content m \<and>
         (\<forall>n \<in># content m. \<not> (hcode n = h \<and> eq (item n)))) \<or>
      (\<exists>n m'. erase_node m h eq = Some (Some n, m') \<and> inv m' \<and> content m = add_mset n (content m') \<and>
         hcode n = h \<and> eq (item n))"
begin

text \<open>The items by key.\<close>

lemma find_agree:
  assumes "inv m" "keyed key hash (content m)" "\<And>n. n \<in># content m \<Longrightarrow> eq (item n) \<longleftrightarrow> key (item n) = k"
  shows "find_node m (hash k) eq = Some (Some n) \<longleftrightarrow> n \<in># content m \<and> key (item n) = k"
    "find_node m (hash k) eq = Some None \<longleftrightarrow> (\<forall>n \<in># content m. key (item n) \<noteq> k)"
  using find_law [OF assms(1), of "hash k" eq] keyed_unique [OF assms(2)] assms(2,3)
  by (auto simp: keyed_def)

lemma find_key:
  assumes "inv m" "keyed key hash (content m)"
  shows "find_node m (hash k) (\<lambda>x. key x = k) = Some (Some n) \<longleftrightarrow> n \<in># content m \<and> key (item n) = k"
    "find_node m (hash k) (\<lambda>x. key x = k) = Some None \<longleftrightarrow> (\<forall>n \<in># content m. key (item n) \<noteq> k)"
  by (rule find_agree [OF assms], simp)+

lemma find_total:
  "inv m \<Longrightarrow> find_node m h eq \<noteq> None"
  using find_law [of m h eq] by auto

lemma insert_keyed:
  assumes "inv m" "keyed key hash (content m)" "\<forall>n \<in># content m. key (item n) \<noteq> key x"
    "insert_node m (node_for key hash x) = Some m'"
  shows "inv m'" "keyed key hash (content m')" "content m' = add_mset (node_for key hash x) (content m)"
proof -
  show 1: "inv m'" "content m' = add_mset (node_for key hash x) (content m)"
    using insert_law [OF assms(1), of "node_for key hash x"] assms(4) by auto
  have "{#n \<in># content m. key (item n) = key x#} = {#}"
    using assms(3) by (simp add: filter_mset_eq_mempty_iff)
  then show "keyed key hash (content m')"
    using assms(2) by (auto simp: keyed_def 1(2) node_for_def)
qed

lemma erase_keyed:
  assumes "inv m" "keyed key hash (content m)" "\<And>n. n \<in># content m \<Longrightarrow> eq (item n) \<longleftrightarrow> key (item n) = k"
  obtains (Absent) m' where "erase_node m (hash k) eq = Some (None, m')" "inv m'"
      "content m' = content m" "\<forall>n \<in># content m. key (item n) \<noteq> k"
  | (Present) n m' where "erase_node m (hash k) eq = Some (Some n, m')" "inv m'"
      "content m = add_mset n (content m')" "key (item n) = k" "keyed key hash (content m')"
      "\<forall>n \<in># content m'. key (item n) \<noteq> k"
proof -
  consider m' where "erase_node m (hash k) eq = Some (None, m')" "inv m'"
      "content m' = content m" "\<forall>n \<in># content m. \<not> (hcode n = hash k \<and> key (item n) = k)"
    | n m' where "erase_node m (hash k) eq = Some (Some n, m')" "inv m'"
      "content m = add_mset n (content m')" "key (item n) = k"
    using erase_law [OF assms(1), of "hash k" eq] assms(3) by (metis union_single_eq_member)
  then show ?thesis
  proof cases
    case 1
    then show ?thesis using Absent assms(2) by (auto simp: keyed_def)
  next
    case (2 n m')
    have le: "size {#x \<in># content m'. key (item x) = j#} \<le> size {#x \<in># content m. key (item x) = j#}" for j
      unfolding 2(3) by simp
    have k: "keyed key hash (content m')"
      using assms(2) le 2(3) unfolding keyed_def by (auto intro: order_trans)
    have "size {#x \<in># content m. key (item x) = k#} \<le> 1" using assms(2) by (simp add: keyed_def)
    then have "{#x \<in># content m'. key (item x) = k#} = {#}" unfolding 2(3) using 2(4) by simp
    then show ?thesis using Present 2 k by (auto simp: filter_mset_eq_mempty_iff)
  qed
qed

end

interpretation hm: keyed_index hmap_ok hmap_nodes HMap_insert HMap_lookup HMap_erase
proof (unfold_locales, goal_cases)
  case (1 m n)
  then show ?case using HMap_insert_ok by metis
next
  case (2 m h eq)
  then show ?case by (cases rule: HMap_lookup_ok [OF 2, of h eq]) auto
next
  case (3 m h eq)
  then show ?case by (cases rule: HMap_erase_ok [OF 3, of h eq]) auto
qed

subsection \<open>Reachable maps\<close>

inductive hmap_reach :: "'a hmap \<Rightarrow> bool" where
  empty: "hmap_reach HMap_empty"
| insert: "hmap_reach m \<Longrightarrow> HMap_insert m n = Some m' \<Longrightarrow> hmap_reach m'"
| erase: "hmap_reach m \<Longrightarrow> HMap_erase m h eq = Some (found, m') \<Longrightarrow> hmap_reach m'"
| clear: "hmap_reach m \<Longrightarrow> hmap_reach (HMap_clear m)"
| swap: "hmap_reach m \<Longrightarrow> hmap_reach m' \<Longrightarrow> hmap_reach (fst (HMap_swap m m'))"

inductive_cases hmap_reachE: "hmap_reach m"

lemma hmap_reach_ok: "hmap_reach m \<Longrightarrow> hmap_ok m"
proof (induction rule: hmap_reach.induct)
  case (insert m n m')
  then show ?case using hm.insert_law [of m n] by auto
next
  case (erase m h eq found m')
  then show ?case using hm.erase_law [of m h eq] by auto
qed (simp_all add: HMap_empty_ok HMap_clear_ok)

lemma slots_le_4: "hmap_ok m \<Longrightarrow> length (slots_of (newer m)) \<le> 4"
  by (auto simp: hmap_ok_def htab_ok_def slots_of_def split: if_splits option.splits)

lemma long_chain:
  assumes "length xss \<le> n" "n * k < length (concat xss)"
  obtains xs where "xs \<in> set xss" "k < length xs"
proof -
  have "length (concat xss) \<le> length xss * k" if "\<forall>xs \<in> set xss. length xs \<le> k"
    using that by (induction xss) auto
  moreover have "length xss * k \<le> n * k" using assms(1) by simp
  ultimately show ?thesis using that assms(2) by (meson leD le_trans not_le)
qed

lemma frozen_slots:
  "hmap_ok m \<Longrightarrow> tab (older m) \<noteq> None \<Longrightarrow> length (slots_of (newer m)) = 2"
  by (auto simp: hmap_ok_def htab_ok_def slots_of_def)

lemma HMap_insert_frozen:
  assumes "hmap_ok m" "tab (older m) \<noteq> None" "HMap_insert m n = Some m'"
  shows "tab (older m') \<noteq> None"
proof -
  have "tab (newer m) \<noteq> None" "nkeys (older m) = 0" using assms by (auto simp: hmap_ok_def)
  then show ?thesis
    using assms(2,3)
    by (auto simp: HMap_insert_def HMap_help_rehashing_def Let_def bind_simps migrate.simps split: if_splits)
qed

text \<open>Inserting many nodes; a sample map on which the rehashing has happened.\<close>

definition insert_all :: "'a hnode list \<Rightarrow> 'a hmap \<Rightarrow> 'a hmap option" where
  "insert_all ns m = fold (\<lambda>n m. Option.bind m (\<lambda>m. HMap_insert m n)) ns (Some m)"

lemma fold_bind_None: "fold (\<lambda>n m. Option.bind m (f n)) ns None = None"
  by (induction ns) auto

lemma insert_all_reach: "insert_all ns m = Some m' \<Longrightarrow> hmap_reach m \<Longrightarrow> hmap_reach m'"
proof (induction ns arbitrary: m)
  case (Cons n ns)
  then obtain m1 where "HMap_insert m n = Some m1" "insert_all ns m1 = Some m'"
    by (cases "HMap_insert m n") (auto simp: insert_all_def fold_bind_None)
  then show ?case using Cons hmap_reach.insert by blast
qed (simp add: insert_all_def)

definition sample_map :: "nat hmap option" where
  "sample_map = insert_all (map (\<lambda>i. \<lparr>hcode = of_nat i, item = i\<rparr>) [0..<33]) HMap_empty"

subsection \<open>Properties\<close>

text \<open>C15: Inserting into a hash map in any reachable shape returns (the assertion on the old
  table holds, no access is out of bounds), keeps the invariant, and adds exactly the node, whether
  or not the insertion triggers and runs a rehashing.\<close>

theorem HMap_insert_correct:
  assumes "hmap_reach m"
  shows "\<exists>m'. HMap_insert m n = Some m' \<and> hmap_ok m' \<and> hmap_nodes m' = add_mset n (hmap_nodes m) \<and>
    HMap_size m' = Suc (HMap_size m)"
  using hm.insert_law [OF hmap_reach_ok [OF assms], of n] HMap_size_ok hmap_reach_ok [OF assms]
  by (metis size_add_mset)

lemma HMap_insert_correct_witness:
  "\<exists>m'. HMap_insert HMap_empty \<lparr>hcode = 7, item = (3::nat)\<rparr> = Some m' \<and> hmap_ok m' \<and>
     hmap_nodes m' = {#\<lparr>hcode = 7, item = 3\<rparr>#}"
  using HMap_insert_correct [OF hmap_reach.empty, of "\<lparr>hcode = 7, item = (3::nat)\<rparr>"]
  by (auto simp: HMap_empty_ok)

text \<open>C17: A lookup in a map whose items have distinct keys and carry the hash of their key
  returns the item of the key, in whichever of the two tables it is, and null exactly when there
  is none; it never touches memory out of bounds.\<close>

theorem HMap_lookup_correct:
  assumes "hmap_reach m" "keyed key hash (hmap_nodes m)"
  shows "\<exists>r. HMap_lookup m (hash k) (\<lambda>x. key x = k) = Some r \<and>
    (case r of None \<Rightarrow> \<forall>n \<in># hmap_nodes m. key (item n) \<noteq> k
     | Some n \<Rightarrow> n \<in># hmap_nodes m \<and> key (item n) = k)"
proof -
  obtain r where r: "HMap_lookup m (hash k) (\<lambda>x. key x = k) = Some r"
    using hm.find_total [OF hmap_reach_ok [OF assms(1)]] by (metis not_None_eq)
  show ?thesis
  proof (cases r)
    case None
    then show ?thesis
      using hm.find_key(2) [OF hmap_reach_ok [OF assms(1)] assms(2), of k] r by fastforce
  next
    case (Some n)
    then show ?thesis
      using hm.find_key(1) [OF hmap_reach_ok [OF assms(1)] assms(2), of k] r by fastforce
  qed
qed

text \<open>A map with one node.\<close>

lemma one_node:
  obtains m where "HMap_insert HMap_empty \<lparr>hcode = 7, item = (3::nat)\<rparr> = Some m" "hmap_reach m"
    "hmap_nodes m = {#\<lparr>hcode = 7, item = 3\<rparr>#}" "keyed id (\<lambda>x. 7) (hmap_nodes m)"
proof -
  obtain m where m: "HMap_insert HMap_empty \<lparr>hcode = 7, item = (3::nat)\<rparr> = Some m" "hmap_nodes m = {#\<lparr>hcode = 7, item = 3\<rparr>#}"
    using hm.insert_law [OF HMap_empty_ok(1), of "\<lparr>hcode = 7, item = (3::nat)\<rparr>"]
    unfolding HMap_empty_ok(2) by (elim exE conjE) (rule that)
  moreover have "keyed id (\<lambda>x. 7) (hmap_nodes m)" unfolding m(2) by (simp add: keyed_def)
  ultimately show ?thesis using that hmap_reach.insert [OF hmap_reach.empty m(1)] by blast
qed

lemma HMap_lookup_correct_witness:
  "\<exists>m. HMap_insert HMap_empty \<lparr>hcode = 7, item = (3::nat)\<rparr> = Some m \<and>
    HMap_lookup m 7 (\<lambda>x. x = 3) = Some (Some \<lparr>hcode = 7, item = 3\<rparr>) \<and> HMap_lookup m 7 (\<lambda>x. x = 4) = Some None"
proof -
  obtain m where m: "HMap_insert HMap_empty \<lparr>hcode = 7, item = (3::nat)\<rparr> = Some m" "hmap_reach m"
    "hmap_nodes m = {#\<lparr>hcode = 7, item = 3\<rparr>#}" "keyed id (\<lambda>x. 7) (hmap_nodes m)" by (rule one_node)
  show ?thesis using HMap_lookup_correct [OF m(2,4), of 3] HMap_lookup_correct [OF m(2,4), of 4] m(1,3)
    by (auto split: option.splits)
qed

text \<open>C16: Erasing a key removes its node and no other, and reports it; a missing key leaves the
  contents as they are. After an erase the key is absent and its node can be inserted again, which
  gives the original contents back.\<close>

theorem HMap_erase_correct:
  assumes "hmap_reach m" "keyed key hash (hmap_nodes m)"
  shows "\<exists>found m'. HMap_erase m (hash k) (\<lambda>x. key x = k) = Some (found, m') \<and> hmap_ok m' \<and>
    keyed key hash (hmap_nodes m') \<and> (\<forall>n \<in># hmap_nodes m'. key (item n) \<noteq> k) \<and>
    (case found of
       None \<Rightarrow> hmap_nodes m' = hmap_nodes m
     | Some n \<Rightarrow> key (item n) = k \<and> hmap_nodes m' = hmap_nodes m - {#n#} \<and>
         (\<exists>m''. HMap_insert m' n = Some m'' \<and> hmap_nodes m'' = hmap_nodes m))"
  using hm.erase_keyed [OF hmap_reach_ok [OF assms(1)] assms(2), of "\<lambda>x. key x = k" k, OF refl]
proof cases
  case (1 m')
  then show ?thesis using assms(2) by auto
next
  case (2 n m')
  then show ?thesis using hm.insert_law [of m' n] by auto
qed

lemma HMap_erase_correct_witness:
  "\<exists>m m'. HMap_insert HMap_empty \<lparr>hcode = 7, item = (3::nat)\<rparr> = Some m \<and>
    HMap_erase m 7 (\<lambda>x. x = 3) = Some (Some \<lparr>hcode = 7, item = 3\<rparr>, m') \<and> hmap_nodes m' = {#}"
proof -
  obtain m where m: "HMap_insert HMap_empty \<lparr>hcode = 7, item = (3::nat)\<rparr> = Some m" "hmap_reach m"
    "hmap_nodes m = {#\<lparr>hcode = 7, item = 3\<rparr>#}" "keyed id (\<lambda>x. 7) (hmap_nodes m)" by (rule one_node)
  obtain found m' where e: "HMap_erase m 7 (\<lambda>x. x = 3) = Some (found, m')" "\<forall>n \<in># hmap_nodes m'. item n \<noteq> 3"
    "case found of None \<Rightarrow> hmap_nodes m' = hmap_nodes m | Some n \<Rightarrow> item n = 3 \<and> hmap_nodes m' = hmap_nodes m - {#n#}"
    using HMap_erase_correct [OF m(2,4), of 3] by (auto split: option.splits)
  obtain n where n: "found = Some n" using e(2,3) m(3) by (cases found) auto
  have "n = \<lparr>hcode = 7, item = 3\<rparr>"
  proof (rule ccontr)
    assume "n \<noteq> \<lparr>hcode = 7, item = 3\<rparr>"
    then have "\<lparr>hcode = 7, item = 3\<rparr> \<in># hmap_nodes m'" using e(3) m(3) n by auto
    then show False using e(2) by auto
  qed
  then show ?thesis using m(1,3) e(1,3) n by auto
qed

text \<open>C34: One call of the migration loop on any pair of tables, from any migration position
  before the first non-empty slot, ends, stays inside the old array, loses and duplicates no node,
  and moves exactly 128 nodes, or all that are left.\<close>

theorem migrate_correct:
  assumes "htab_ok new" "tab new \<noteq> None" "htab_ok old" "migrated old pos"
  shows "\<exists>new' old' pos'. migrate 0 new old pos = Some (new', old', pos') \<and>
    htab_ok new' \<and> htab_ok old' \<and> migrated old' pos' \<and>
    nodes new' + nodes old' = nodes new + nodes old \<and> nkeys old' = nkeys old - 128"
  using migrate_ok [OF assms, of 0] by (auto simp: k_rehashing_work_def)

lemma migrate_correct_witness:
  "\<exists>new' old' pos'. migrate 0 (HTab_init 4) \<lparr>tab = Some [[], [\<lparr>hcode = 1, item = (7::nat)\<rparr>]], mask = 1, nkeys = 1\<rparr> 1 = Some (new', old', pos') \<and>
     nodes new' + nodes old' = {#\<lparr>hcode = 1, item = 7\<rparr>#} \<and> nkeys old' = 0"
proof -
  let ?old = "\<lparr>tab = Some [[], [\<lparr>hcode = 1, item = (7::nat)\<rparr>]], mask = 1, nkeys = 1\<rparr>"
  have "htab_ok ?old" "migrated ?old 1" by (auto simp: htab_ok_def migrated_def slots_of_def less_Suc_eq)
  then show ?thesis
    using migrate_correct [of "HTab_init 4 :: nat htab" ?old 1] HTab_init_ok [where 'a = nat, of 4]
    by (auto simp: nodes_def slots_of_def)
qed

text \<open>C33: No sequence of operations gives the map more than four slots, so that with \<open>n\<close> keys
  some chain holds at least a quarter of them; once a rehashing has happened the new table has two
  slots, and the old one, empty but never freed, prevents every later rehashing.\<close>

theorem HMap_slots_bounded:
  assumes "hmap_reach m"
  shows "length (slots_of (newer m)) \<le> 4 \<and>
    (\<forall>k. 4 * k < HMap_size m \<longrightarrow> (\<exists>chain \<in> set (slots_of (newer m)). k < length chain)) \<and>
    (tab (older m) \<noteq> None \<longrightarrow> length (slots_of (newer m)) = 2 \<and> nkeys (older m) = 0 \<and>
      (\<forall>n m'. HMap_insert m n = Some m' \<longrightarrow>
         tab (older m') \<noteq> None \<and> length (slots_of (newer m')) = 2))"
proof (intro conjI allI impI)
  note ok = hmap_reach_ok [OF assms]
  show "length (slots_of (newer m)) \<le> 4" by (rule slots_le_4 [OF ok])
  show "\<exists>chain \<in> set (slots_of (newer m)). k < length chain" if "4 * k < HMap_size m" for k
  proof -
    have "HMap_size m = length (concat (slots_of (newer m)))"
      unfolding HMap_size_ok [OF ok] hmap_ok_nodes [OF ok] nodes_def by (rule size_mset)
    then show ?thesis using long_chain [OF slots_le_4 [OF ok]] that by metis
  qed
  assume older: "tab (older m) \<noteq> None"
  show "length (slots_of (newer m)) = 2" "nkeys (older m) = 0"
    using frozen_slots [OF ok older] ok by (simp_all add: hmap_ok_def)
  fix n m' assume i: "HMap_insert m n = Some m'"
  then show "tab (older m') \<noteq> None" using HMap_insert_frozen [OF ok older] by simp
  then show "length (slots_of (newer m')) = 2"
    using frozen_slots hm.insert_law [OF ok, of n] i by auto
qed

lemma HMap_slots_bounded_witness:
  "\<exists>m. sample_map = Some m \<and> length (slots_of (newer m)) = 2 \<and>
     (\<exists>chain \<in> set (slots_of (newer m)). 8 < length chain)"
proof -
  have eval: "map_option (\<lambda>m. (tab (older m) \<noteq> None, HMap_size m)) sample_map = Some (True, 33)"
    by code_simp
  then obtain m where m: "sample_map = Some m" "tab (older m) \<noteq> None" "HMap_size m = 33" by auto
  moreover have "hmap_reach m"
    using insert_all_reach hmap_reach.empty m(1) unfolding sample_map_def by blast
  ultimately show ?thesis using HMap_slots_bounded [of m] by auto
qed

end
