(* ===== verification/MRD_Zset.thy ===== *)
theory MRD_Zset
  imports MRD_Zorder MRD_AvlSeq MRD_Hashtable
begin

text \<open>
  The sorted sets of \<^verbatim>\<open>shared/src/MRD_zset.cpp\<close>: every member is one object that is at once a node of
  the AVL tree and a node of the hash index. The object's tree links are in the tree store, its
  score and name in \<open>info\<close>; both stores have the live objects as domain. Objects are allocated at
  addresses that were not used before.
\<close>

record zset =
  root :: "addr option"
  index :: "addr hmap"
  tree :: avl_heap
  info :: "addr \<rightharpoonup> zinfo"
  brk :: addr

definition ZSet_empty :: zset where
  "ZSet_empty = \<lparr>root = None, index = HMap_empty, tree = Map.empty, info = Map.empty, brk = 0\<rparr>"

text \<open>A new object, with the hash of its name in its index node.\<close>

definition ZNode_new :: "bytes \<Rightarrow> u64 \<Rightarrow> zset \<Rightarrow> addr hnode \<times> zset" where
  "ZNode_new name score z =
    (\<lparr>hcode = str_hash name, item = brk z\<rparr>,
     z\<lparr>tree := (tree z)(brk z \<mapsto> AVLNode_init), info := (info z)(brk z \<mapsto> (score, name)),
       brk := brk z + 1\<rparr>)"

definition ZNode_offset :: "zset \<Rightarrow> addr option \<Rightarrow> int \<Rightarrow> addr option option" where
  "ZNode_offset z node off =
    (case node of None \<Rightarrow> Some None | Some a \<Rightarrow> AVLNode_offset (tree z) a off)"

text \<open>The comparison of an index node with a key.\<close>

definition names_eq :: "zset \<Rightarrow> bytes \<Rightarrow> addr \<Rightarrow> bool" where
  "names_eq z key a = (case info z a of None \<Rightarrow> False | Some (_, n) \<Rightarrow> hcmp n key)"

definition ZSet_lookup :: "zset \<Rightarrow> bytes \<Rightarrow> addr option option" where
  "ZSet_lookup z name =
    (if root z = None then Some None
     else do {
       found \<leftarrow> HMap_lookup (index z) (str_hash name) (names_eq z name);
       Some (map_option item found)
     })"

text \<open>Deletion unlinks the object from the index and the tree and frees it.\<close>

definition ZSet_del :: "zset \<Rightarrow> addr \<Rightarrow> zset option" where
  "ZSet_del z node = do {
     (_, name) \<leftarrow> info z node;
     (found, idx) \<leftarrow> HMap_erase (index z) (str_hash name) (names_eq z name);
     (H, r) \<leftarrow> AVLNode_del node (tree z);
     Some (z\<lparr>index := idx, root := r, tree := H(node := None), info := (info z)(node := None)\<rparr>)
   }"

definition ZSet_rem :: "zset \<Rightarrow> bytes \<Rightarrow> (bool \<times> zset) option" where
  "ZSet_rem z name = do {
     node \<leftarrow> ZSet_lookup z name;
     (case node of None \<Rightarrow> Some (False, z)
      | Some a \<Rightarrow> do { z \<leftarrow> ZSet_del z a; Some (True, z) })
   }"

text \<open>
  The search of \<^verbatim>\<open>tree_insert\<close> for a place: \<open>lt\<close> compares the new node with the node it meets.
\<close>

partial_function (option) tree_descend ::
  "avl_heap \<Rightarrow> (addr \<Rightarrow> bool option) \<Rightarrow> addr option \<Rightarrow> link \<Rightarrow> addr option \<Rightarrow> (link \<times> addr option) option"
where
  "tree_descend H lt cur from par =
    (case cur of None \<Rightarrow> Some (from, par)
     | Some p \<Rightarrow> do {
         n \<leftarrow> H p;
         b \<leftarrow> lt p;
         (if b then tree_descend H lt (left n) (LeftOf p) (Some p)
          else tree_descend H lt (right n) (RightOf p) (Some p))
       })"

declare tree_descend.simps [code]

definition zless_at :: "zset \<Rightarrow> addr \<Rightarrow> addr \<Rightarrow> bool option" where
  "zless_at z a b = do { x \<leftarrow> info z a; y \<leftarrow> info z b; Some (zless x y) }"

definition ZSet_tree_insert :: "zset \<Rightarrow> addr \<Rightarrow> zset option" where
  "ZSet_tree_insert z node = do {
     (from, par) \<leftarrow> tree_descend (tree z) (zless_at z node) (root z) LocalVar None;
     H \<leftarrow> store_link from (Some node) (tree z);
     H \<leftarrow> upd_at node (\<lambda>n. n\<lparr>parent := par\<rparr>) H;
     (H, r) \<leftarrow> AVLNode_fix node H;
     Some (z\<lparr>tree := H, root := Some r\<rparr>)
   }"

definition ZSet_update :: "zset \<Rightarrow> addr \<Rightarrow> u64 \<Rightarrow> zset option" where
  "ZSet_update z node score = do {
     (H, r) \<leftarrow> AVLNode_del node (tree z);
     let z = z\<lparr>tree := H, root := r\<rparr>;
     H \<leftarrow> upd_at node (\<lambda>_. AVLNode_init) (tree z);
     let z = z\<lparr>tree := H\<rparr>;
     (_, name) \<leftarrow> info z node;
     let z = z\<lparr>info := (info z)(node \<mapsto> (score, name))\<rparr>;
     ZSet_tree_insert z node
   }"

definition ZSet_insert :: "zset \<Rightarrow> bytes \<Rightarrow> u64 \<Rightarrow> (bool \<times> zset) option" where
  "ZSet_insert z name score = do {
     node \<leftarrow> ZSet_lookup z name;
     (case node of
        Some a \<Rightarrow> do { z \<leftarrow> ZSet_update z a score; Some (False, z) }
      | None \<Rightarrow> do {
          let (h_node, z) = ZNode_new name score z;
          idx \<leftarrow> HMap_insert (index z) h_node;
          z \<leftarrow> ZSet_tree_insert (z\<lparr>index := idx\<rparr>) (item h_node);
          Some (True, z)
        })
   }"

definition ZSet_rank :: "zset \<Rightarrow> bytes \<Rightarrow> int option" where
  "ZSet_rank z name = do {
     node \<leftarrow> ZSet_lookup z name;
     (case node of None \<Rightarrow> Some 0 | Some a \<Rightarrow> AVLNode_rank (tree z) a)
   }"

text \<open>The private \<^verbatim>\<open>tree_delete\<close> searches by \<^verbatim>\<open>zeq\<close> and \<^verbatim>\<open>zless\<close>; it has no caller.\<close>

partial_function (option) tree_find ::
  "zset \<Rightarrow> addr \<Rightarrow> addr option \<Rightarrow> addr option option" where
  "tree_find z node cur =
    (case cur of None \<Rightarrow> Some None
     | Some c \<Rightarrow> do {
         x \<leftarrow> info z node;
         y \<leftarrow> info z c;
         n \<leftarrow> tree z c;
         (if zeq x y then Some (Some c)
          else tree_find z node (if zless x y then left n else right n))
       })"

declare tree_find.simps [code]

definition ZSet_tree_delete :: "zset \<Rightarrow> addr \<Rightarrow> (bool \<times> zset) option" where
  "ZSet_tree_delete z node = do {
     cur \<leftarrow> tree_find z node (root z);
     (case cur of None \<Rightarrow> Some (False, z)
      | Some c \<Rightarrow> do {
          (H, r) \<leftarrow> AVLNode_del c (tree z);
          Some (True, z\<lparr>root := r, tree := H(c := None), info := (info z)(c := None)\<rparr>)
        })
   }"

partial_function (option) tree_dispose :: "addr option \<Rightarrow> avl_heap \<Rightarrow> avl_heap option" where
  "tree_dispose node H =
    (case node of None \<Rightarrow> Some H
     | Some a \<Rightarrow> do {
         n \<leftarrow> H a;
         H \<leftarrow> tree_dispose (left n) H;
         n \<leftarrow> H a;
         H \<leftarrow> tree_dispose (right n) H;
         oguard (H a \<noteq> None);
         Some (H(a := None))
       })"

declare tree_dispose.simps [code]

text \<open>The loops of the two range searches: \<open>skip\<close> compares a node with the bound.\<close>

partial_function (option) seekge_loop ::
  "avl_heap \<Rightarrow> (addr \<Rightarrow> bool option) \<Rightarrow> addr option \<Rightarrow> addr option \<Rightarrow> addr option option" where
  "seekge_loop H skip node found =
    (case node of None \<Rightarrow> Some found
     | Some a \<Rightarrow> do {
         n \<leftarrow> H a;
         b \<leftarrow> skip a;
         (if b then seekge_loop H skip (right n) found else seekge_loop H skip (left n) (Some a))
       })"

declare seekge_loop.simps [code]

partial_function (option) seekle_loop ::
  "avl_heap \<Rightarrow> (addr \<Rightarrow> bool option) \<Rightarrow> addr option \<Rightarrow> addr option \<Rightarrow> addr option option" where
  "seekle_loop H skip node found =
    (case node of None \<Rightarrow> Some found
     | Some a \<Rightarrow> do {
         n \<leftarrow> H a;
         b \<leftarrow> skip a;
         (if b then seekle_loop H skip (left n) found else seekle_loop H skip (right n) (Some a))
       })"

declare seekle_loop.simps [code]

definition ZSet_seekge :: "zset \<Rightarrow> u64 \<Rightarrow> bytes \<Rightarrow> addr option option" where
  "ZSet_seekge z score name =
    seekge_loop (tree z) (\<lambda>a. do { x \<leftarrow> info z a; Some (zless x (score, name)) }) (root z) None"

definition ZSet_seekle :: "zset \<Rightarrow> u64 \<Rightarrow> bytes \<Rightarrow> addr option option" where
  "ZSet_seekle z score name =
    seekle_loop (tree z) (\<lambda>a. do { x \<leftarrow> info z a; Some (zgreater x (score, name)) }) (root z) None"

text \<open>Copying inserts the members in preorder; assignment and moving swap.\<close>

partial_function (option) set_cpy :: "zset \<Rightarrow> addr option \<Rightarrow> zset \<Rightarrow> zset option" where
  "set_cpy rhs node to_cpy =
    (case node of None \<Rightarrow> Some to_cpy
     | Some a \<Rightarrow> do {
         (score, name) \<leftarrow> info rhs a;
         (_, to_cpy) \<leftarrow> ZSet_insert to_cpy name score;
         n \<leftarrow> tree rhs a;
         to_cpy \<leftarrow> set_cpy rhs (left n) to_cpy;
         set_cpy rhs (right n) to_cpy
       })"

declare set_cpy.simps [code]

definition ZSet_copy :: "zset \<Rightarrow> zset option" where
  "ZSet_copy rhs = set_cpy rhs (root rhs) ZSet_empty"

text \<open>A swap exchanges the roots and the maps, and with them the objects that they lead to.\<close>

definition ZSet_swap :: "zset \<Rightarrow> zset \<Rightarrow> zset \<times> zset" where
  "ZSet_swap lhs rhs =
    (let (l, r) = HMap_swap (index lhs) (index rhs)
     in (lhs\<lparr>root := root rhs, index := l, tree := tree rhs, info := info rhs, brk := brk rhs\<rparr>,
         rhs\<lparr>root := root lhs, index := r, tree := tree lhs, info := info lhs, brk := brk lhs\<rparr>))"

text \<open>The move constructor, and the assignments, which swap with their argument.\<close>

definition ZSet_take :: "zset \<Rightarrow> zset \<times> zset" where
  "ZSet_take other = ZSet_swap ZSet_empty other"

definition ZSet_assign :: "zset \<Rightarrow> zset \<Rightarrow> zset \<times> zset" where
  "ZSet_assign lhs rhs = ZSet_swap lhs rhs"

lemma ZSet_swap_eq [simp]: "ZSet_swap lhs rhs = (rhs, lhs)"
  by (cases lhs, cases rhs) (simp add: ZSet_swap_def)

lemma ZSet_take_eq: "ZSet_take z = (z, ZSet_empty)" and ZSet_assign_eq: "ZSet_assign lhs rhs = (rhs, lhs)"
  by (simp_all add: ZSet_take_def ZSet_assign_def)

subsection \<open>The representation\<close>

definition name_at :: "zset \<Rightarrow> addr \<Rightarrow> bytes" where
  "name_at z a = snd (the (info z a))"

definition score_at :: "zset \<Rightarrow> addr \<Rightarrow> u64" where
  "score_at z a = fst (the (info z a))"

definition key_at :: "zset \<Rightarrow> addr \<Rightarrow> zkey" where
  "key_at z a = zkey_of (the (info z a))"

definition entry_node :: "zset \<Rightarrow> addr \<Rightarrow> addr hnode" where
  "entry_node z = node_for (name_at z) str_hash"

text \<open>The index holds the members of the tree, whose names are distinct and whose keys are sorted.\<close>

definition zset_ok :: "zset \<Rightarrow> addr list \<Rightarrow> bool" where
  "zset_ok z xs = (avl_seq (tree z) (root z) xs \<and> dom (info z) = set xs \<and> (\<forall>a \<in> set xs. a < brk z) \<and>
     (\<forall>a \<in> set xs. \<not> dbl_nan (score_at z a)) \<and> sorted_wrt (<) (map (key_at z) xs) \<and>
     distinct (map (name_at z) xs) \<and>
     hmap_ok (index z) \<and> hmap_nodes (index z) = image_mset (entry_node z) (mset xs))"

text \<open>The finite map from names to scores the set stands for.\<close>

definition score_map :: "zset \<Rightarrow> addr list \<Rightarrow> bytes \<rightharpoonup> u64" where
  "score_map z xs = map_of (map (\<lambda>a. (name_at z a, score_at z a)) xs)"

end
