(* ===== verification/MRD_ZsetProof.thy ===== *)
theory MRD_ZsetProof
  imports MRD_Zset
begin

text \<open>
  Correctness of the sorted sets: the searches on the tree, the invariant that ties tree and index
  together, and the refinement of a finite map from names to scores.
\<close>

subsection \<open>Searches\<close>

text \<open>A predicate that switches once, from false to true, along a list.\<close>

definition switches :: "('a \<Rightarrow> bool) \<Rightarrow> 'a list \<Rightarrow> bool" where
  "switches P xs = sorted_wrt (\<lambda>x y. P x \<longrightarrow> P y) xs"

lemma switches_append:
  "switches P (xs @ ys) \<longleftrightarrow> switches P xs \<and> switches P ys \<and> (\<forall>x \<in> set xs. \<forall>y \<in> set ys. P x \<longrightarrow> P y)"
  by (simp add: switches_def sorted_wrt_append)

lemma switches_Cons: "switches P (x # xs) \<longleftrightarrow> (\<forall>y \<in> set xs. P x \<longrightarrow> P y) \<and> switches P xs"
  by (simp add: switches_def)

lemma switches_split: "switches P xs \<Longrightarrow> filter (\<lambda>x. \<not> P x) xs @ filter P xs = xs"
  by (induction xs) (auto simp: switches_Cons)

lemma filter_all: "(\<And>x. x \<in> set xs \<Longrightarrow> P x) \<Longrightarrow> filter P xs = xs"
  by (induction xs) auto

lemma filter_none: "(\<And>x. x \<in> set xs \<Longrightarrow> \<not> P x) \<Longrightarrow> filter P xs = []"
  by (induction xs) auto

lemma switch_node:
  assumes "switches P (inorder (Node l a r))"
  shows "P a \<Longrightarrow> filter (\<lambda>x. \<not> P x) (inorder (Node l a r)) = filter (\<lambda>x. \<not> P x) (inorder l)"
    "P a \<Longrightarrow> filter P (inorder (Node l a r)) = filter P (inorder l) @ a # inorder r"
    "\<not> P a \<Longrightarrow> filter P (inorder (Node l a r)) = filter P (inorder r)"
    "\<not> P a \<Longrightarrow> filter (\<lambda>x. \<not> P x) (inorder (Node l a r)) = inorder l @ a # filter (\<lambda>x. \<not> P x) (inorder r)"
    "switches P (inorder l)" "switches P (inorder r)"
  using assms
  by (auto simp: switches_append switches_Cons intro!: filter_all filter_none)

lemma path_parent_append: "path_parent (q @ p) = (if q = [] then path_parent p else path_parent q)"
  by (cases q rule: path_parent.cases) auto

lemma link_at_append: "link_at (q @ p) = (if q = [] then link_at p else link_at q)"
  by (cases q) auto

lemma tree_descend_tree:
  assumes "is_tree H par' cur t" "\<And>b. b \<in> set_tree t \<Longrightarrow> lt b = Some (L b)" "switches L (inorder t)"
  shows "\<exists>q. tree_descend H lt cur frm par =
      Some (if q = [] then frm else link_at q, if q = [] then par else path_parent q) \<and>
    plug Leaf q = t \<and> before q = filter (\<lambda>x. \<not> L x) (inorder t) \<and> behind q = filter L (inorder t)"
  using assms
proof (induction t arbitrary: par' cur frm par)
  case Leaf
  then show ?case by (intro exI [of _ "[]"]) (simp add: tree_descend.simps)
next
  case (Node l a r)
  obtain n where n: "cur = Some a" "H a = Some n" "is_tree H (Some a) (left n) l"
    "is_tree H (Some a) (right n) r" using Node.prems(1) by auto
  note sw = switch_node [OF Node.prems(3)]
  show ?case
  proof (cases "L a")
    case True
    obtain q where q: "tree_descend H lt (left n) (LeftOf a) (Some a) =
        Some (if q = [] then LeftOf a else link_at q, if q = [] then Some a else path_parent q)"
      "plug Leaf q = l" "before q = filter (\<lambda>x. \<not> L x) (inorder l)" "behind q = filter L (inorder l)"
      using Node.IH(1) [OF n(3) _ sw(5)] Node.prems(2) by (metis UnI1 Un_iff tree.set_intros(1))
    have "tree_descend H lt cur frm par = tree_descend H lt (left n) (LeftOf a) (Some a)"
      using n Node.prems(2) True by (subst tree_descend.simps) simp
    then show ?thesis
      using q sw(1,2) True unfolding link_at_append path_parent_append
      by (intro exI [of _ "q @ [UpL a r]"]) (simp add: plug_append path_parent_append link_at_append)
  next
    case False
    obtain q where q: "tree_descend H lt (right n) (RightOf a) (Some a) =
        Some (if q = [] then RightOf a else link_at q, if q = [] then Some a else path_parent q)"
      "plug Leaf q = r" "before q = filter (\<lambda>x. \<not> L x) (inorder r)" "behind q = filter L (inorder r)"
      using Node.IH(2) [OF n(4) _ sw(6)] Node.prems(2) by (metis tree.set_intros(3))
    have "tree_descend H lt cur frm par = tree_descend H lt (right n) (RightOf a) (Some a)"
      using n Node.prems(2) False by (subst tree_descend.simps) simp
    then show ?thesis
      using q sw(3,4) False
      by (intro exI [of _ "q @ [UpR l a]"]) (simp add: plug_append path_parent_append link_at_append)
  qed
qed

lemma seekge_loop_tree:
  assumes "is_tree H par cur t" "\<And>b. b \<in> set_tree t \<Longrightarrow> skip b = Some (\<not> P b)" "switches P (inorder t)"
  shows "seekge_loop H skip cur found =
    Some (case filter P (inorder t) of [] \<Rightarrow> found | a # _ \<Rightarrow> Some a)"
  using assms
proof (induction t arbitrary: par cur found)
  case Leaf
  then show ?case by (simp add: seekge_loop.simps)
next
  case (Node l a r)
  obtain n where n: "cur = Some a" "H a = Some n" "is_tree H (Some a) (left n) l"
    "is_tree H (Some a) (right n) r" using Node.prems(1) by auto
  note sw = switch_node [OF Node.prems(3)]
  note step = seekge_loop.simps [of H skip "Some a" found]
  show ?case
  proof (cases "P a")
    case True
    then have "seekge_loop H skip cur found = seekge_loop H skip (left n) (Some a)"
      using n Node.prems(2) by (simp add: step)
    also have "\<dots> = Some (case filter P (inorder l) of [] \<Rightarrow> Some a | a # _ \<Rightarrow> Some a)"
      by (rule Node.IH(1) [OF n(3) _ sw(5)]) (simp add: Node.prems(2))
    finally show ?thesis using sw(2) [OF True] by (simp split: list.splits)
  next
    case False
    then have "seekge_loop H skip cur found = seekge_loop H skip (right n) found"
      using n Node.prems(2) by (simp add: step)
    also have "\<dots> = Some (case filter P (inorder r) of [] \<Rightarrow> found | a # _ \<Rightarrow> Some a)"
      by (rule Node.IH(2) [OF n(4) _ sw(6)]) (simp add: Node.prems(2))
    finally show ?thesis using sw(3) [OF False] by simp
  qed
qed

lemma seekle_loop_tree:
  assumes "is_tree H par cur t" "\<And>b. b \<in> set_tree t \<Longrightarrow> skip b = Some (P b)" "switches P (inorder t)"
  shows "seekle_loop H skip cur found =
    Some (let us = filter (\<lambda>x. \<not> P x) (inorder t) in if us = [] then found else Some (last us))"
  using assms
proof (induction t arbitrary: par cur found)
  case Leaf
  then show ?case by (simp add: seekle_loop.simps)
next
  case (Node l a r)
  obtain n where n: "cur = Some a" "H a = Some n" "is_tree H (Some a) (left n) l"
    "is_tree H (Some a) (right n) r" using Node.prems(1) by auto
  note sw = switch_node [OF Node.prems(3)]
  note step = seekle_loop.simps [of H skip "Some a" found]
  show ?case
  proof (cases "P a")
    case True
    then have "seekle_loop H skip cur found = seekle_loop H skip (left n) found"
      using n Node.prems(2) by (simp add: step)
    also have "\<dots> = Some (let us = filter (\<lambda>x. \<not> P x) (inorder l) in if us = [] then found else Some (last us))"
      by (rule Node.IH(1) [OF n(3) _ sw(5)]) (simp add: Node.prems(2))
    finally show ?thesis using sw(1) [OF True] by simp
  next
    case False
    then have "seekle_loop H skip cur found = seekle_loop H skip (right n) (Some a)"
      using n Node.prems(2) by (simp add: step)
    also have "\<dots> = Some (let us = filter (\<lambda>x. \<not> P x) (inorder r) in if us = [] then Some a else Some (last us))"
      by (rule Node.IH(2) [OF n(4) _ sw(6)]) (simp add: Node.prems(2))
    finally show ?thesis using sw(4) [OF False] by (simp add: Let_def)
  qed
qed

subsection \<open>Inserting into the tree\<close>

text \<open>Objects with a number as score.\<close>

definition numbered :: "zset \<Rightarrow> addr set \<Rightarrow> bool" where
  "numbered z A = (\<forall>a \<in> A. info z a \<noteq> None \<and> \<not> dbl_nan (score_at z a))"

lemma numbered_info: "numbered z A \<Longrightarrow> a \<in> A \<Longrightarrow> info z a = Some (score_at z a, name_at z a)"
  by (auto simp: numbered_def score_at_def name_at_def)

lemma key_at_score: "key_at z a = ZKey (dbl_key (score_at z a)) (name_at z a)"
  by (simp add: key_at_def score_at_def name_at_def zkey_of_def split: prod.splits)

lemma zless_at_key:
  assumes "numbered z A" "a \<in> A" "b \<in> A"
  shows "zless_at z a b = Some (key_at z a < key_at z b)"
  using assms numbered_info [OF assms(1,2)] numbered_info [OF assms(1,3)]
  by (simp add: zless_at_def zless_iff numbered_def key_at_def)

lemma sorted_switches:
  "sorted_wrt (<) (map f xs) \<Longrightarrow> switches (\<lambda>x. (k :: 'k::linorder) < f x) xs"
  "sorted_wrt (<) (map f xs) \<Longrightarrow> switches (\<lambda>x. \<not> f x < k) xs"
  unfolding switches_def sorted_wrt_map
  by (erule sorted_wrt_mono_rel [rotated], force)+

definition insert_sorted :: "zset \<Rightarrow> addr \<Rightarrow> addr list \<Rightarrow> addr list" where
  "insert_sorted z a xs =
    filter (\<lambda>b. \<not> key_at z a < key_at z b) xs @ a # filter (\<lambda>b. key_at z a < key_at z b) xs"

lemma mset_insert_sorted: "mset (insert_sorted z a xs) = add_mset a (mset xs)"
  by (simp add: insert_sorted_def)

lemma set_insert_sorted [simp]: "set (insert_sorted z a xs) = insert a (set xs)"
  by (metis mset_insert_sorted set_mset_add_mset_insert set_mset_mset)

lemma insert_sorted_sorted:
  assumes "sorted_wrt (<) (map (key_at z) xs)" "key_at z a \<notin> key_at z ` set xs"
  shows "sorted_wrt (<) (map (key_at z) (insert_sorted z a xs))"
proof -
  have "sorted_wrt (<) (map (key_at z) (filter P xs))" for P
    using assms(1) unfolding sorted_wrt_map by (rule sorted_wrt_filter)
  moreover have "key_at z b < key_at z a" if "b \<in> set xs" "\<not> key_at z a < key_at z b" for b
    using that assms(2) by (metis image_eqI not_less_iff_gr_or_eq)
  ultimately show ?thesis
    by (auto simp: insert_sorted_def sorted_wrt_append intro: less_trans)
qed

lemma ZSet_tree_insert_ok:
  assumes seq: "avl_seq (tree z) (root z) xs" and new: "tree z a = Some AVLNode_init" "a \<notin> set xs"
    and room: "small (Suc (length xs))" and num: "numbered z (insert a (set xs))"
    and sorted: "sorted_wrt (<) (map (key_at z) xs)"
  obtains H r where "ZSet_tree_insert z a = Some (z\<lparr>tree := H, root := Some r\<rparr>)"
    "avl_seq H (Some r) (insert_sorted z a xs)"
proof -
  let ?L = "\<lambda>b. key_at z a < key_at z b"
  obtain t where t: "is_tree (tree z) None (root z) t" "avl t" "inorder t = xs" "distinct (inorder t)"
    "small (size t)" "set_tree t = set xs" "size t = length xs"
    using avl_seqE [OF seq] .
  have lt: "zless_at z a b = Some (?L b)" if "b \<in> set_tree t" for b
    using zless_at_key [OF num] that t(6) by simp
  have sw: "switches ?L (inorder t)" using sorted_switches(1) [OF sorted] t(3) by simp
  have "\<exists>q. tree_descend (tree z) (zless_at z a) (root z) LocalVar None =
      Some (if q = [] then LocalVar else link_at q, if q = [] then None else path_parent q) \<and>
    plug Leaf q = t \<and> before q = filter (\<lambda>b. \<not> ?L b) (inorder t) \<and> behind q = filter ?L (inorder t)"
    by (rule tree_descend_tree [OF t(1) lt sw])
  then obtain q where
    d: "tree_descend (tree z) (zless_at z a) (root z) LocalVar None =
      Some (if q = [] then LocalVar else link_at q, if q = [] then None else path_parent q)"
    and q: "plug Leaf q = t" "before q = filter (\<lambda>b. \<not> ?L b) xs" "behind q = filter ?L xs"
    unfolding t(3) by (elim exE conjE) (rule that)
  have d: "tree_descend (tree z) (zless_at z a) (root z) LocalVar None = Some (link_at q, path_parent q)"
    unfolding d by (cases q) simp_all
  have "set (before q @ behind q) = set xs" "length (before q @ behind q) = length xs"
    using t(6,7) unfolding q(1) [symmetric] by simp_all
  moreover have "distinct (before q @ behind q)" using t(4) unfolding q(1) [symmetric] by simp
  ultimately obtain H r where ins: "do {
      H \<leftarrow> store_link (link_at q) (Some a) (tree z);
      H \<leftarrow> upd_at a (\<lambda>n. n\<lparr>parent := path_parent q\<rparr>) H;
      AVLNode_fix a H } = Some (H, r)" "avl_seq H (Some r) (before q @ a # behind q)"
    using avl_seq_insert [of "tree z" "root z" q a] t(1,2) q(1) new room by metis
  have "ZSet_tree_insert z a = Some (z\<lparr>tree := H, root := Some r\<rparr>)"
    using ins(1) by (auto simp: ZSet_tree_insert_def d bind_simps)
  then show ?thesis using that ins(2) q(2,3) by (simp add: insert_sorted_def)
qed

subsection \<open>The invariant\<close>

lemma zset_ok_numbered: "zset_ok z xs \<Longrightarrow> numbered z (set xs)"
  unfolding zset_ok_def numbered_def by (metis domIff)

lemma zset_ok_keyed:
  assumes "zset_ok z xs"
  shows "keyed (name_at z) str_hash (hmap_nodes (index z))"
proof -
  let ?N = "image_mset (entry_node z) (mset xs)"
  have d: "distinct (map (name_at z) xs)" using assms by (simp add: zset_ok_def)
  have "size {#n \<in># ?N. name_at z (item n) = k#} \<le> 1" for k
  proof -
    have "{#n \<in># ?N. name_at z (item n) = k#} = image_mset (entry_node z) {#a \<in># mset xs. name_at z a = k#}"
      by (simp add: filter_mset_image_mset entry_node_def node_for_def)
    then have "size {#n \<in># ?N. name_at z (item n) = k#} = length (filter (\<lambda>a. name_at z a = k) xs)"
      by (simp flip: mset_filter)
    moreover have "length (filter (\<lambda>a. name_at z a = k) xs) \<le> 1"
      using d by (induction xs) (auto simp: filter_empty_conv image_iff)
    ultimately show ?thesis by simp
  qed
  then show ?thesis
    using assms by (auto simp: keyed_def zset_ok_def entry_node_def node_for_def)
qed

lemma names_eq_at: "info z a \<noteq> None \<Longrightarrow> names_eq z k a \<longleftrightarrow> name_at z a = k"
  by (auto simp: names_eq_def name_at_def hcmp_iff)

lemma zset_ok_eq:
  assumes "zset_ok z xs" "n \<in># hmap_nodes (index z)"
  shows "names_eq z k (item n) \<longleftrightarrow> name_at z (item n) = k"
proof -
  have "item n \<in> set xs" using assms by (auto simp: zset_ok_def entry_node_def node_for_def)
  then show ?thesis
    using zset_ok_numbered [OF assms(1)] names_eq_at by (simp add: numbered_def)
qed

lemma zset_ok_root: "zset_ok z xs \<Longrightarrow> root z = None \<longleftrightarrow> xs = []"
  using is_tree_root by (fastforce simp: zset_ok_def avl_seq_def)

lemma zset_ok_distinct: "zset_ok z xs \<Longrightarrow> distinct xs"
  using avl_seq_distinct by (auto simp: zset_ok_def)

lemma ZSet_lookup_ok:
  assumes "zset_ok z xs"
  obtains (Absent) "ZSet_lookup z name = Some None" "name \<notin> name_at z ` set xs"
  | (Present) a where "ZSet_lookup z name = Some (Some a)" "a \<in> set xs" "name_at z a = name"
proof (cases "root z = None")
  case True
  then show ?thesis using Absent zset_ok_root [OF assms] by (simp add: ZSet_lookup_def)
next
  case False
  have ok: "hmap_ok (index z)" using assms by (simp add: zset_ok_def)
  note find = hm.find_agree [OF ok zset_ok_keyed [OF assms] zset_ok_eq [OF assms]]
  obtain r where r: "HMap_lookup (index z) (str_hash name) (names_eq z name) = Some r"
    using hm.find_total [OF ok] by (metis not_None_eq)
  have nodes: "hmap_nodes (index z) = image_mset (entry_node z) (mset xs)"
    using assms by (simp add: zset_ok_def)
  show ?thesis
  proof (cases r)
    case None
    then have "\<forall>n \<in># hmap_nodes (index z). name_at z (item n) \<noteq> name" using find(2) r by blast
    then have "name \<notin> name_at z ` set xs" unfolding nodes by (auto simp: entry_node_def node_for_def)
    then show ?thesis using Absent False r None by (simp add: ZSet_lookup_def)
  next
    case (Some n)
    then have "n \<in># hmap_nodes (index z)" "name_at z (item n) = name" using find(1) r by auto
    then show ?thesis
      using Present [of "item n"] False r Some unfolding nodes
      by (auto simp: ZSet_lookup_def entry_node_def node_for_def)
  qed
qed

lemma score_map_iff:
  "zset_ok z xs \<Longrightarrow> score_map z xs name = Some s \<longleftrightarrow> (\<exists>a \<in> set xs. name_at z a = name \<and> score_at z a = s)"
  unfolding score_map_def
  by (subst map_of_eq_Some_iff) (auto simp: zset_ok_def comp_def)

lemma score_map_None: "score_map z xs name = None \<longleftrightarrow> name \<notin> name_at z ` set xs"
  by (simp add: score_map_def map_of_eq_None_iff image_image)

text \<open>What follows from the objects' data alone.\<close>

lemma info_same:
  assumes "info z' = info z"
  shows "name_at z' = name_at z" "score_at z' = score_at z" "key_at z' = key_at z" "numbered z' = numbered z"
  using assms by (auto simp: fun_eq_iff name_at_def score_at_def key_at_def numbered_def)

lemma info_upd:
  assumes "info z' = (info z)(a \<mapsto> (s, n))"
  shows "name_at z' = (name_at z)(a := n)" "score_at z' = (score_at z)(a := s)"
    "key_at z' = (key_at z)(a := ZKey (dbl_key s) n)"
  using assms by (auto simp: fun_eq_iff name_at_def score_at_def key_at_def zkey_of_def)

lemma info_del:
  assumes "info z' = (info z)(a := None)" "b \<noteq> a"
  shows "name_at z' b = name_at z b" "score_at z' b = score_at z b" "key_at z' b = key_at z b"
  using assms by (auto simp: name_at_def score_at_def key_at_def)

lemma numbered_upd:
  "numbered z A \<Longrightarrow> info z' = (info z)(a \<mapsto> (s, n)) \<Longrightarrow> \<not> dbl_nan s \<Longrightarrow> numbered z' (insert a A)"
  by (auto simp: numbered_def score_at_def)

lemma score_map_upd:
  assumes "zset_ok z xs" "zset_ok z' xs'" "set xs' = insert a (set xs)"
    "name_at z' = (name_at z)(a := name)" "score_at z' = (score_at z)(a := score)"
    "\<And>b. b \<in> set xs \<Longrightarrow> name_at z b = name \<longleftrightarrow> b = a"
  shows "score_map z' xs' = (score_map z xs)(name \<mapsto> score)"
proof (rule map_eqI)
  fix k v
  have uniq: "(\<exists>b \<in> set xs. b \<noteq> a \<and> name_at z b = k \<and> score_at z b = v) \<longleftrightarrow>
      (k \<noteq> name \<and> (\<exists>b \<in> set xs. name_at z b = k \<and> score_at z b = v))"
    using assms(6) by metis
  have "(\<exists>b \<in> insert a (set xs). ((name_at z)(a := name)) b = k \<and> ((score_at z)(a := score)) b = v) \<longleftrightarrow>
      (k = name \<and> v = score) \<or> (\<exists>b \<in> set xs. b \<noteq> a \<and> name_at z b = k \<and> score_at z b = v)"
    by auto
  then have "(\<exists>b \<in> insert a (set xs). ((name_at z)(a := name)) b = k \<and> ((score_at z)(a := score)) b = v) \<longleftrightarrow>
      (if k = name then v = score else \<exists>b \<in> set xs. name_at z b = k \<and> score_at z b = v)"
    unfolding uniq by auto
  then show "score_map z' xs' k = Some v \<longleftrightarrow> ((score_map z xs)(name \<mapsto> score)) k = Some v"
    unfolding score_map_iff [OF assms(2)] assms(3,4,5) using score_map_iff [OF assms(1)] by auto
qed

lemma sorted_wrt_remove1: "sorted_wrt P xs \<Longrightarrow> sorted_wrt P (remove1 x xs)"
  by (induction xs) (auto dest: set_remove1_subset [THEN subsetD])

lemma distinct_map_remove1: "distinct (map f xs) \<Longrightarrow> distinct (map f (remove1 x xs))"
  by (meson distinct_map distinct_remove1 inj_on_subset set_remove1_subset)

lemma map_cong_remove1: "sorted_wrt P (map f xs) \<Longrightarrow> sorted_wrt P (map f (remove1 x xs))"
  unfolding sorted_wrt_map by (rule sorted_wrt_remove1)

lemma ZSet_update_ok:
  assumes ok: "zset_ok z xs" and a: "a \<in> set xs" and num: "\<not> dbl_nan score"
  obtains z' xs' where "ZSet_update z a score = Some z'" "zset_ok z' xs'" "set xs' = set xs"
    "length xs' = length xs" "name_at z' = name_at z" "score_at z' = (score_at z)(a := score)"
proof -
  have seq: "avl_seq (tree z) (root z) xs" and d: "distinct xs"
    using ok zset_ok_distinct [OF ok] by (simp_all add: zset_ok_def)
  obtain H r where del: "AVLNode_del a (tree z) = Some (H, r)" "avl_seq H r (remove1 a xs)" "H a \<noteq> None"
    by (rule avl_seq_del [OF seq a]) (rule that)
  define xs1 where "xs1 = remove1 a xs"
  define z1 where "z1 = z\<lparr>root := r, tree := H(a \<mapsto> AVLNode_init), info := (info z)(a \<mapsto> (score, name_at z a))\<rparr>"
  have out: "a \<notin> set xs1" "insert a (set xs1) = set xs" using d a by (auto simp: xs1_def)
  have seq1: "avl_seq (tree z1) (root z1) xs1"
    using avl_seq_upd [of H r xs1 a] del(2) out(1) by (simp add: z1_def xs1_def)
  have len: "Suc (length xs1) = length xs"
    using a by (simp add: xs1_def length_remove1) (metis Suc_pred length_pos_if_in_set)
  then have room: "small (Suc (length xs1))" using avl_seq_small [OF seq] by simp
  have i1: "info z1 = (info z)(a \<mapsto> (score, name_at z a))" by (simp add: z1_def)
  note at1 = info_upd [OF i1]
  have mp: "map (key_at z1) xs1 = map (key_at z) xs1" using out(1) by (auto simp: at1)
  have sorted: "sorted_wrt (<) (map (key_at z1) xs1)"
    unfolding mp unfolding xs1_def by (rule map_cong_remove1) (use ok in \<open>simp add: zset_ok_def\<close>)
  have numd: "numbered z1 (insert a (set xs1))"
    using numbered_upd [OF zset_ok_numbered [OF ok] i1 num] out(2) insert_absorb [OF a] by simp
  have names: "distinct (map (name_at z) xs)" using ok by (simp add: zset_ok_def)
  then have uniq: "b \<in> set xs \<Longrightarrow> name_at z b = name_at z a \<longleftrightarrow> b = a" for b
    using a by (auto simp: distinct_map inj_on_def)
  have fresh: "key_at z1 a \<notin> key_at z1 ` set xs1"
    using uniq out by (force simp: at1 key_at_score)
  obtain H' r' where ins: "ZSet_tree_insert z1 a = Some (z1\<lparr>tree := H', root := Some r'\<rparr>)"
    "avl_seq H' (Some r') (insert_sorted z1 a xs1)"
    by (rule ZSet_tree_insert_ok [OF seq1 _ out(1) room numd sorted]) (simp_all add: z1_def)
  define z2 where "z2 = z1\<lparr>tree := H', root := Some r'\<rparr>"
  define xs2 where "xs2 = insert_sorted z1 a xs1"
  have i2: "info z2 = info z1" by (simp add: z2_def)
  have nm: "name_at z2 = name_at z" "score_at z2 = (score_at z)(a := score)"
    using info_same [OF i2] at1 by auto
  have ms: "mset xs2 = mset xs" using a by (simp add: xs2_def xs1_def mset_insert_sorted)
  have set: "set xs2 = set xs" using ms by (metis set_mset_mset)
  have "zset_ok z2 xs2"
  proof -
    have "avl_seq (tree z2) (root z2) xs2" using ins(2) by (simp add: z2_def xs2_def)
    moreover have "dom (info z2) = set xs" "\<forall>b \<in> set xs. b < brk z2"
      using ok a by (auto simp: zset_ok_def z2_def z1_def)
    moreover have "\<forall>b \<in> set xs. \<not> dbl_nan (score_at z2 b)"
      using ok num unfolding nm by (auto simp: zset_ok_def)
    moreover have "sorted_wrt (<) (map (key_at z2) xs2)"
      using insert_sorted_sorted [OF sorted fresh] by (simp add: info_same(3) [OF i2] xs2_def)
    moreover have "distinct (map (name_at z2) xs2)"
      using names ms unfolding nm by (metis mset_eq_imp_distinct_iff mset_map)
    moreover have idx: "index z2 = index z" by (simp add: z2_def z1_def)
    have "entry_node z2 = entry_node z" by (simp add: entry_node_def nm)
    then have "hmap_ok (index z2)" "hmap_nodes (index z2) = image_mset (entry_node z2) (mset xs2)"
      using ok by (simp_all add: zset_ok_def ms idx)
    ultimately show ?thesis by (simp add: zset_ok_def set)
  qed
  moreover have "info z a = Some (score_at z a, name_at z a)"
    using numbered_info [OF zset_ok_numbered [OF ok] a] .
  then have "ZSet_update z a score = Some z2"
    using del ins(1) by (auto simp: ZSet_update_def Let_def z2_def z1_def)
  moreover have "length xs2 = length xs" using ms by (metis size_mset)
  ultimately show ?thesis using that set nm by blast
qed

lemma ZSet_insert_new_ok:
  assumes ok: "zset_ok z xs" and new: "name \<notin> name_at z ` set xs" and num: "\<not> dbl_nan score"
    and room: "small (Suc (length xs))"
  obtains z' xs' where "ZSet_insert z name score = Some (True, z')" "zset_ok z' xs'"
    "set xs' = insert (brk z) (set xs)" "length xs' = Suc (length xs)"
    "name_at z' = (name_at z)(brk z := name)" "score_at z' = (score_at z)(brk z := score)" "brk z \<notin> set xs"
proof -
  let ?a = "brk z"
  have seq: "avl_seq (tree z) (root z) xs" using ok by (simp add: zset_ok_def)
  have out: "?a \<notin> set xs" using ok by (auto simp: zset_ok_def)
  obtain idx where idx: "HMap_insert (index z) \<lparr>hcode = str_hash name, item = ?a\<rparr> = Some idx" "hmap_ok idx"
    "hmap_nodes idx = add_mset \<lparr>hcode = str_hash name, item = ?a\<rparr> (hmap_nodes (index z))"
    using hm.insert_law ok unfolding zset_ok_def by metis
  define z1 where "z1 = z\<lparr>tree := (tree z)(?a \<mapsto> AVLNode_init), info := (info z)(?a \<mapsto> (score, name)),
    brk := brk z + 1, index := idx\<rparr>"
  have seq1: "avl_seq (tree z1) (root z1) xs" using avl_seq_upd [OF seq out] by (simp add: z1_def)
  have i1: "info z1 = (info z)(?a \<mapsto> (score, name))" by (simp add: z1_def)
  note at1 = info_upd [OF i1]
  have mp: "map (key_at z1) xs = map (key_at z) xs" using out by (auto simp: at1)
  have sorted: "sorted_wrt (<) (map (key_at z1) xs)" unfolding mp using ok by (simp add: zset_ok_def)
  have numd: "numbered z1 (insert ?a (set xs))"
    by (rule numbered_upd [OF zset_ok_numbered [OF ok] i1 num])
  have fresh: "key_at z1 ?a \<notin> key_at z1 ` set xs"
    using new out by (auto simp: at1 key_at_score)
  obtain H r where ins: "ZSet_tree_insert z1 ?a = Some (z1\<lparr>tree := H, root := Some r\<rparr>)"
    "avl_seq H (Some r) (insert_sorted z1 ?a xs)"
    by (rule ZSet_tree_insert_ok [OF seq1 _ out room numd sorted]) (simp_all add: z1_def)
  define z2 where "z2 = z1\<lparr>tree := H, root := Some r\<rparr>"
  define xs2 where "xs2 = insert_sorted z1 ?a xs"
  have i2: "info z2 = info z1" by (simp add: z2_def)
  have nm: "name_at z2 = (name_at z)(?a := name)" "score_at z2 = (score_at z)(?a := score)"
    using info_same [OF i2] at1 by auto
  have ms: "mset xs2 = add_mset ?a (mset xs)" unfolding xs2_def by (rule mset_insert_sorted)
  have set: "set xs2 = insert ?a (set xs)" by (simp add: xs2_def)
  have lookup: "ZSet_lookup z name = Some None"
    by (rule ZSet_lookup_ok [OF ok, of name]) (use new in auto)
  have "zset_ok z2 xs2"
  proof -
    have "avl_seq (tree z2) (root z2) xs2" using ins(2) by (simp add: z2_def xs2_def)
    moreover have "dom (info z2) = insert ?a (set xs)" "\<forall>b \<in> insert ?a (set xs). b < brk z2"
      using ok by (auto simp: zset_ok_def z2_def z1_def)
    moreover have "\<forall>b \<in> insert ?a (set xs). \<not> dbl_nan (score_at z2 b)"
      using ok num unfolding nm by (auto simp: zset_ok_def)
    moreover have "sorted_wrt (<) (map (key_at z2) xs2)"
      using insert_sorted_sorted [OF sorted fresh] by (simp add: info_same(3) [OF i2] xs2_def)
    moreover have "distinct (map (name_at z2) xs2)"
    proof -
      have "distinct (map (name_at z2) (?a # xs))"
        using ok new out unfolding nm by (auto simp: zset_ok_def distinct_map inj_on_def)
      then show ?thesis using ms by (metis mset.simps(2) mset_eq_imp_distinct_iff mset_map)
    qed
    moreover have "hmap_nodes idx = image_mset (entry_node z2) (mset xs2)"
    proof -
      have "image_mset (entry_node z2) (mset xs) = image_mset (entry_node z) (mset xs)"
        using out by (intro image_mset_cong) (auto simp: entry_node_def nm node_for_def)
      moreover have "entry_node z2 ?a = \<lparr>hcode = str_hash name, item = ?a\<rparr>"
        by (simp add: entry_node_def nm node_for_def)
      ultimately show ?thesis using idx(3) ok by (simp add: ms zset_ok_def)
    qed
    ultimately show ?thesis using idx(2) by (simp add: zset_ok_def set z2_def z1_def)
  qed
  moreover have "ZSet_insert z name score = Some (True, z2)"
    using lookup idx(1) ins(1) by (simp add: ZSet_insert_def ZNode_new_def z2_def z1_def)
  moreover have "length xs2 = Suc (length xs)" using ms by (metis size_add_mset size_mset)
  ultimately show ?thesis using that set nm out by blast
qed

lemma ZSet_insert_ok:
  assumes ok: "zset_ok z xs" and num: "\<not> dbl_nan score" and room: "small (Suc (length xs))"
  obtains z' xs' where "ZSet_insert z name score = Some (score_map z xs name = None, z')" "zset_ok z' xs'"
    "score_map z' xs' = (score_map z xs)(name \<mapsto> score)" "length xs' \<le> Suc (length xs)"
proof (cases rule: ZSet_lookup_ok [OF ok, of name])
  case 1
  obtain z' xs' where z': "ZSet_insert z name score = Some (True, z')" "zset_ok z' xs'"
    "set xs' = insert (brk z) (set xs)" "length xs' = Suc (length xs)"
    "name_at z' = (name_at z)(brk z := name)" "score_at z' = (score_at z)(brk z := score)" "brk z \<notin> set xs"
    by (rule ZSet_insert_new_ok [OF ok 1(2) num room])
  have "score_map z' xs' = (score_map z xs)(name \<mapsto> score)"
    by (rule score_map_upd [OF ok z'(2,3,5,6)]) (use 1(2) z'(7) in auto)
  moreover have "score_map z xs name = None" using 1(2) by (simp add: score_map_None)
  ultimately show ?thesis by (intro that [of z' xs']) (simp_all add: z'(1,2,4))
next
  case (2 a)
  obtain z' xs' where z': "ZSet_update z a score = Some z'" "zset_ok z' xs'" "set xs' = set xs"
    "length xs' = length xs" "name_at z' = name_at z" "score_at z' = (score_at z)(a := score)"
    by (rule ZSet_update_ok [OF ok 2(2) num])
  have "inj_on (name_at z) (set xs)" using ok by (simp add: zset_ok_def distinct_map)
  then have uniq: "name_at z b = name \<longleftrightarrow> b = a" if "b \<in> set xs" for b
    using that 2(2) unfolding 2(3) [symmetric] by (rule inj_on_eq_iff)
  have "set xs' = insert a (set xs)" using z'(3) 2(2) by (simp add: insert_absorb)
  moreover have "name_at z' = (name_at z)(a := name)" unfolding z'(5) using 2(3) by (simp add: fun_upd_idem)
  ultimately have "score_map z' xs' = (score_map z xs)(name \<mapsto> score)"
    by (rule score_map_upd [OF ok z'(2) _ _ z'(6) uniq])
  moreover have "score_map z xs name \<noteq> None" using 2(2,3) by (auto simp: score_map_None)
  moreover have "ZSet_insert z name score = Some (False, z')"
    by (simp add: ZSet_insert_def 2(1) z'(1))
  ultimately show ?thesis by (intro that [of z' xs']) (simp_all add: z'(2,4))
qed

end
