(* ===== verification/MRD_ZsetOps.thy ===== *)
theory MRD_ZsetOps
  imports MRD_ZsetProof
begin

text \<open>
  Removal, range searches, copying and disposal of the sorted sets, the interface of a set as a
  map from names to scores (a locale interpreted on the code's model), and the properties of sorted
  sets.
\<close>

subsection \<open>Removal\<close>

lemma ZSet_del_ok:
  assumes ok: "zset_ok z xs" and a: "a \<in> set xs"
  obtains z' where "ZSet_del z a = Some z'" "zset_ok z' (remove1 a xs)"
    "\<And>b. b \<noteq> a \<Longrightarrow> info z' b = info z b" "info z' a = None"
proof -
  have seq: "avl_seq (tree z) (root z) xs" and d: "distinct xs"
    using ok zset_ok_distinct [OF ok] by (simp_all add: zset_ok_def)
  have im: "hmap_ok (index z)" "hmap_nodes (index z) = image_mset (entry_node z) (mset xs)"
    using ok by (simp_all add: zset_ok_def)
  have inj: "inj_on (name_at z) (set xs)" using ok by (simp add: zset_ok_def distinct_map)
  have ia: "info z a = Some (score_at z a, name_at z a)"
    using numbered_info [OF zset_ok_numbered [OF ok] a] .
  have mem: "entry_node z a \<in># hmap_nodes (index z)" using a by (simp add: im(2))
  obtain n idx where er: "HMap_erase (index z) (str_hash (name_at z a)) (names_eq z (name_at z a)) = Some (Some n, idx)"
    "hmap_ok idx" "hmap_nodes (index z) = add_mset n (hmap_nodes idx)" "name_at z (item n) = name_at z a"
  proof (rule hm.erase_keyed [OF im(1) zset_ok_keyed [OF ok] zset_ok_eq [OF ok]])
    fix m' assume "\<forall>n \<in># hmap_nodes (index z). name_at z (item n) \<noteq> name_at z a"
    then show thesis using mem by (auto simp: entry_node_def node_for_def)
  qed
  have "n \<in># hmap_nodes (index z)" using er(3) by simp
  then obtain b where b: "b \<in> set xs" "n = entry_node z b" by (auto simp: im(2))
  then have "name_at z b = name_at z a" using er(4) by (simp add: entry_node_def node_for_def)
  then have "n = entry_node z a" using b a inj by (simp add: inj_on_eq_iff)
  then have nodes: "hmap_nodes idx = image_mset (entry_node z) (mset (remove1 a xs))"
    using er(3) a by (simp add: im(2) image_mset_Diff)
  obtain H r where del: "AVLNode_del a (tree z) = Some (H, r)" "avl_seq H r (remove1 a xs)"
    by (rule avl_seq_del [OF seq a]) (rule that)
  have out: "a \<notin> set (remove1 a xs)" "set (remove1 a xs) = set xs - {a}" using d by (auto simp: set_remove1_eq)
  define z' where "z' = z\<lparr>index := idx, root := r, tree := H(a := None), info := (info z)(a := None)\<rparr>"
  have i': "info z' = (info z)(a := None)" by (simp add: z'_def)
  note at = info_del [OF i']
  have "zset_ok z' (remove1 a xs)"
  proof -
    have "avl_seq (tree z') (root z') (remove1 a xs)"
      using avl_seq_upd [OF del(2) out(1)] by (simp add: z'_def)
    moreover have "dom (info z') = set (remove1 a xs)" "\<forall>b \<in> set (remove1 a xs). b < brk z'"
      using ok out by (auto simp: zset_ok_def z'_def)
    moreover have "\<forall>b \<in> set (remove1 a xs). \<not> dbl_nan (score_at z' b)"
      using ok out at by (auto simp: zset_ok_def)
    moreover have "sorted_wrt (<) (map (key_at z') (remove1 a xs))"
    proof -
      have "map (key_at z') (remove1 a xs) = map (key_at z) (remove1 a xs)" using at out by auto
      moreover have "sorted_wrt (<) (map (key_at z) xs)" using ok by (simp add: zset_ok_def)
      ultimately show ?thesis using map_cong_remove1 by metis
    qed
    moreover have "distinct (map (name_at z') (remove1 a xs))"
    proof -
      have "map (name_at z') (remove1 a xs) = map (name_at z) (remove1 a xs)" using at out by auto
      moreover have "distinct (map (name_at z) xs)" using ok by (simp add: zset_ok_def)
      ultimately show ?thesis using distinct_map_remove1 by metis
    qed
    moreover have "image_mset (entry_node z') (mset (remove1 a xs)) = image_mset (entry_node z) (mset (remove1 a xs))"
    proof (rule image_mset_cong)
      fix x assume "x \<in># mset (remove1 a xs)"
      then have "x \<noteq> a" using out(1) by (metis set_mset_mset)
      then show "entry_node z' x = entry_node z x" by (simp add: entry_node_def node_for_def at)
    qed
    then have "hmap_nodes (index z') = image_mset (entry_node z') (mset (remove1 a xs))"
      using nodes by (simp add: z'_def)
    moreover have "hmap_ok (index z')" using er(2) by (simp add: z'_def)
    ultimately show ?thesis by (simp add: zset_ok_def)
  qed
  moreover have "ZSet_del z a = Some z'" by (simp add: ZSet_del_def ia er(1) del(1) z'_def)
  ultimately show ?thesis using that i' by simp
qed

lemma ZSet_rem_ok:
  assumes ok: "zset_ok z xs"
  obtains z' xs' where "ZSet_rem z name = Some (score_map z xs name \<noteq> None, z')" "zset_ok z' xs'"
    "score_map z' xs' = (score_map z xs)(name := None)" "set xs' \<subseteq> set xs" "length xs' \<le> length xs"
proof (cases rule: ZSet_lookup_ok [OF ok, of name])
  case 1
  then have none: "score_map z xs name = None" by (simp add: score_map_None)
  have "ZSet_rem z name = Some (False, z)" using 1 by (simp add: ZSet_rem_def)
  then show ?thesis using none by (intro that [of z xs]) (simp_all add: ok fun_upd_idem)
next
  case (2 a)
  obtain z' where z': "ZSet_del z a = Some z'" "zset_ok z' (remove1 a xs)"
    "\<And>b. b \<noteq> a \<Longrightarrow> info z' b = info z b" "info z' a = None"
    by (rule ZSet_del_ok [OF ok 2(2)]) (rule that)
  have "inj_on (name_at z) (set xs)" using ok by (simp add: zset_ok_def distinct_map)
  then have uniq: "name_at z b = name \<longleftrightarrow> b = a" if "b \<in> set xs" for b
    using that 2(2) unfolding 2(3) [symmetric] by (rule inj_on_eq_iff)
  have set: "set (remove1 a xs) = set xs - {a}" using zset_ok_distinct [OF ok] by (simp add: set_remove1_eq)
  have at: "name_at z' b = name_at z b" "score_at z' b = score_at z b" if "b \<noteq> a" for b
    using z'(3) [OF that] by (simp_all add: name_at_def score_at_def)
  have "score_map z' (remove1 a xs) = (score_map z xs)(name := None)"
  proof (rule map_eqI)
    fix k v
    have "(\<exists>b \<in> set xs - {a}. name_at z' b = k \<and> score_at z' b = v) \<longleftrightarrow>
        k \<noteq> name \<and> (\<exists>b \<in> set xs. name_at z b = k \<and> score_at z b = v)"
      using at uniq by (metis DiffE DiffI insertI1 singletonD)
    then show "score_map z' (remove1 a xs) k = Some v \<longleftrightarrow> ((score_map z xs)(name := None)) k = Some v"
      unfolding score_map_iff [OF z'(2)] set using score_map_iff [OF ok] by auto
  qed
  moreover have "score_map z xs name \<noteq> None" using 2(2,3) by (auto simp: score_map_None)
  moreover have "ZSet_rem z name = Some (True, z')" by (simp add: ZSet_rem_def 2(1) z'(1))
  ultimately show ?thesis
    by (intro that [of z' "remove1 a xs"]) (simp_all add: z'(2) set set_remove1_subset length_remove1 Diff_subset)
qed

subsection \<open>Range searches\<close>

lemma zset_seq: "zset_ok z xs \<Longrightarrow> avl_seq (tree z) (root z) xs"
  by (simp add: zset_ok_def)

lemma zset_sorted: "zset_ok z xs \<Longrightarrow> sorted_wrt (<) (map (key_at z) xs)"
  by (simp add: zset_ok_def)

lemma key_cmp:
  assumes "numbered z A" "a \<in> A" "\<not> dbl_nan s"
  shows "Option.bind (info z a) (\<lambda>x. Some (zless x (s, n))) = Some (key_at z a < zkey_of (s, n))"
    "Option.bind (info z a) (\<lambda>x. Some (zgreater x (s, n))) = Some (zkey_of (s, n) < key_at z a)"
  using assms numbered_info [OF assms(1,2)]
  by (simp_all add: zless_iff zgreater_iff numbered_def key_at_def)

lemma ZSet_seekge_ok:
  assumes ok: "zset_ok z xs" and num: "\<not> dbl_nan s"
  shows "ZSet_seekge z s n = Some (case filter (\<lambda>a. \<not> key_at z a < zkey_of (s, n)) xs of [] \<Rightarrow> None | a # _ \<Rightarrow> Some a)"
proof -
  let ?P = "\<lambda>a. \<not> key_at z a < zkey_of (s, n)"
  obtain t where t: "is_tree (tree z) None (root z) t" "avl t" "inorder t = xs" "distinct (inorder t)"
    "small (size t)" "set_tree t = set xs" "size t = length xs"
    using avl_seqE [OF zset_seq [OF ok]] .
  have skip: "do { x \<leftarrow> info z b; Some (zless x (s, n)) } = Some (\<not> ?P b)" if "b \<in> set_tree t" for b
    using key_cmp(1) [OF zset_ok_numbered [OF ok] _ num] that t(6) by simp
  have sw: "switches ?P (inorder t)" unfolding t(3) by (rule sorted_switches(2) [OF zset_sorted [OF ok]])
  have "seekge_loop (tree z) (\<lambda>a. do { x \<leftarrow> info z a; Some (zless x (s, n)) }) (root z) None =
      Some (case filter ?P (inorder t) of [] \<Rightarrow> None | a # _ \<Rightarrow> Some a)"
    by (rule seekge_loop_tree [OF t(1) skip sw])
  then show ?thesis by (simp add: ZSet_seekge_def t(3))
qed

lemma ZSet_seekle_ok:
  assumes ok: "zset_ok z xs" and num: "\<not> dbl_nan s"
  shows "ZSet_seekle z s n = Some (let us = filter (\<lambda>a. \<not> zkey_of (s, n) < key_at z a) xs in
    if us = [] then None else Some (last us))"
proof -
  let ?P = "\<lambda>a. zkey_of (s, n) < key_at z a"
  obtain t where t: "is_tree (tree z) None (root z) t" "avl t" "inorder t = xs" "distinct (inorder t)"
    "small (size t)" "set_tree t = set xs" "size t = length xs"
    using avl_seqE [OF zset_seq [OF ok]] .
  have skip: "do { x \<leftarrow> info z b; Some (zgreater x (s, n)) } = Some (?P b)" if "b \<in> set_tree t" for b
    using key_cmp(2) [OF zset_ok_numbered [OF ok] _ num] that t(6) by simp
  have sw: "switches ?P (inorder t)" unfolding t(3) by (rule sorted_switches(1) [OF zset_sorted [OF ok]])
  have "seekle_loop (tree z) (\<lambda>a. do { x \<leftarrow> info z a; Some (zgreater x (s, n)) }) (root z) None =
      Some (let us = filter (\<lambda>x. \<not> ?P x) (inorder t) in if us = [] then None else Some (last us))"
    by (rule seekle_loop_tree [OF t(1) skip sw])
  then show ?thesis by (simp add: ZSet_seekle_def t(3))
qed

text \<open>The results as positions: the first member not below the bound, the last not above it.\<close>

definition count_below :: "zset \<Rightarrow> addr list \<Rightarrow> zkey \<Rightarrow> nat" where
  "count_below z xs k = length (filter (\<lambda>a. key_at z a < k) xs)"

definition count_upto :: "zset \<Rightarrow> addr list \<Rightarrow> zkey \<Rightarrow> nat" where
  "count_upto z xs k = length (filter (\<lambda>a. key_at z a \<le> k) xs)"

lemma hd_of_split:
  assumes "us @ vs = xs"
  shows "(case vs of [] \<Rightarrow> None | a # _ \<Rightarrow> Some a) = (if length us < length xs then Some (xs ! length us) else None)"
    "(if us = [] then None else Some (last us)) = (if 0 < length us then Some (xs ! (length us - 1)) else None)"
  using assms by (auto simp: nth_append last_conv_nth split: list.splits)

lemma ZSet_seek_index:
  assumes ok: "zset_ok z xs" and num: "\<not> dbl_nan s"
  shows "ZSet_seekge z s n = Some (let i = count_below z xs (zkey_of (s, n)) in
      if i < length xs then Some (xs ! i) else None)"
    "ZSet_seekle z s n = Some (let i = count_upto z xs (zkey_of (s, n)) in
      if 0 < i then Some (xs ! (i - 1)) else None)"
    "count_below z xs k \<le> length xs" "count_upto z xs k \<le> length xs"
proof -
  let ?k = "zkey_of (s, n)"
  have 1: "filter (\<lambda>a. key_at z a < ?k) xs @ filter (\<lambda>a. \<not> key_at z a < ?k) xs = xs"
    using switches_split [OF sorted_switches(2) [OF zset_sorted [OF ok]], of ?k] by simp
  show "ZSet_seekge z s n = Some (let i = count_below z xs ?k in if i < length xs then Some (xs ! i) else None)"
    unfolding ZSet_seekge_ok [OF ok num] hd_of_split(1) [OF 1] by (simp add: count_below_def Let_def)
  have 2: "filter (\<lambda>a. \<not> ?k < key_at z a) xs @ filter (\<lambda>a. ?k < key_at z a) xs = xs"
    by (rule switches_split [OF sorted_switches(1) [OF zset_sorted [OF ok]]])
  show "ZSet_seekle z s n = Some (let i = count_upto z xs ?k in if 0 < i then Some (xs ! (i - 1)) else None)"
    unfolding ZSet_seekle_ok [OF ok num] Let_def hd_of_split(2) [OF 2] by (simp add: count_upto_def not_less)
qed (simp_all add: count_below_def count_upto_def)

subsection \<open>Copying and disposing\<close>

text \<open>Scores by name in a set of objects with distinct names, with a map as default.\<close>

definition named :: "zset \<Rightarrow> addr set \<Rightarrow> bytes \<Rightarrow> u64 \<Rightarrow> bool" where
  "named z A k v = (\<exists>b \<in> A. name_at z b = k \<and> score_at z b = v)"

definition overrides :: "zset \<Rightarrow> addr set \<Rightarrow> (bytes \<rightharpoonup> u64) \<Rightarrow> (bytes \<rightharpoonup> u64) \<Rightarrow> bool" where
  "overrides z A m m' = (\<forall>k v. m' k = Some v \<longleftrightarrow> named z A k v \<or> k \<notin> name_at z ` A \<and> m k = Some v)"

lemma overrides_empty: "overrides z {} m m"
  by (simp add: overrides_def named_def)

lemma overrides_one: "overrides z {a} m (m(name_at z a \<mapsto> score_at z a))"
  by (auto simp: overrides_def named_def)

lemma overrides_union:
  assumes "overrides z A m m'" "overrides z B m' m''" "inj_on (name_at z) (A \<union> B)"
  shows "overrides z (A \<union> B) m m''"
  unfolding overrides_def
proof (intro allI)
  fix k v
  have "named z A k v \<longleftrightarrow> named z B k v" if m: "k \<in> name_at z ` A" "k \<in> name_at z ` B"
  proof -
    obtain a where a: "a \<in> A" "k = name_at z a" using m(1) by (rule imageE)
    obtain b where b: "b \<in> B" "k = name_at z b" using m(2) by (rule imageE)
    have ab: "a \<in> A" "b \<in> B" "name_at z a = k" "name_at z b = k" using a b by simp_all
    then have "x = a" if "x \<in> A \<union> B" "name_at z x = k" for x
      using that inj_onD [OF assms(3), of x a] by simp
    then show ?thesis using ab by (auto simp: named_def)
  qed
  moreover have "named z S k v \<Longrightarrow> k \<in> name_at z ` S" for S by (auto simp: named_def)
  moreover have "named z (A \<union> B) k v \<longleftrightarrow> named z A k v \<or> named z B k v" by (auto simp: named_def)
  ultimately show "m'' k = Some v \<longleftrightarrow>
      named z (A \<union> B) k v \<or> k \<notin> name_at z ` (A \<union> B) \<and> m k = Some v"
    using assms(1,2) unfolding overrides_def image_Un by (metis Un_iff)
qed

lemma set_cpy_ok:
  assumes "is_tree (tree rhs) par q t" "numbered rhs (set_tree t)" "inj_on (name_at rhs) (set_tree t)"
    "zset_ok zc xsc" "small (size t + length xsc)"
  shows "\<exists>z' xs'. set_cpy rhs q zc = Some z' \<and> zset_ok z' xs' \<and> length xs' \<le> size t + length xsc \<and>
    overrides rhs (set_tree t) (score_map zc xsc) (score_map z' xs')"
  using assms
proof (induction t arbitrary: par q zc xsc)
  case Leaf
  then show ?case using overrides_empty by (auto simp: set_cpy.simps)
next
  case (Node l a r)
  obtain n where n: "q = Some a" "tree rhs a = Some n" "is_tree (tree rhs) (Some a) (left n) l"
    "is_tree (tree rhs) (Some a) (right n) r" using Node.prems(1) by auto
  have ia: "info rhs a = Some (score_at rhs a, name_at rhs a)" "\<not> dbl_nan (score_at rhs a)"
    using numbered_info [OF Node.prems(2)] Node.prems(2) by (auto simp: numbered_def)
  have room: "small (Suc (length xsc))" using Node.prems(5) by simp
  obtain z1 xs1 b where z1: "ZSet_insert zc (name_at rhs a) (score_at rhs a) = Some (b, z1)" "zset_ok z1 xs1"
    "score_map z1 xs1 = (score_map zc xsc)(name_at rhs a \<mapsto> score_at rhs a)" "length xs1 \<le> Suc (length xsc)"
    by (rule ZSet_insert_ok [OF Node.prems(4) ia(2) room]) (rule that)
  have sub: "numbered rhs (set_tree l)" "numbered rhs (set_tree r)"
    "inj_on (name_at rhs) (set_tree l)" "inj_on (name_at rhs) (set_tree r)"
    using Node.prems(2,3) by (auto simp: numbered_def inj_on_def)
  have "small (size l + length xs1)" using Node.prems(5) z1(4) by simp
  from Node.IH(1) [OF n(3) sub(1,3) z1(2) this] obtain z2 xs2 where
    z2: "set_cpy rhs (left n) z1 = Some z2" "zset_ok z2 xs2" "length xs2 \<le> size l + length xs1"
    and m2: "overrides rhs (set_tree l) (score_map z1 xs1) (score_map z2 xs2)" by blast
  have "small (size r + length xs2)" using Node.prems(5) z1(4) z2(3) by simp
  from Node.IH(2) [OF n(4) sub(2,4) z2(2) this] obtain z3 xs3 where
    z3: "set_cpy rhs (right n) z2 = Some z3" "zset_ok z3 xs3" "length xs3 \<le> size r + length xs2"
    and m3: "overrides rhs (set_tree r) (score_map z2 xs2) (score_map z3 xs3)" by blast
  have eq: "set_cpy rhs q zc = Some z3"
    using n z1(1) z2(1) z3(1) ia(1) by (simp add: set_cpy.simps [of rhs "Some a"])
  have len: "length xs3 \<le> size (Node l a r) + length xsc" using z1(4) z2(3) z3(3) by simp
  have m1: "overrides rhs {a} (score_map zc xsc) (score_map z1 xs1)"
    unfolding z1(3) by (rule overrides_one)
  have inj: "inj_on (name_at rhs) ({a} \<union> set_tree l \<union> set_tree r)" using Node.prems(3) by simp
  have "overrides rhs (({a} \<union> set_tree l) \<union> set_tree r) (score_map zc xsc) (score_map z3 xs3)"
    by (intro overrides_union [OF overrides_union [OF m1 m2] m3] inj_on_subset [OF inj]) auto
  then show ?case using eq len z3(2) by (intro exI [of _ z3] exI [of _ xs3]) simp
qed

lemma zset_empty_ok: "zset_ok ZSet_empty []"
  by (simp add: zset_ok_def ZSet_empty_def HMap_empty_ok)

lemma ZSet_copy_ok:
  assumes ok: "zset_ok z xs"
  obtains z' xs' where "ZSet_copy z = Some z'" "zset_ok z' xs'" "score_map z' xs' = score_map z xs"
proof -
  obtain t where t: "is_tree (tree z) None (root z) t" "avl t" "inorder t = xs" "distinct (inorder t)"
    "small (size t)" "set_tree t = set xs" "size t = length xs"
    using avl_seqE [OF zset_seq [OF ok]] .
  have "numbered z (set_tree t)" "inj_on (name_at z) (set_tree t)"
    using zset_ok_numbered [OF ok] ok t(6) by (simp_all add: zset_ok_def distinct_map)
  moreover have "small (size t + length ([] :: addr list))" using t(5) by simp
  ultimately obtain z' xs' where c: "set_cpy z (root z) ZSet_empty = Some z'" "zset_ok z' xs'"
    "overrides z (set_tree t) (score_map ZSet_empty []) (score_map z' xs')"
    using set_cpy_ok [OF t(1) _ _ zset_empty_ok] by blast
  have "score_map z' xs' = score_map z xs"
    using c(3) by (intro map_eqI)
      (auto simp: overrides_def named_def score_map_iff [OF ok] t(6) score_map_def [of ZSet_empty])
  then show ?thesis using that c(1,2) by (simp add: ZSet_copy_def)
qed

lemma tree_dispose_ok:
  "is_tree H par q t \<Longrightarrow> distinct (inorder t) \<Longrightarrow>
    \<exists>H'. tree_dispose q H = Some H' \<and> H' = H |` (- set_tree t)"
proof (induction t arbitrary: H par q)
  case Leaf
  then show ?case by (simp add: tree_dispose.simps restrict_map_def)
next
  case (Node l a r)
  obtain n where n: "q = Some a" "H a = Some n" "is_tree H (Some a) (left n) l"
    "is_tree H (Some a) (right n) r" using Node.prems(1) by auto
  have d: "a \<notin> set_tree l" "a \<notin> set_tree r" "set_tree l \<inter> set_tree r = {}"
    "distinct (inorder l)" "distinct (inorder r)" using Node.prems(2) by auto
  let ?H1 = "H |` (- set_tree l)"
  have 1: "tree_dispose (left n) H = Some ?H1" using Node.IH(1) [OF n(3) d(4)] by simp
  have "is_tree ?H1 (Some a) (right n) r = is_tree H (Some a) (right n) r"
    by (rule is_tree_frame) (use d(3) in \<open>auto simp: restrict_map_def\<close>)
  then have "is_tree ?H1 (Some a) (right n) r" using n(4) by simp
  then have 2: "tree_dispose (right n) ?H1 = Some (?H1 |` (- set_tree r))"
    using Node.IH(2) d(5) by simp
  have "tree_dispose q H = Some ((?H1 |` (- set_tree r))(a := None))"
    using n(1,2) d(1,2) 1 2 by (simp add: tree_dispose.simps [of "Some a"] restrict_map_def)
  moreover have "(?H1 |` (- set_tree r))(a := None) = H |` (- set_tree (Node l a r))"
    by (auto simp: restrict_map_def fun_eq_iff)
  ultimately show ?case by simp
qed

subsection \<open>Sets as maps\<close>

text \<open>
  The commands of a client of sorted sets, their effect on a map from names to scores, and a run of
  commands on any implementation.
\<close>

datatype zop = ZInsert bytes u64 | ZRemove bytes

fun apply_op :: "zop \<Rightarrow> (bytes \<rightharpoonup> u64) \<Rightarrow> (bytes \<rightharpoonup> u64)" where
  "apply_op (ZInsert n s) m = m(n \<mapsto> s)"
| "apply_op (ZRemove n) m = m(n := None)"

fun op_nan :: "zop \<Rightarrow> bool" where
  "op_nan (ZInsert n s) = dbl_nan s"
| "op_nan (ZRemove n) = False"

fun run_ops :: "('z \<Rightarrow> bytes \<Rightarrow> u64 \<Rightarrow> (bool \<times> 'z) option) \<Rightarrow> ('z \<Rightarrow> bytes \<Rightarrow> (bool \<times> 'z) option) \<Rightarrow>
    zop list \<Rightarrow> 'z \<Rightarrow> (bool list \<times> 'z) option" where
  "run_ops ins rem [] z = Some ([], z)"
| "run_ops ins rem (c # cs) z = do {
     (b, z) \<leftarrow> (case c of ZInsert n s \<Rightarrow> ins z n s | ZRemove n \<Rightarrow> rem z n);
     (bs, z) \<leftarrow> run_ops ins rem cs z;
     Some (b # bs, z)
   }"

text \<open>What a run reports: whether the inserted name was new, whether the removed one was there.\<close>

fun op_flags :: "zop list \<Rightarrow> (bytes \<rightharpoonup> u64) \<Rightarrow> bool list" where
  "op_flags [] m = []"
| "op_flags (c # cs) m =
    (case c of ZInsert n s \<Rightarrow> m n = None | ZRemove n \<Rightarrow> m n \<noteq> None) # op_flags cs (apply_op c m)"

locale scored_set =
  fixes inv :: "'z \<Rightarrow> nat \<Rightarrow> (bytes \<rightharpoonup> u64) \<Rightarrow> bool"
    and room :: "nat \<Rightarrow> bool"
    and ins :: "'z \<Rightarrow> bytes \<Rightarrow> u64 \<Rightarrow> (bool \<times> 'z) option"
    and rem :: "'z \<Rightarrow> bytes \<Rightarrow> (bool \<times> 'z) option"
  assumes room_down: "room j \<Longrightarrow> k \<le> j \<Longrightarrow> room k"
    and ins_law: "inv z k m \<Longrightarrow> \<not> dbl_nan s \<Longrightarrow> room (Suc k) \<Longrightarrow>
      \<exists>z' k'. ins z n s = Some (m n = None, z') \<and> inv z' k' (m(n \<mapsto> s)) \<and> k' \<le> Suc k"
    and rem_law: "inv z k m \<Longrightarrow>
      \<exists>z' k'. rem z n = Some (m n \<noteq> None, z') \<and> inv z' k' (m(n := None)) \<and> k' \<le> k"
begin

lemma run_refines:
  "inv z k m \<Longrightarrow> room (k + length cs) \<Longrightarrow> \<forall>c \<in> set cs. \<not> op_nan c \<Longrightarrow>
    \<exists>z' k'. run_ops ins rem cs z = Some (op_flags cs m, z') \<and> inv z' k' (fold apply_op cs m)"
proof (induction cs arbitrary: z k m)
  case Nil
  then show ?case by auto
next
  case (Cons c cs)
  have "\<exists>z1 k1. (case c of ZInsert n s \<Rightarrow> ins z n s | ZRemove n \<Rightarrow> rem z n) =
      Some ((case c of ZInsert n s \<Rightarrow> m n = None | ZRemove n \<Rightarrow> m n \<noteq> None), z1) \<and>
      inv z1 k1 (apply_op c m) \<and> k1 \<le> Suc k"
  proof (cases c)
    case (ZInsert n s)
    moreover have "room (Suc k)" using room_down [OF Cons.prems(2)] by simp
    moreover have "\<not> dbl_nan s" using Cons.prems(3) ZInsert by simp
    ultimately show ?thesis using ins_law [OF Cons.prems(1)] by auto
  next
    case (ZRemove n)
    obtain z' k' where "rem z n = Some (m n \<noteq> None, z')" "inv z' k' (m(n := None))" "k' \<le> k"
      using rem_law [OF Cons.prems(1)] by blast
    then show ?thesis using ZRemove
      by (intro exI [of _ z'] exI [of _ k']) simp
  qed
  then obtain z1 k1 where s: "(case c of ZInsert n s \<Rightarrow> ins z n s | ZRemove n \<Rightarrow> rem z n) =
      Some ((case c of ZInsert n s \<Rightarrow> m n = None | ZRemove n \<Rightarrow> m n \<noteq> None), z1)"
    "inv z1 k1 (apply_op c m)" "k1 \<le> Suc k" by blast
  have "room (k1 + length cs)" using room_down [OF Cons.prems(2)] s(3) by simp
  then obtain z' k' where "run_ops ins rem cs z1 = Some (op_flags cs (apply_op c m), z')"
    "inv z' k' (fold apply_op cs (apply_op c m))"
    using Cons.IH [OF s(2)] Cons.prems(3) by auto
  then show ?case using s(1) by (intro exI [of _ z'] exI [of _ k']) simp
qed

lemma insert_insert:
  assumes "inv z k m" "\<not> dbl_nan s" "\<not> dbl_nan t" "room (Suc (Suc k))"
  shows "\<exists>z' k'. run_ops ins rem [ZInsert n s, ZInsert n t] z = Some ([m n = None, False], z') \<and>
    inv z' k' (m(n \<mapsto> t))"
  using run_refines [OF assms(1), of "[ZInsert n s, ZInsert n t]"] assms(2-4) by simp

lemma insert_remove:
  assumes "inv z k m" "\<not> dbl_nan s" "room (Suc (Suc k))" "m n = None"
  shows "\<exists>z' k'. run_ops ins rem [ZInsert n s, ZRemove n] z = Some ([True, True], z') \<and> inv z' k' m"
  using run_refines [OF assms(1), of "[ZInsert n s, ZRemove n]"] assms(2-4) by (simp add: fun_upd_idem)

end

definition zset_is :: "zset \<Rightarrow> nat \<Rightarrow> (bytes \<rightharpoonup> u64) \<Rightarrow> bool" where
  "zset_is z k m = (\<exists>xs. zset_ok z xs \<and> length xs = k \<and> score_map z xs = m)"

lemma zset_isI: "zset_ok z xs \<Longrightarrow> zset_is z (length xs) (score_map z xs)"
  by (auto simp: zset_is_def)

lemma zset_is_empty: "zset_is ZSet_empty 0 Map.empty"
  using zset_isI [OF zset_empty_ok] by (simp add: score_map_def)

interpretation zs: scored_set zset_is small ZSet_insert ZSet_rem
proof unfold_locales
  fix z k m s n assume "zset_is z k m" "\<not> dbl_nan s" "small (Suc k)"
  then obtain xs where xs: "zset_ok z xs" "k = length xs" "m = score_map z xs" by (auto simp: zset_is_def)
  show "\<exists>z' k'. ZSet_insert z n s = Some (m n = None, z') \<and> zset_is z' k' (m(n \<mapsto> s)) \<and> k' \<le> Suc k"
    by (rule ZSet_insert_ok [OF xs(1) \<open>\<not> dbl_nan s\<close>])
      (use \<open>small (Suc k)\<close> xs zset_isI in \<open>force+\<close>)
next
  fix z k m n assume "zset_is z k m"
  then obtain xs where xs: "zset_ok z xs" "k = length xs" "m = score_map z xs" by (auto simp: zset_is_def)
  show "\<exists>z' k'. ZSet_rem z n = Some (m n \<noteq> None, z') \<and> zset_is z' k' (m(n := None)) \<and> k' \<le> k"
    by (rule ZSet_rem_ok [OF xs(1), of n]) (use xs zset_isI in force)
qed auto

text \<open>The range queries: a search, a move and a walk.\<close>

lemma ZNode_offset_at:
  assumes "zset_ok z xs" "i < length xs"
  shows "ZNode_offset z (Some (xs ! i)) k = Some (if 0 \<le> int i + k \<and> int i + k < int (length xs)
    then Some (xs ! nat (int i + k)) else None)"
  unfolding ZNode_offset_def using avl_seq_offset [OF zset_seq [OF assms(1)] assms(2)] by simp

lemma ZSet_range_ge:
  assumes ok: "zset_ok z xs" and num: "\<not> dbl_nan s"
  shows "do {
      cur \<leftarrow> ZSet_seekge z s n;
      cur \<leftarrow> ZNode_offset z cur k;
      enumerate_by (AVLNode_offset (tree z)) 1 l cur
    } = Some (let j = count_below z xs (zkey_of (s, n)); i = int j + k in
      if j < length xs \<and> 0 \<le> i then take l (drop (nat i) xs) else [])"
proof -
  let ?j = "count_below z xs (zkey_of (s, n))"
  note at = ZNode_offset_at [OF ok, of ?j k]
  note walk = avl_enumerate(1) [OF zset_seq [OF ok]]
  have nil: "enumerate_by f d l None = Some []" for f :: "addr \<Rightarrow> int \<Rightarrow> addr option option" and d
    by (cases l) simp_all
  show ?thesis
  proof (cases "?j < length xs \<and> 0 \<le> int ?j + k \<and> int ?j + k < int (length xs)")
    case True
    then have "nat (int ?j + k) < length xs" by linarith
    then show ?thesis
      using True at walk [of "nat (int ?j + k)" l] by (simp add: ZSet_seek_index(1) [OF ok num] Let_def)
  next
    case False
    then show ?thesis
      using at nil by (auto simp: ZSet_seek_index(1) [OF ok num] Let_def ZNode_offset_def)
  qed
qed

lemma ZSet_range_le:
  assumes ok: "zset_ok z xs" and num: "\<not> dbl_nan s"
  shows "do {
      cur \<leftarrow> ZSet_seekle z s n;
      cur \<leftarrow> ZNode_offset z cur k;
      enumerate_by (AVLNode_offset (tree z)) (- 1) l cur
    } = Some (let j = count_upto z xs (zkey_of (s, n)); i = int j + k in
      if 0 < j \<and> i \<le> int (length xs) then take l (rev (take (nat i) xs)) else [])"
proof -
  let ?j = "count_upto z xs (zkey_of (s, n))"
  have le: "?j \<le> length xs" using ZSet_seek_index(4) [OF ok num] .
  note at = ZNode_offset_at [OF ok, of "?j - 1" k]
  note walk = avl_enumerate(2) [OF zset_seq [OF ok]]
  have nil: "enumerate_by f d l None = Some []" for f :: "addr \<Rightarrow> int \<Rightarrow> addr option option" and d
    by (cases l) simp_all
  show ?thesis
  proof (cases "0 < ?j \<and> 0 < int ?j + k \<and> int ?j + k \<le> int (length xs)")
    case True
    then have "nat (int ?j + k) - 1 = nat (int (?j - 1) + k)" "nat (int ?j + k) \<le> length xs" "0 < nat (int ?j + k)"
      "?j - 1 < length xs" using le by linarith+
    then show ?thesis
      using True le at walk [of "nat (int ?j + k)" l]
      by (simp add: ZSet_seek_index(2) [OF ok num] Let_def of_nat_diff)
  next
    case False
    then show ?thesis
      using le at nil by (auto simp: ZSet_seek_index(2) [OF ok num] Let_def ZNode_offset_def of_nat_diff)
  qed
qed

subsection \<open>Properties\<close>

text \<open>C8: Any sequence of insertions and removals on an empty set, with no score that is not a
  number, runs to the end, reports for every command whether the name was new (insert) or present
  (remove), and leaves a well-formed set -- the tree sorted by score and name and balanced, the
  index and the tree over the same objects -- that stands for the map the commands build: the last
  score given to a name and not removed since. Lookups of any name then agree with that map.\<close>

theorem ZSet_run_correct:
  assumes "\<forall>c \<in> set cs. \<not> op_nan c" "small (length cs)"
  shows "\<exists>z xs. run_ops ZSet_insert ZSet_rem cs ZSet_empty = Some (op_flags cs Map.empty, z) \<and>
    zset_ok z xs \<and> score_map z xs = fold apply_op cs Map.empty \<and>
    (\<forall>name. \<exists>r. ZSet_lookup z name = Some r \<and>
      map_option (score_at z) r = fold apply_op cs Map.empty name)"
proof -
  from zs.run_refines [OF zset_is_empty, of cs] assms obtain z xs where
    z: "run_ops ZSet_insert ZSet_rem cs ZSet_empty = Some (op_flags cs Map.empty, z)"
      "zset_ok z xs" "score_map z xs = fold apply_op cs Map.empty"
    by (auto simp: zset_is_def)
  have "\<exists>r. ZSet_lookup z name = Some r \<and> map_option (score_at z) r = score_map z xs name" for name
  proof (cases rule: ZSet_lookup_ok [OF z(2), of name])
    case 1
    then have "score_map z xs name = None" by (simp add: score_map_None)
    then show ?thesis using 1 by simp
  next
    case (2 a)
    then have "score_map z xs name = Some (score_at z a)" using score_map_iff [OF z(2)] by auto
    then show ?thesis using 2 by simp
  qed
  then show ?thesis using z by auto
qed

definition sample_ops :: "zop list" where
  "sample_ops = [ZInsert [98] 0x3FF0000000000000, ZInsert [97] 0x3FF0000000000000,
    ZInsert [99] 0x4000000000000000, ZInsert [99] 0x3FE0000000000000, ZRemove [100]]"

lemma sample_ops_ok: "\<forall>c \<in> set sample_ops. \<not> op_nan c" "small (length sample_ops)"
  by (simp_all add: sample_ops_def dbl_nan_def dbl_mag_def)

lemma ZSet_run_correct_witness:
  "\<exists>z xs. run_ops ZSet_insert ZSet_rem sample_ops ZSet_empty = Some ([True, True, True, False, False], z) \<and>
    zset_ok z xs \<and> score_map z xs [99] = Some 0x3FE0000000000000"
proof -
  have "op_flags sample_ops Map.empty = [True, True, True, False, False]"
    "fold apply_op sample_ops Map.empty [99] = Some 0x3FE0000000000000"
    by (simp_all add: sample_ops_def)
  then show ?thesis using ZSet_run_correct [OF sample_ops_ok] by metis
qed

text \<open>C29: Copying a set by inserting its members in preorder returns a well-formed set with the
  same map from names to scores, and disposing of a set's tree frees each of its objects exactly
  once and no other object.\<close>

theorem ZSet_copy_correct:
  assumes "zset_ok z xs"
  shows "(\<exists>z' xs'. ZSet_copy z = Some z' \<and> zset_ok z' xs' \<and> score_map z' xs' = score_map z xs) \<and>
    tree_dispose (root z) (tree z) = Some (tree z |` (- set xs))"
proof
  show "\<exists>z' xs'. ZSet_copy z = Some z' \<and> zset_ok z' xs' \<and> score_map z' xs' = score_map z xs"
    by (rule ZSet_copy_ok [OF assms]) blast
  obtain t where t: "is_tree (tree z) None (root z) t" "avl t" "inorder t = xs" "distinct (inorder t)"
    "small (size t)" "set_tree t = set xs" "size t = length xs"
    using avl_seqE [OF zset_seq [OF assms]] .
  then show "tree_dispose (root z) (tree z) = Some (tree z |` (- set xs))"
    using tree_dispose_ok [OF t(1,4)] by simp
qed

lemma sample_zset_ok:
  obtains z xs where "run_ops ZSet_insert ZSet_rem sample_ops ZSet_empty = Some (op_flags sample_ops Map.empty, z)"
    "zset_ok z xs" "score_map z xs = fold apply_op sample_ops Map.empty"
  using zs.run_refines [OF zset_is_empty, of sample_ops] sample_ops_ok by (auto simp: zset_is_def)

lemma ZSet_copy_correct_witness:
  "\<exists>z xs z' xs'. zset_ok z xs \<and> ZSet_copy z = Some z' \<and> zset_ok z' xs' \<and>
    score_map z' xs' [98] = Some 0x3FF0000000000000"
proof -
  obtain z xs where z: "zset_ok z xs" "score_map z xs = fold apply_op sample_ops Map.empty"
    by (rule sample_zset_ok)
  then have "score_map z xs [98] = Some 0x3FF0000000000000" by (simp add: sample_ops_def)
  then show ?thesis using ZSet_copy_correct [OF z(1)] z(1) by metis
qed

text \<open>\<^verbatim>\<open>tree_delete\<close> can delete another member than the one given: the search stops at the
  first node with an equal score, whatever its name. In the set of the members b, a and c with
  scores 1, 1 and 2 the deletion of a removes b.\<close>

theorem ZSet_tree_delete_other:
  "\<exists>z z' i. run_ops ZSet_insert ZSet_rem (take 3 sample_ops) ZSet_empty = Some (i, z) \<and>
    map_option snd (info z 0) = Some [98] \<and> map_option snd (info z 1) = Some [97] \<and>
    ZSet_tree_delete z 1 = Some (True, z') \<and>
    info z' 0 = None \<and> map_option snd (info z' 1) = Some [97]"
proof -
  have "(case run_ops ZSet_insert ZSet_rem (take 3 sample_ops) ZSet_empty of None \<Rightarrow> False
    | Some (i, z) \<Rightarrow> map_option snd (info z 0) = Some [98] \<and> map_option snd (info z 1) = Some [97] \<and>
      (case ZSet_tree_delete z 1 of None \<Rightarrow> False
       | Some (b, z') \<Rightarrow> b \<and> info z' 0 = None \<and> map_option snd (info z' 1) = Some [97]))"
    by code_simp
  then show ?thesis by (auto split: option.splits) (metis not_Some_eq surj_pair)
qed

end
