(* ===== verification/MRD_Heap.thy ===== *)
theory MRD_Heap
  imports MRD_Prelude
begin

text \<open>
  The binary min-heap of timers of \<^verbatim>\<open>shared/src/MRD_heap.cpp\<close>. An item holds an expiry time and a
  pointer to the index cell of the entry it belongs to; the cells are a store from addresses to
  \<^verbatim>\<open>size_t\<close> values, and every move of an item writes its cell.
\<close>

record heap_item =
  val :: u64
  ref :: addr

type_synonym cells = "addr \<Rightarrow> nat"

subsection \<open>The operations\<close>

text \<open>
  Positions are \<^verbatim>\<open>size_t\<close>; a vector of 16-byte items has fewer than \<open>2 ^ 60\<close> of them, so
  \<open>2 * pos + 2\<close> does not wrap. \<open>heap_parent\<close> is called for positive positions only.
\<close>

definition heap_parent :: "nat \<Rightarrow> nat" where
  "heap_parent pos = (pos + 1) div 2 - 1"

definition heap_left :: "nat \<Rightarrow> nat" where
  "heap_left pos = pos * 2 + 1"

definition heap_right :: "nat \<Rightarrow> nat" where
  "heap_right pos = pos * 2 + 2"

text \<open>The child the loop of \<open>down\<close> moves up, or the position itself.\<close>

definition min_child :: "heap_item list \<Rightarrow> u64 \<Rightarrow> nat \<Rightarrow> nat \<Rightarrow> nat" where
  "min_child a tval pos len =
    (let l = heap_left pos; r = heap_right pos;
         (min_pos, min_val) =
           (if l < len \<and> val (a ! l) < tval then (l, val (a ! l)) else (pos, tval))
     in if r < len \<and> val (a ! r) < min_val then r else min_pos)"

lemma min_child_cases:
  "min_child a v pos len = pos \<or>
   (min_child a v pos len \<in> {heap_left pos, heap_right pos} \<and> min_child a v pos len < len)"
  by (auto simp: min_child_def Let_def)

function down_loop ::
  "heap_item \<Rightarrow> nat \<Rightarrow> heap_item list \<Rightarrow> cells \<Rightarrow> nat \<Rightarrow> heap_item list \<times> cells \<times> nat" where
  "down_loop t len a cs pos =
    (let m = min_child a (val t) pos len
     in if m = pos then (a, cs, pos)
        else down_loop t len (a[pos := a ! m]) (cs(ref (a ! m) := pos)) m)"
  by pat_completeness auto
termination
proof (relation "measure (\<lambda>(t, len, a, cs, pos). len - pos)", goal_cases)
  case (2 t len a cs pos m)
  then show ?case
    using min_child_cases [of a "val t" pos len] by (auto simp: heap_left_def heap_right_def)
qed auto

definition HeapItem_down :: "heap_item list \<Rightarrow> cells \<Rightarrow> nat \<Rightarrow> nat \<Rightarrow> heap_item list \<times> cells" where
  "HeapItem_down a cs pos len =
    (let t = a ! pos; (a, cs, pos) = down_loop t len a cs pos
     in (a[pos := t], cs(ref t := pos)))"

function up_loop :: "heap_item \<Rightarrow> heap_item list \<Rightarrow> cells \<Rightarrow> nat \<Rightarrow> heap_item list \<times> cells \<times> nat" where
  "up_loop t a cs pos =
    (if pos > 0 \<and> val (a ! heap_parent pos) > val t
     then up_loop t (a[pos := a ! heap_parent pos]) (cs(ref (a ! heap_parent pos) := pos))
            (heap_parent pos)
     else (a, cs, pos))"
  by pat_completeness auto
termination
  by (relation "measure (\<lambda>(t, a, cs, pos). pos)") (auto simp: heap_parent_def)

definition HeapItem_up :: "heap_item list \<Rightarrow> cells \<Rightarrow> nat \<Rightarrow> heap_item list \<times> cells" where
  "HeapItem_up a cs pos =
    (let t = a ! pos; (a, cs, pos) = up_loop t a cs pos
     in (a[pos := t], cs(ref t := pos)))"

definition HeapItem_update :: "heap_item list \<Rightarrow> cells \<Rightarrow> nat \<Rightarrow> nat \<Rightarrow> heap_item list \<times> cells" where
  "HeapItem_update a cs pos len =
    (if pos > 0 \<and> val (a ! heap_parent pos) > val (a ! pos)
     then HeapItem_up a cs pos else HeapItem_down a cs pos len)"

text \<open>Erasing at a position outside the vector is undefined.\<close>

definition HeapItem_erase :: "heap_item list \<Rightarrow> cells \<Rightarrow> nat \<Rightarrow> (heap_item list \<times> cells) option" where
  "HeapItem_erase a cs pos = do {
     oguard (pos < length a);
     let a = butlast (a[pos := last a]);
     Some (if pos < length a then HeapItem_update a cs pos (length a) else (a, cs))
   }"

definition HeapItem_upsert ::
  "heap_item list \<Rightarrow> cells \<Rightarrow> nat \<Rightarrow> heap_item \<Rightarrow> heap_item list \<times> cells" where
  "HeapItem_upsert a cs pos t =
    (let (a, pos) = (if pos < length a then (a[pos := t], pos) else (a @ [t], length a))
     in HeapItem_update a cs pos (length a))"


declare down_loop.simps [simp del] up_loop.simps [simp del]

subsection \<open>The heap order\<close>

definition heap_ok :: "heap_item list \<Rightarrow> bool" where
  "heap_ok a = (\<forall>i. 0 < i \<and> i < length a \<longrightarrow> val (a ! heap_parent i) \<le> val (a ! i))"

text \<open>The order may fail below, above, or on both sides of one position.\<close>

definition skips_gap :: "heap_item list \<Rightarrow> nat \<Rightarrow> bool" where
  "skips_gap a pos = (\<forall>i. 0 < pos \<and> 0 < i \<and> i < length a \<and> heap_parent i = pos \<longrightarrow>
     val (a ! heap_parent pos) \<le> val (a ! i))"

definition heap_below :: "heap_item list \<Rightarrow> nat \<Rightarrow> bool" where
  "heap_below a pos = (skips_gap a pos \<and>
     (\<forall>i. 0 < i \<and> i < length a \<and> heap_parent i \<noteq> pos \<longrightarrow> val (a ! heap_parent i) \<le> val (a ! i)))"

definition heap_above :: "heap_item list \<Rightarrow> nat \<Rightarrow> bool" where
  "heap_above a pos = (skips_gap a pos \<and>
     (\<forall>i. 0 < i \<and> i < length a \<and> i \<noteq> pos \<longrightarrow> val (a ! heap_parent i) \<le> val (a ! i)))"

definition heap_around :: "heap_item list \<Rightarrow> nat \<Rightarrow> bool" where
  "heap_around a pos = (skips_gap a pos \<and> (\<forall>i. 0 < i \<and> i < length a \<and> i \<noteq> pos \<and>
     heap_parent i \<noteq> pos \<longrightarrow> val (a ! heap_parent i) \<le> val (a ! i)))"

text \<open>Every cell but that of the item in the hand holds its item's position.\<close>

definition cells_but :: "heap_item list \<Rightarrow> cells \<Rightarrow> nat \<Rightarrow> bool" where
  "cells_but a cs pos = (distinct (map ref a) \<and>
     (\<forall>i < length a. i \<noteq> pos \<longrightarrow> cs (ref (a ! i)) = i))"

definition cells_ok :: "heap_item list \<Rightarrow> cells \<Rightarrow> bool" where
  "cells_ok a cs = (\<forall>i < length a. cs (ref (a ! i)) = i)"

lemma cells_ok_distinct: "cells_ok a cs \<Longrightarrow> distinct (map ref a)"
  unfolding cells_ok_def distinct_conv_nth by (metis length_map nth_map)

lemma cells_ok_but: "cells_ok a cs \<Longrightarrow> cells_but a cs pos"
  using cells_ok_distinct by (auto simp: cells_but_def cells_ok_def)

lemma heap_parent_less: "0 < i \<Longrightarrow> heap_parent i < i"
  by (simp add: heap_parent_def)

lemma heap_parent_child [simp]:
  "heap_parent (heap_left p) = p" "heap_parent (heap_right p) = p"
  by (simp_all add: heap_parent_def heap_left_def heap_right_def)

lemma heap_children: "0 < i \<Longrightarrow> heap_parent i = p \<longleftrightarrow> i = heap_left p \<or> i = heap_right p"
  by (auto simp: heap_parent_def heap_left_def heap_right_def)

lemma heap_child_pos [simp]: "0 < heap_left p" "0 < heap_right p" "p < heap_left p" "p < heap_right p"
  by (simp_all add: heap_left_def heap_right_def)

lemma heap_child_ne [simp]:
  "heap_left p \<noteq> p" "heap_right p \<noteq> p" "heap_right p \<noteq> heap_left p"
  by (simp_all add: heap_left_def heap_right_def)

lemma heap_ok_min: "heap_ok a \<Longrightarrow> i < length a \<Longrightarrow> val (a ! 0) \<le> val (a ! i)"
proof (induction i rule: less_induct)
  case (less i)
  show ?case
  proof (cases "i = 0")
    case False
    then have "heap_parent i < i" by (simp add: heap_parent_less)
    then have "val (a ! 0) \<le> val (a ! heap_parent i)" using less by simp
    moreover have "val (a ! heap_parent i) \<le> val (a ! i)"
      using less.prems False by (auto simp: heap_ok_def)
    ultimately show ?thesis by simp
  qed simp
qed

lemma min_child_stop:
  "min_child a v pos len = pos \<Longrightarrow> c = heap_left pos \<or> c = heap_right pos \<Longrightarrow> c < len \<Longrightarrow>
   v \<le> val (a ! c)"
  by (auto simp: min_child_def Let_def split: if_splits)

lemma min_child_move:
  assumes "min_child a v pos len = m" "m \<noteq> pos"
  shows "m < len" "heap_parent m = pos" "pos < m" "val (a ! m) < v"
    "\<And>c. c = heap_left pos \<or> c = heap_right pos \<Longrightarrow> c < len \<Longrightarrow> val (a ! m) \<le> val (a ! c)"
  using assms heap_child_pos(3,4) [of pos]
  by (auto simp: min_child_def Let_def split: if_splits)

text \<open>The hand and its next position change places.\<close>

lemma swap_hand:
  assumes "pos < length a" "m < length a" "m \<noteq> pos"
  shows "a[pos := a ! m, m := t] = a[pos := t, pos := a[pos := t] ! m, m := t]"
    "mset (a[pos := a ! m, m := t]) = mset (a[pos := t])"
proof -
  show eq: "a[pos := a ! m, m := t] = a[pos := t, pos := a[pos := t] ! m, m := t]"
    using assms by simp
  show "mset (a[pos := a ! m, m := t]) = mset (a[pos := t])"
    using assms by (simp add: mset_update)
qed

lemma cells_but_swap:
  assumes "cells_but (a[pos := t]) cs pos" "pos < length a" "m < length a" "m \<noteq> pos"
  shows "cells_but (a[pos := a ! m, m := t]) (cs(ref (a ! m) := pos)) m"
proof -
  let ?b = "a[pos := t]" and ?b' = "a[pos := a ! m, m := t]"
  have "mset (map ref ?b') = mset (map ref ?b)"
    using swap_hand(2) [OF assms(2-4)] by (simp only: mset_map)
  then have dist: "distinct (map ref ?b')"
    using assms(1) mset_eq_imp_distinct_iff [of "map ref ?b'" "map ref ?b"]
    by (simp add: cells_but_def)
  have "(cs(ref (a ! m) := pos)) (ref (?b' ! i)) = i" if i: "i < length a" "i \<noteq> m" for i
  proof (cases "i = pos")
    case True
    then show ?thesis using assms i by simp
  next
    case False
    then have "?b' ! i = ?b ! i" "?b' ! pos = a ! m" using i assms by simp_all
    moreover have "ref (?b' ! i) \<noteq> ref (?b' ! pos)"
      using nth_eq_iff_index_eq [OF dist, of i pos] i False assms(2)
      by (simp del: nth_list_update)
    moreover have "cs (ref (?b ! i)) = i" using assms(1) i False by (simp add: cells_but_def)
    ultimately show ?thesis by simp
  qed
  then show ?thesis using dist by (simp add: cells_but_def)
qed


subsection \<open>Moving down and up\<close>

text \<open>What both loops keep about the array with the hand's item in its place.\<close>

definition same_items :: "heap_item list \<Rightarrow> cells \<Rightarrow> heap_item list \<Rightarrow> cells \<Rightarrow> bool" where
  "same_items a cs a' cs' = (length a' = length a \<and> mset a' = mset a \<and>
     (\<forall>r. r \<notin> ref ` set a \<longrightarrow> cs' r = cs r))"

lemma same_items_trans:
  "same_items a cs b ds \<Longrightarrow> same_items b ds c es \<Longrightarrow> same_items a cs c es"
  by (auto simp: same_items_def dest: mset_eq_setD)

lemma same_items_swap:
  assumes "pos < length a" "m < length a" "m \<noteq> pos"
  shows "same_items (a[pos := t]) cs (a[pos := a ! m, m := t]) (cs(ref (a ! m) := pos))"
proof -
  have "a ! m \<in> set (a[pos := t])"
    using assms by (metis length_list_update nth_list_update_neq nth_mem)
  then show ?thesis using swap_hand(2) [OF assms] by (auto simp: same_items_def)
qed

lemma heap_below_swap:
  assumes "heap_below (a[pos := t]) pos" "pos < length a"
    and m: "min_child a (val t) pos (length a) = m" "m \<noteq> pos"
  shows "heap_below (a[pos := a ! m, m := t]) m"
proof -
  let ?b = "a[pos := t]" and ?b' = "a[pos := a ! m, m := t]"
  note mc = min_child_move [OF m]
  have gap: "val (?b ! heap_parent pos) \<le> val (?b ! i)"
    if "0 < pos" "0 < i" "i < length a" "heap_parent i = pos" for i
    using assms(1) that by (auto simp: heap_below_def skips_gap_def)
  have ord: "val (?b ! heap_parent i) \<le> val (?b ! i)"
    if "0 < i" "i < length a" "heap_parent i \<noteq> pos" for i
    using assms(1) that by (auto simp: heap_below_def)
  have "val (?b' ! heap_parent i) \<le> val (?b' ! i)"
    if i: "0 < i" "i < length a" "heap_parent i \<noteq> m" for i
  proof -
    consider "i = pos" | "heap_parent i = pos" "i = m" | "heap_parent i = pos" "i \<noteq> m" "i \<noteq> pos"
      | "i \<noteq> pos" "heap_parent i \<noteq> pos" by blast
    then show ?thesis
    proof cases
      case 1
      then have "heap_parent i < pos" using i heap_parent_less by blast
      then show ?thesis using gap [of m] 1 i mc(1-3) m(2) by auto
    next
      case 2
      then show ?thesis using mc m(2) assms(2) by simp
    next
      case 3
      then show ?thesis using mc(5) [of i] heap_children [of i pos] i m(2) assms(2) by simp
    next
      case 4
      then have "i \<noteq> m" using mc(2) by auto
      then show ?thesis using ord [of i] 4 i by simp
    qed
  qed
  moreover have "val (?b' ! heap_parent m) \<le> val (?b' ! i)"
    if i: "0 < i" "i < length a" "heap_parent i = m" for i
  proof -
    have "i \<noteq> m" "i \<noteq> pos" using i mc(2,3) heap_parent_less [of i] by auto
    then show ?thesis using ord [of i] i mc(2) m(2) assms(2) by simp
  qed
  ultimately show ?thesis by (auto simp: heap_below_def skips_gap_def)
qed

lemma down_loop_ok:
  assumes "down_loop t len a cs pos = (a', cs', pos')" "len = length a" "pos < length a"
    "heap_below (a[pos := t]) pos" "cells_but (a[pos := t]) cs pos"
  shows "pos' < length a' \<and> heap_ok (a'[pos' := t]) \<and> cells_but (a'[pos' := t]) cs' pos' \<and>
    same_items (a[pos := t]) cs (a'[pos' := t]) cs'"
  using assms
proof (induction t len a cs pos rule: down_loop.induct)
  case (1 t len a cs pos)
  define m where "m = min_child a (val t) pos (length a)"
  show ?case
  proof (cases "m = pos")
    case True
    then have eq: "a' = a" "cs' = cs" "pos' = pos"
      using 1(2) unfolding 1(3) by (simp_all add: down_loop.simps [of t "length a" a cs pos] m_def Let_def)
    have "heap_ok (a[pos := t])"
      unfolding heap_ok_def
    proof (intro allI impI)
      fix i assume i: "0 < i \<and> i < length (a[pos := t])"
      show "val (a[pos := t] ! heap_parent i) \<le> val (a[pos := t] ! i)"
      proof (cases "heap_parent i = pos")
        case True
        then have "i \<noteq> pos" using i heap_parent_less [of i] by auto
        then show ?thesis
          using min_child_stop [of a "val t" pos "length a" i] \<open>m = pos\<close> True i 1(4)
            heap_children [of i pos] by (simp add: m_def)
      next
        case False
        then show ?thesis using 1(5) i by (simp add: heap_below_def)
      qed
    qed
    then show ?thesis using eq 1(4,6) by (simp add: same_items_def)
  next
    case False
    have m: "min_child a (val t) pos (length a) = m" by (simp add: m_def)
    note mc = min_child_move [OF m False]
    have step: "down_loop t len (a[pos := a ! m]) (cs(ref (a ! m) := pos)) m = (a', cs', pos')"
      using 1(2) False unfolding 1(3) by (simp add: down_loop.simps [of t "length a" a cs pos] m_def Let_def)
    have "heap_below (a[pos := a ! m, m := t]) m"
      by (rule heap_below_swap [OF 1(5,4) m False])
    moreover have "cells_but (a[pos := a ! m, m := t]) (cs(ref (a ! m) := pos)) m"
      by (rule cells_but_swap [OF 1(6,4) mc(1) False])
    ultimately have "pos' < length a' \<and> heap_ok (a'[pos' := t]) \<and> cells_but (a'[pos' := t]) cs' pos' \<and>
        same_items (a[pos := a ! m, m := t]) (cs(ref (a ! m) := pos)) (a'[pos' := t]) cs'"
      using 1(1) [of m] step 1(3) m False mc(1) by (simp del: fun_upd_apply)
    then show ?thesis
      using same_items_trans same_items_swap [OF 1(4) mc(1) False] by blast
  qed
qed

lemma heap_above_swap:
  assumes "heap_above (a[pos := t]) pos" "0 < pos" "pos < length a"
    and q: "q = heap_parent pos" "val t < val (a ! q)"
  shows "heap_above (a[pos := a ! q, q := t]) q"
proof -
  let ?b = "a[pos := t]" and ?b' = "a[pos := a ! q, q := t]"
  have qp: "q < pos" using assms heap_parent_less by simp
  have gap: "val (a ! q) \<le> val (?b ! i)"
    if "0 < i" "i < length a" "heap_parent i = pos" for i
    using assms(1) that q qp assms(2) by (auto simp: heap_above_def skips_gap_def)
  have ord: "val (?b ! heap_parent i) \<le> val (?b ! i)"
    if "0 < i" "i < length a" "i \<noteq> pos" for i
    using assms(1) that by (auto simp: heap_above_def)
  have sub: "val t \<le> val (?b' ! i)" if i: "0 < i" "i < length a" "heap_parent i = q" for i
  proof -
    have "i \<noteq> q" using i heap_parent_less [of i] by auto
    then show ?thesis using ord [of i] i q qp assms(3) by (cases "i = pos") auto
  qed
  have "val (?b' ! heap_parent i) \<le> val (?b' ! i)"
    if i: "0 < i" "i < length a" "i \<noteq> q" for i
  proof -
    consider "heap_parent i = q" | "heap_parent i = pos" | "heap_parent i \<noteq> q" "heap_parent i \<noteq> pos"
      by blast
    then show ?thesis
    proof cases
      case 1
      then show ?thesis using sub [OF i(1,2) 1] qp assms(3) by simp
    next
      case 2
      then have "i \<noteq> pos" using i heap_parent_less [of i] by auto
      then show ?thesis using gap [OF i(1,2) 2] i 2 qp assms(3) by simp
    next
      case 3
      then have "i \<noteq> pos" using q by auto
      then show ?thesis using ord [of i] 3 i by simp
    qed
  qed
  moreover have "val (?b' ! heap_parent q) \<le> val (?b' ! i)"
    if i: "0 < q" "0 < i" "i < length a" "heap_parent i = q" for i
  proof -
    have "i \<noteq> q" "heap_parent q < q" using i heap_parent_less [of i] heap_parent_less [of q] by auto
    moreover have "val (?b ! heap_parent q) \<le> val (?b ! q)" using ord [of q] i qp assms(3) by simp
    moreover have "i \<noteq> pos \<Longrightarrow> val (?b ! q) \<le> val (?b ! i)" using ord [of i] i by simp
    ultimately show ?thesis using qp assms(3) i by (cases "i = pos") auto
  qed
  ultimately show ?thesis by (auto simp: heap_above_def skips_gap_def)
qed

lemma up_loop_ok:
  assumes "up_loop t a cs pos = (a', cs', pos')" "pos < length a"
    "heap_above (a[pos := t]) pos" "cells_but (a[pos := t]) cs pos"
  shows "pos' < length a' \<and> heap_ok (a'[pos' := t]) \<and> cells_but (a'[pos' := t]) cs' pos' \<and>
    same_items (a[pos := t]) cs (a'[pos' := t]) cs'"
  using assms
proof (induction t a cs pos rule: up_loop.induct)
  case (1 t a cs pos)
  define q where "q = heap_parent pos"
  show ?case
  proof (cases "0 < pos \<and> val (a ! q) > val t")
    case False
    then have eq: "a' = a" "cs' = cs" "pos' = pos"
      using 1(2) by (auto simp add: up_loop.simps [of t a cs pos] q_def)
    have "heap_ok (a[pos := t])"
      unfolding heap_ok_def
    proof (intro allI impI)
      fix i assume i: "0 < i \<and> i < length (a[pos := t])"
      show "val (a[pos := t] ! heap_parent i) \<le> val (a[pos := t] ! i)"
      proof (cases "i = pos")
        case True
        then have "heap_parent pos \<noteq> pos" using i heap_parent_less [of pos] by auto
        then show ?thesis using False True i by (auto simp: q_def not_less)
      next
        case False
        then show ?thesis using 1(4) i by (simp add: heap_above_def)
      qed
    qed
    then show ?thesis using eq 1(3,5) by (simp add: same_items_def)
  next
    case True
    have q: "q < pos" "q < length a" "q \<noteq> pos"
      using True 1(3) heap_parent_less [of pos] by (auto simp: q_def)
    have step: "up_loop t (a[pos := a ! q]) (cs(ref (a ! q) := pos)) q = (a', cs', pos')"
      using 1(2) True by (simp add: up_loop.simps [of t a cs pos] q_def)
    have "heap_above (a[pos := a ! q, q := t]) q"
      using heap_above_swap [OF 1(4) _ 1(3)] True q_def by blast
    moreover have "cells_but (a[pos := a ! q, q := t]) (cs(ref (a ! q) := pos)) q"
      by (rule cells_but_swap [OF 1(5,3) q(2,3)])
    ultimately have "pos' < length a' \<and> heap_ok (a'[pos' := t]) \<and> cells_but (a'[pos' := t]) cs' pos' \<and>
        same_items (a[pos := a ! q, q := t]) (cs(ref (a ! q) := pos)) (a'[pos' := t]) cs'"
      using 1(1) [folded q_def] step True q(2) by (simp del: fun_upd_apply)
    then show ?thesis
      using same_items_trans same_items_swap [OF 1(3) q(2,3)] by blast
  qed
qed


subsection \<open>Update, erase and upsert\<close>

lemma cells_but_fill: "cells_but a cs pos \<Longrightarrow> pos < length a \<Longrightarrow> cells_ok a (cs(ref (a ! pos) := pos))"
  unfolding cells_but_def cells_ok_def
  by (auto simp: distinct_conv_nth)

text \<open>The three results a repaired array shares.\<close>

definition repaired :: "heap_item list \<Rightarrow> cells \<Rightarrow> heap_item list \<Rightarrow> cells \<Rightarrow> bool" where
  "repaired a cs a' cs' = (heap_ok a' \<and> cells_ok a' cs' \<and> same_items a cs a' cs')"

lemma repaired_fill:
  assumes "pos < length a" "heap_ok (a[pos := t])" "cells_but (a[pos := t]) cs' pos"
    "same_items b cs (a[pos := t]) cs'"
  shows "repaired b cs (a[pos := t]) (cs'(ref t := pos))"
proof -
  have "t \<in> set (a[pos := t])" using assms(1) by (simp add: set_update_memI)
  then have "ref t \<in> ref ` set b"
    using assms(4) by (metis same_items_def image_eqI mset_eq_setD)
  then have "same_items b cs (a[pos := t]) (cs'(ref t := pos))"
    using assms(4) by (auto simp: same_items_def)
  then show ?thesis
    using assms cells_but_fill [OF assms(3)] by (simp add: repaired_def)
qed

lemma HeapItem_down_ok:
  assumes "heap_below a pos" "cells_but a cs pos" "pos < length a"
    "HeapItem_down a cs pos (length a) = (a', cs')"
  shows "repaired a cs a' cs'"
proof -
  obtain b ds p where l: "down_loop (a ! pos) (length a) a cs pos = (b, ds, p)"
    by (metis prod_cases3)
  then have "a' = b[p := a ! pos]" "cs' = ds(ref (a ! pos) := p)"
    using assms(4) by (auto simp: HeapItem_down_def Let_def)
  then show ?thesis
    using down_loop_ok [OF l] assms(1-3) repaired_fill [of p b "a ! pos" ds a cs] by simp
qed

lemma HeapItem_up_ok:
  assumes "heap_above a pos" "cells_but a cs pos" "pos < length a" "HeapItem_up a cs pos = (a', cs')"
  shows "repaired a cs a' cs'"
proof -
  obtain b ds p where l: "up_loop (a ! pos) a cs pos = (b, ds, p)"
    by (metis prod_cases3)
  then have "a' = b[p := a ! pos]" "cs' = ds(ref (a ! pos) := p)"
    using assms(4) by (auto simp: HeapItem_up_def Let_def)
  then show ?thesis
    using up_loop_ok [OF l] assms(1-3) repaired_fill [of p b "a ! pos" ds a cs] by simp
qed

lemma HeapItem_update_ok:
  assumes "heap_around a pos" "cells_but a cs pos" "pos < length a"
    "HeapItem_update a cs pos (length a) = (a', cs')"
  shows "repaired a cs a' cs'"
proof (cases "pos > 0 \<and> val (a ! heap_parent pos) > val (a ! pos)")
  case True
  have "heap_above a pos"
    unfolding heap_above_def
  proof (intro conjI allI impI)
    show "skips_gap a pos" using assms(1) by (simp add: heap_around_def)
    fix i assume i: "0 < i \<and> i < length a \<and> i \<noteq> pos"
    show "val (a ! heap_parent i) \<le> val (a ! i)"
    proof (cases "heap_parent i = pos")
      case True
      then have "val (a ! heap_parent pos) \<le> val (a ! i)"
        using assms(1) i \<open>pos > 0 \<and> _\<close> by (auto simp: heap_around_def skips_gap_def)
      then show ?thesis using \<open>pos > 0 \<and> _\<close> True
        by (metis less_imp_le order_trans)
    qed (use assms(1) i in \<open>simp add: heap_around_def\<close>)
  qed
  then show ?thesis using HeapItem_up_ok assms True by (simp add: HeapItem_update_def)
next
  case False
  then have "heap_below a pos"
    using assms(1,3) by (auto simp: heap_below_def heap_around_def not_less)
  then show ?thesis using HeapItem_down_ok assms False by (simp add: HeapItem_update_def del: neq0_conv)
qed

lemma heap_ok_around:
  assumes "heap_ok a" "pos < length a"
  shows "heap_around (a[pos := t]) pos"
proof -
  have ord: "val (a ! heap_parent i) \<le> val (a ! i)" if "0 < i" "i < length a" for i
    using assms(1) that by (simp add: heap_ok_def)
  have "val (a[pos := t] ! heap_parent pos) \<le> val (a[pos := t] ! i)"
    if i: "0 < pos" "0 < i" "i < length a" "heap_parent i = pos" for i
  proof -
    have "i \<noteq> pos" "heap_parent pos \<noteq> pos"
      using i heap_parent_less [of i] heap_parent_less [of pos] by auto
    then show ?thesis using ord [of pos] ord [of i] i assms(2) by simp
  qed
  then show ?thesis using ord by (simp add: heap_around_def skips_gap_def)
qed

lemma heap_ok_butlast:
  assumes "heap_ok a"
  shows "heap_ok (butlast a)"
  unfolding heap_ok_def
proof (intro allI impI)
  fix i assume i: "0 < i \<and> i < length (butlast a)"
  then have "heap_parent i < i" by (simp add: heap_parent_less)
  then show "val (butlast a ! heap_parent i) \<le> val (butlast a ! i)"
    using assms i by (simp add: heap_ok_def nth_butlast)
qed

lemma heap_ok_push:
  assumes "heap_ok a"
  shows "heap_around (a @ [t]) (length a)"
proof -
  have less: "heap_parent i < length a" if "0 < i" "i < Suc (length a)" for i
    using heap_parent_less [OF that(1)] that(2) by simp
  have "skips_gap (a @ [t]) (length a)"
    unfolding skips_gap_def
  proof (intro allI impI)
    fix i assume i: "0 < length a \<and> 0 < i \<and> i < length (a @ [t]) \<and> heap_parent i = length a"
    then have "heap_parent i < length a" by (intro less) simp_all
    then show "val ((a @ [t]) ! heap_parent (length a)) \<le> val ((a @ [t]) ! i)" using i by simp
  qed
  moreover have "i < length a" if "i < length (a @ [t])" "i \<noteq> length a" for i
    using that by simp
  ultimately show ?thesis
    using assms less by (simp add: heap_around_def heap_ok_def nth_append)
qed

lemma HeapItem_upsert_ok:
  assumes "heap_ok a" "cells_ok a cs" "HeapItem_upsert a cs pos t = (a', cs')"
    "pos < length a \<Longrightarrow> ref t = ref (a ! pos)" "length a \<le> pos \<Longrightarrow> ref t \<notin> ref ` set a"
  shows "heap_ok a' \<and> cells_ok a' cs' \<and>
    mset a' = (if pos < length a then mset a - {#a ! pos#} else mset a) + {#t#} \<and>
    (\<forall>r. r \<notin> ref ` set a \<longrightarrow> r \<noteq> ref t \<longrightarrow> cs' r = cs r)"
proof (cases "pos < length a")
  case True
  have "map ref (a[pos := t]) = map ref a"
    using True assms(4) by (metis list_update_id map_update nth_map)
  moreover from this have "ref ` set (a[pos := t]) = ref ` set a"
    by (metis list.set_map)
  ultimately have "cells_but (a[pos := t]) cs pos" "ref ` set (a[pos := t]) = ref ` set a"
    using cells_ok_but [OF assms(2), of pos] by (auto simp: cells_but_def)
  then have "repaired (a[pos := t]) cs a' cs'" "ref ` set (a[pos := t]) = ref ` set a"
    using HeapItem_update_ok [OF heap_ok_around [OF assms(1) True, of t]] assms(3) True
    by (simp_all add: HeapItem_upsert_def)
  then show ?thesis
    using True by (auto simp: repaired_def same_items_def mset_update)
next
  case False
  have "cells_but (a @ [t]) cs (length a)"
    using cells_ok_but [OF assms(2), of "length a"] assms(5) False
    by (auto simp: cells_but_def nth_append)
  then have "repaired (a @ [t]) cs a' cs'"
    using HeapItem_update_ok [OF heap_ok_push [OF assms(1), of t]] assms(3) False
    by (simp add: HeapItem_upsert_def)
  then show ?thesis
    using False by (auto simp: repaired_def same_items_def)
qed

lemma HeapItem_erase_ok:
  assumes "heap_ok a" "cells_ok a cs" "pos < length a"
  obtains a' cs' where "HeapItem_erase a cs pos = Some (a', cs')" "heap_ok a'" "cells_ok a' cs'"
    "mset a' = mset a - {#a ! pos#}" "\<And>r. r \<notin> ref ` set a' \<Longrightarrow> cs' r = cs r"
proof (cases "pos = length a - 1")
  case True
  have "a \<noteq> []" using assms(3) by auto
  then have a: "a = butlast a @ [a ! pos]" using True by (metis append_butlast_last_id last_conv_nth)
  have "butlast (a[pos := last a]) = butlast a"
    using True assms(3) by (simp add: butlast_list_update)
  then have "HeapItem_erase a cs pos = Some (butlast a, cs)"
    using assms(3) True by (simp add: HeapItem_erase_def Let_def)
  moreover have "cells_ok (butlast a) cs" using assms(2) by (simp add: cells_ok_def nth_butlast)
  moreover have "mset (butlast a) = mset a - {#a ! pos#}"
    by (subst (2) a) simp
  ultimately show ?thesis using that heap_ok_butlast [OF assms(1)] by blast
next
  case False
  define b where "b = (butlast a)[pos := last a]"
  have ne: "a \<noteq> []" and lt: "pos < length a - 1" using assms(3) False by auto
  have a: "a = butlast a @ [last a]" using ne by simp
  have pos: "butlast a ! pos = a ! pos" using lt by (simp add: nth_butlast)
  have b: "butlast (a[pos := last a]) = b" using False assms(3) by (simp add: butlast_list_update b_def)
  have mb: "mset b = mset a - {#a ! pos#}"
  proof -
    have "mset b = mset (butlast a) - {#a ! pos#} + {#last a#}"
      using lt pos by (simp add: b_def mset_update)
    moreover have "a ! pos \<in># mset (butlast a)" using lt pos by (metis length_butlast nth_mem set_mset_mset)
    moreover have "mset a = mset (butlast a) + {#last a#}" by (subst a) simp
    ultimately show ?thesis by simp
  qed
  have cell: "cs (ref (b ! i)) = (if i = pos then length a - 1 else i)" if "i < length b" for i
    using that assms(2,3) ne by (simp add: b_def cells_ok_def nth_butlast last_conv_nth nth_list_update)
  have "ref (b ! i) \<noteq> ref (b ! j)" if "i < length b" "j < length b" "i \<noteq> j" for i j
    using cell [OF that(1)] cell [OF that(2)] that by (auto simp: b_def split: if_splits)
  then have "cells_but b cs pos"
    using cell by (simp add: cells_but_def distinct_conv_nth)
  moreover obtain a' cs' where u: "HeapItem_update b cs pos (length b) = (a', cs')" by fastforce
  ultimately have "repaired b cs a' cs'"
    using HeapItem_update_ok [OF heap_ok_around [OF heap_ok_butlast [OF assms(1)], of pos "last a"]] lt
    by (simp add: b_def)
  moreover have "HeapItem_erase a cs pos = Some (a', cs')"
    using assms(3) lt u b by (simp add: HeapItem_erase_def Let_def b_def)
  ultimately show ?thesis
    using that mb by (metis repaired_def same_items_def mset_eq_setD)
qed

end
