(* ===== verification/MRD_Timers.thy ===== *)
theory MRD_Timers
  imports MRD_Heap
begin

text \<open>
  The timers of the entries: the heap together with the index cells the entries hold, and the
  server's \<^verbatim>\<open>entry_set_ttl\<close> over them. The queue's interface is a locale, with the expiry loop
  proved once for any queue that keeps its laws.
\<close>

subsection \<open>Timer queues\<close>

text \<open>
  The expiry loop: while the first timer is due, and at most \<open>n\<close> times, the timer is cancelled and
  its owner reported.
\<close>

fun drain :: "('q \<Rightarrow> (addr \<times> u64) option) \<Rightarrow> ('q \<Rightarrow> addr \<Rightarrow> 'q) \<Rightarrow> u64 \<Rightarrow> nat \<Rightarrow> 'q \<Rightarrow> addr list \<times> 'q" where
  "drain first cancel now 0 q = ([], q)"
| "drain first cancel now (Suc n) q =
    (case first q of
       Some (r, v) \<Rightarrow>
         if v < now then (let (rs, q') = drain first cancel now n (cancel q r) in (r # rs, q'))
         else ([], q)
     | None \<Rightarrow> ([], q))"

locale timer_queue =
  fixes inv :: "'q \<Rightarrow> bool"
    and room :: "'q \<Rightarrow> bool"
    and due :: "'q \<Rightarrow> addr \<Rightarrow> u64 option"
    and start :: "'q \<Rightarrow> addr \<Rightarrow> u64 \<Rightarrow> 'q"
    and cancel :: "'q \<Rightarrow> addr \<Rightarrow> 'q"
    and first :: "'q \<Rightarrow> (addr \<times> u64) option"
  assumes start_inv: "inv q \<Longrightarrow> room q \<Longrightarrow> inv (start q r v)"
    and start_due: "inv q \<Longrightarrow> room q \<Longrightarrow> due (start q r v) = (due q)(r \<mapsto> v)"
    and cancel_inv: "inv q \<Longrightarrow> due q r \<noteq> None \<Longrightarrow> inv (cancel q r)"
    and cancel_due: "inv q \<Longrightarrow> due q r \<noteq> None \<Longrightarrow> due (cancel q r) = (due q)(r := None)"
    and first_None: "inv q \<Longrightarrow> first q = None \<Longrightarrow> due q = Map.empty"
    and first_due: "inv q \<Longrightarrow> first q = Some (r, v) \<Longrightarrow> due q r = Some v"
    and first_le: "inv q \<Longrightarrow> first q = Some (r, v) \<Longrightarrow> due q s = Some w \<Longrightarrow> v \<le> w"
begin

lemma restart: "inv q \<Longrightarrow> room q \<Longrightarrow> room (start q r v) \<Longrightarrow>
    due (start (start q r v) r w) = due (start q r w)"
  by (simp add: start_due start_inv)

lemma cancel_start: "inv q \<Longrightarrow> room q \<Longrightarrow> due q r = None \<Longrightarrow> due (cancel (start q r v) r) = due q"
  by (simp add: start_due start_inv cancel_due fun_upd_idem)

lemma drain_sound:
  assumes "inv q" "drain first cancel now n q = (rs, q')"
  shows "inv q' \<and> distinct rs \<and> length rs \<le> n \<and> due q' = due q |` (- set rs) \<and>
    (\<forall>r \<in> set rs. \<exists>v. due q r = Some v \<and> v < now)"
  using assms
proof (induction n arbitrary: q rs)
  case (Suc n)
  show ?case
  proof (cases "\<exists>r v. first q = Some (r, v) \<and> v < now")
    case True
    then obtain r v where f: "first q = Some (r, v)" "v < now" by blast
    obtain ss where d: "drain first cancel now n (cancel q r) = (ss, q')" "rs = r # ss"
      using Suc.prems(2) f by (auto split: prod.splits)
    have r: "due q r = Some v" using first_due Suc.prems(1) f by blast
    then have c: "due (cancel q r) = (due q)(r := None)" "inv (cancel q r)"
      using cancel_due cancel_inv Suc.prems(1) by auto
    note IH = Suc.IH [OF c(2) d(1)]
    have "r \<notin> set ss" using IH c(1) by auto
    moreover have "due q' = due q |` (- set rs)"
      using IH c(1) d(2) by (auto simp: restrict_map_def fun_eq_iff)
    moreover have "\<exists>w. due q s = Some w \<and> w < now" if "s \<in> set rs" for s
    proof (cases "s = r")
      case False
      then show ?thesis using IH c(1) d(2) that by (auto simp: fun_upd_other)
    qed (use r f in simp)
    ultimately show ?thesis using IH d(2) by simp
  next
    case False
    then show ?thesis using Suc.prems by (auto split: option.splits if_splits)
  qed
qed (auto simp: restrict_map_def)

text \<open>Unless its budget was used up, the loop leaves no timer that is due.\<close>

lemma drain_complete:
  assumes "inv q" "drain first cancel now n q = (rs, q')" "length rs < n" "due q' r = Some v"
  shows "now \<le> v"
  using assms
proof (induction n arbitrary: q rs)
  case (Suc n)
  show ?case
  proof (cases "\<exists>r v. first q = Some (r, v) \<and> v < now")
    case True
    then obtain s w where f: "first q = Some (s, w)" "w < now" by blast
    obtain ss where d: "drain first cancel now n (cancel q s) = (ss, q')" "rs = s # ss"
      using Suc.prems(2) f by (auto split: prod.splits)
    have "inv (cancel q s)" using cancel_inv first_due Suc.prems(1) f(1) by auto
    then show ?thesis using Suc.IH [OF _ d(1)] Suc.prems(3,4) d(2) by simp
  next
    case False
    then have q': "q' = q" using Suc.prems(2) by (auto split: option.splits if_splits)
    show ?thesis
    proof (cases "first q")
      case None
      then show ?thesis using first_None Suc.prems(1,4) q' by simp
    next
      case (Some p)
      then obtain s w where p: "first q = Some (s, w)" by (cases p) auto
      then have "w \<le> v" using first_le Suc.prems(1,4) q' by blast
      then show ?thesis using False p by (auto simp: not_less)
    qed
  qed
qed simp

end

subsection \<open>The timers of the entries\<close>

type_synonym timers = "heap_item list \<times> cells"

text \<open>The index \<^verbatim>\<open>(size_t)-1\<close> of an entry without a timer.\<close>

definition no_idx :: nat where
  "no_idx = 2 ^ 64 - 1"

definition timers_ok :: "timers \<Rightarrow> bool" where
  "timers_ok = (\<lambda>(a, cs). heap_ok a \<and> cells_ok a cs \<and> length a \<le> no_idx \<and>
     (\<forall>r. cs r = no_idx \<or> cs r < length a \<and> ref (a ! cs r) = r))"

definition timer_room :: "timers \<Rightarrow> bool" where
  "timer_room = (\<lambda>(a, cs). length a < no_idx)"

definition timer_due :: "timers \<Rightarrow> addr \<Rightarrow> u64 option" where
  "timer_due = (\<lambda>(a, cs) r. if cs r < length a then Some (val (a ! cs r)) else None)"

definition timer_start :: "timers \<Rightarrow> addr \<Rightarrow> u64 \<Rightarrow> timers" where
  "timer_start = (\<lambda>(a, cs) r v. HeapItem_upsert a cs (cs r) \<lparr>val = v, ref = r\<rparr>)"

definition timer_cancel :: "timers \<Rightarrow> addr \<Rightarrow> timers" where
  "timer_cancel = (\<lambda>(a, cs) r. case HeapItem_erase a cs (cs r) of
     Some (a, cs) \<Rightarrow> (a, cs(r := no_idx)) | None \<Rightarrow> (a, cs))"

definition timer_first :: "timers \<Rightarrow> (addr \<times> u64) option" where
  "timer_first = (\<lambda>(a, cs). if a = [] then None else Some (ref (a ! 0), val (a ! 0)))"

text \<open>\<open>entry_set_ttl\<close> of the server, at the time \<open>now\<close> of the monotonic clock.\<close>

definition entry_set_ttl :: "u64 \<Rightarrow> timers \<Rightarrow> addr \<Rightarrow> 64 word \<Rightarrow> timers option" where
  "entry_set_ttl now = (\<lambda>(a, cs) ent ttl_ms.
     if sint ttl_ms < 0 \<and> cs ent \<noteq> no_idx then do {
       (a, cs) \<leftarrow> HeapItem_erase a cs (cs ent);
       Some (a, cs(ent := no_idx))
     } else if sint ttl_ms \<ge> 0 then
       Some (HeapItem_upsert a cs (cs ent) \<lparr>val = now + ttl_ms, ref = ent\<rparr>)
     else Some (a, cs))"

text \<open>The items of a heap as a map.\<close>

lemma timer_due_mem:
  assumes "timers_ok (a, cs)"
  shows "timer_due (a, cs) r = Some v \<longleftrightarrow> \<lparr>val = v, ref = r\<rparr> \<in> set a"
proof
  assume "timer_due (a, cs) r = Some v"
  then have "cs r < length a" "val (a ! cs r) = v" by (auto simp: timer_due_def split: if_splits)
  moreover from this have "ref (a ! cs r) = r"
    using assms by (auto simp: timers_ok_def dest: spec [of _ r])
  ultimately show "\<lparr>val = v, ref = r\<rparr> \<in> set a"
    by (metis (full_types) heap_item.surjective nth_mem old.unit.exhaust)
next
  assume "\<lparr>val = v, ref = r\<rparr> \<in> set a"
  then obtain i where "i < length a" "a ! i = \<lparr>val = v, ref = r\<rparr>" by (auto simp: in_set_conv_nth)
  moreover from this have "cs r = i" using assms by (auto simp: timers_ok_def cells_ok_def)
  ultimately show "timer_due (a, cs) r = Some v" by (simp add: timer_due_def)
qed

lemma item_in_heap: "r \<in> ref ` set a \<longleftrightarrow> (\<exists>v. \<lparr>val = v, ref = r\<rparr> \<in> set a)"
proof
  assume "r \<in> ref ` set a"
  then obtain x where "x \<in> set a" "ref x = r" by auto
  moreover from this have "x = \<lparr>val = val x, ref = r\<rparr>" by simp
  ultimately have "\<lparr>val = val x, ref = r\<rparr> \<in> set a" by metis
  then show "\<exists>v. \<lparr>val = v, ref = r\<rparr> \<in> set a" ..
next
  assume "\<exists>v. \<lparr>val = v, ref = r\<rparr> \<in> set a"
  then show "r \<in> ref ` set a" by force
qed

lemma timer_due_None: "timers_ok (a, cs) \<Longrightarrow> timer_due (a, cs) r = None \<longleftrightarrow> r \<notin> ref ` set a"
  unfolding item_in_heap timer_due_mem [symmetric] by auto

lemma timer_due_idx: "timers_ok (a, cs) \<Longrightarrow> timer_due (a, cs) r \<noteq> None \<longleftrightarrow> cs r \<noteq> no_idx"
  by (auto simp: timers_ok_def timer_due_def)

lemma timers_ok_cells:
  assumes "heap_ok a'" "cells_ok a' cs'" "length a' \<le> no_idx" "\<And>r. r \<notin> ref ` set a' \<Longrightarrow> cs' r = no_idx"
  shows "timers_ok (a', cs')"
proof -
  have "cs' r = no_idx \<or> cs' r < length a' \<and> ref (a' ! cs' r) = r" for r
  proof (cases "r \<in> ref ` set a'")
    case True
    then obtain i where "i < length a'" "ref (a' ! i) = r" by (auto simp: in_set_conv_nth)
    then show ?thesis using assms(2) by (auto simp: cells_ok_def)
  qed (use assms(4) in simp)
  then show ?thesis using assms(1-3) by (simp add: timers_ok_def)
qed

lemma timers_ok_distinct: "timers_ok (a, cs) \<Longrightarrow> distinct a"
  using cells_ok_distinct by (auto simp: timers_ok_def distinct_map)

lemma timer_item_at:
  assumes "timers_ok (a, cs)" "cs r < length a"
  shows "\<lparr>val = w, ref = s\<rparr> \<in> set a - {a ! cs r} \<longleftrightarrow> s \<noteq> r \<and> \<lparr>val = w, ref = s\<rparr> \<in> set a"
proof -
  have "ref (a ! cs r) = r" using assms by (auto simp: timers_ok_def dest: spec [of _ r])
  moreover have "\<lparr>val = w, ref = r\<rparr> = a ! cs r" if "\<lparr>val = w, ref = r\<rparr> \<in> set a"
    using that assms by (auto simp: timers_ok_def cells_ok_def in_set_conv_nth)
  ultimately show ?thesis by (metis Diff_iff heap_item.select_convs(2) singletonD singletonI)
qed

lemma timer_start_ok:
  assumes "timers_ok q" "timer_room q"
  shows "timers_ok (timer_start q r v) \<and> timer_due (timer_start q r v) = (timer_due q)(r \<mapsto> v)"
proof -
  obtain a cs where q: "q = (a, cs)" by fastforce
  let ?t = "\<lparr>val = v, ref = r\<rparr>"
  obtain a' cs' where u: "HeapItem_upsert a cs (cs r) ?t = (a', cs')" by fastforce
  have ok: "heap_ok a" "cells_ok a cs" "length a < no_idx"
    using assms q by (auto simp: timers_ok_def timer_room_def)
  have idx: "cs s = no_idx \<or> cs s < length a \<and> ref (a ! cs s) = s" for s
    using assms(1) q by (simp add: timers_ok_def)
  then have pos: "cs r < length a \<Longrightarrow> r = ref (a ! cs r)"
    using ok(3) by (metis less_not_refl3 order.strict_trans)
  have out: "length a \<le> cs r \<Longrightarrow> r \<notin> ref ` set a"
    using timer_due_None [of a cs r] assms(1) q by (simp add: timer_due_def)
  have up: "heap_ok a'" "cells_ok a' cs'"
    "mset a' = (if cs r < length a then mset a - {#a ! cs r#} else mset a) + {#?t#}"
    "\<And>s. s \<notin> ref ` set a \<Longrightarrow> s \<noteq> r \<Longrightarrow> cs' s = cs s"
    using HeapItem_upsert_ok [OF ok(1,2) u] pos out by auto
  have set: "set a' = insert ?t (if cs r < length a then set a - {a ! cs r} else set a)"
    using set_mset_remove [OF timers_ok_distinct [OF assms(1) [unfolded q]], of "a ! cs r"]
      arg_cong [OF up(3), of set_mset] by (simp split: if_splits)
  have mem: "\<lparr>val = w, ref = s\<rparr> \<in> set a' \<longleftrightarrow>
      (s = r \<and> w = v) \<or> (s \<noteq> r \<and> \<lparr>val = w, ref = s\<rparr> \<in> set a)" for s w
  proof (cases "cs r < length a")
    case True
    then show ?thesis using timer_item_at [OF assms(1) [unfolded q] True, of w s] set by auto
  next
    case False
    then show ?thesis using set out by (auto simp: item_in_heap)
  qed
  have "length a' = size (mset a')" by simp
  also have "\<dots> \<le> Suc (length a)"
    unfolding up(3) by (simp add: size_Diff_singleton_if)
  finally have len: "length a' \<le> no_idx" using ok(3) by simp
  have "cs' s = no_idx" if "s \<notin> ref ` set a'" for s
  proof -
    have "s \<noteq> r" "s \<notin> ref ` set a" using that mem by (auto simp: item_in_heap)
    then show ?thesis
      using up(4) idx [of s] by (metis image_eqI nth_mem)
  qed
  then have ok': "timers_ok (a', cs')" using timers_ok_cells up(1,2) len by blast
  moreover have "timer_due (a', cs') = (timer_due q)(r \<mapsto> v)"
    by (rule map_eqI) (auto simp: timer_due_mem [OF ok'] mem timer_due_mem [OF assms(1) [unfolded q]] q)
  ultimately show ?thesis by (simp add: q timer_start_def u)
qed

lemma timer_cancel_ok:
  assumes "timers_ok q" "timer_due q r \<noteq> None"
  shows "timers_ok (timer_cancel q r) \<and> timer_due (timer_cancel q r) = (timer_due q)(r := None)"
proof -
  obtain a cs where q: "q = (a, cs)" by fastforce
  have pos: "cs r < length a" using assms q by (auto simp: timer_due_def split: if_splits)
  have ok: "heap_ok a" "cells_ok a cs" "length a \<le> no_idx"
    using assms q by (auto simp: timers_ok_def)
  obtain a' cs' where e: "HeapItem_erase a cs (cs r) = Some (a', cs')" "heap_ok a'" "cells_ok a' cs'"
    "mset a' = mset a - {#a ! cs r#}" "\<And>s. s \<notin> ref ` set a' \<Longrightarrow> cs' s = cs s"
    using HeapItem_erase_ok [OF ok(1,2) pos] by blast
  have mem: "\<lparr>val = w, ref = s\<rparr> \<in> set a' \<longleftrightarrow> s \<noteq> r \<and> \<lparr>val = w, ref = s\<rparr> \<in> set a" for s w
    using timer_item_at [OF assms(1) [unfolded q] pos, of w s]
      set_mset_remove [OF timers_ok_distinct [OF assms(1) [unfolded q]], of "a ! cs r"]
      arg_cong [OF e(4), of set_mset] by simp
  have gone: "r \<notin> ref ` set a'" by (simp only: item_in_heap mem) simp
  have "length a' = size (mset a')" by simp
  then have len: "length a' \<le> no_idx"
    using ok(3) unfolding e(4) by (simp add: size_Diff_singleton_if split: if_splits)
  have "(cs'(r := no_idx)) s = no_idx" if "s \<notin> ref ` set a'" for s
  proof (cases "s = r")
    case False
    then have "s \<notin> ref ` set a" using that by (simp only: item_in_heap mem) simp
    then have "\<not> (cs s < length a \<and> ref (a ! cs s) = s)" by (metis image_eqI nth_mem)
    then have "cs s = no_idx" using assms(1) q by (auto simp: timers_ok_def)
    then show ?thesis using e(5) [OF that] False by simp
  qed simp
  moreover have "cells_ok a' (cs'(r := no_idx))"
    using e(3) gone by (auto simp: cells_ok_def)
  ultimately have ok': "timers_ok (a', cs'(r := no_idx))" using timers_ok_cells e(2) len by blast
  moreover have "timer_due (a', cs'(r := no_idx)) = (timer_due q)(r := None)"
    by (rule map_eqI) (auto simp: timer_due_mem [OF ok'] mem timer_due_mem [OF assms(1) [unfolded q]] q)
  ultimately show ?thesis by (simp add: q timer_cancel_def e(1))
qed

lemma timer_first_ok:
  assumes "timers_ok q"
  shows "timer_first q = None \<Longrightarrow> timer_due q = Map.empty"
    "timer_first q = Some (r, v) \<Longrightarrow> timer_due q r = Some v"
    "timer_first q = Some (r, v) \<Longrightarrow> timer_due q s = Some w \<Longrightarrow> v \<le> w"
proof -
  obtain a cs where q: "q = (a, cs)" by fastforce
  have ok: "heap_ok a" "cells_ok a cs" using assms q by (auto simp: timers_ok_def)
  show "timer_first q = None \<Longrightarrow> timer_due q = Map.empty"
    by (auto simp: q timer_first_def timer_due_def split: if_splits)
  show "timer_first q = Some (r, v) \<Longrightarrow> timer_due q r = Some v"
    using ok(2) by (auto simp: q timer_first_def timer_due_def cells_ok_def split: if_splits)
  show "timer_first q = Some (r, v) \<Longrightarrow> timer_due q s = Some w \<Longrightarrow> v \<le> w"
    using heap_ok_min [OF ok(1)] by (auto simp: q timer_first_def timer_due_def split: if_splits)
qed

interpretation tq: timer_queue timers_ok timer_room timer_due timer_start timer_cancel timer_first
  by unfold_locales (use timer_start_ok timer_cancel_ok timer_first_ok in blast)+

lemma entry_set_ttl_start:
  "0 \<le> sint ttl \<Longrightarrow> entry_set_ttl now q ent ttl = Some (timer_start q ent (now + ttl))"
  by (cases q) (simp add: entry_set_ttl_def timer_start_def)

lemma entry_set_ttl_cancel:
  assumes "timers_ok q" "sint ttl < 0"
  shows "entry_set_ttl now q ent ttl =
    Some (if timer_due q ent = None then q else timer_cancel q ent)"
proof -
  obtain a cs where q: "q = (a, cs)" by fastforce
  show ?thesis
  proof (cases "timer_due q ent = None")
    case True
    then have "cs ent = no_idx" using timer_due_idx [of a cs ent] assms(1) q by simp
    then show ?thesis using True assms(2) q by (simp add: entry_set_ttl_def)
  next
    case False
    then have "cs ent \<noteq> no_idx" "cs ent < length a"
      using timer_due_idx [of a cs ent] assms(1) q by (auto simp: timer_due_def split: if_splits)
    moreover have "heap_ok a" "cells_ok a cs" using assms(1) q by (auto simp: timers_ok_def)
    moreover obtain p where "HeapItem_erase a cs (cs ent) = Some p"
      using HeapItem_erase_ok [OF calculation(3,4,2)] by blast
    ultimately show ?thesis using False assms(2) q
      by (cases p) (auto simp: entry_set_ttl_def timer_cancel_def)
  qed
qed

subsection \<open>Properties\<close>

text \<open>Erasing a position of the timer heap returns, removes that item and no other, restores
  the heap order, leaves every remaining owner's index cell equal to the position of its item, and
  writes no other cell; the first item is then a smallest one.\<close>

theorem HeapItem_erase_correct:
  assumes "heap_ok a" "cells_ok a cs" "pos < length a"
  shows "\<exists>a' cs'. HeapItem_erase a cs pos = Some (a', cs') \<and> heap_ok a' \<and> cells_ok a' cs' \<and>
    mset a' = mset a - {#a ! pos#} \<and> (\<forall>r. r \<notin> ref ` set a' \<longrightarrow> cs' r = cs r) \<and>
    (\<forall>i < length a'. val (a' ! 0) \<le> val (a' ! i))"
  using HeapItem_erase_ok [OF assms] heap_ok_min by metis

definition sample_heap :: "heap_item list" where
  "sample_heap = [\<lparr>val = 2, ref = 10\<rparr>, \<lparr>val = 9, ref = 11\<rparr>, \<lparr>val = 3, ref = 12\<rparr>,
     \<lparr>val = 10, ref = 13\<rparr>, \<lparr>val = 9, ref = 14\<rparr>, \<lparr>val = 4, ref = 15\<rparr>]"

definition sample_cells :: cells where
  "sample_cells r = (if 10 \<le> r \<and> r < 16 then r - 10 else no_idx)"

lemma all_less_Suc: "(\<forall>i < Suc n. P i) \<longleftrightarrow> (\<forall>i < n. P i) \<and> P n"
  by (auto simp: less_Suc_eq)

lemma sample_heap_ok: "heap_ok sample_heap" "cells_ok sample_heap sample_cells" "length sample_heap = 6"
proof -
  show len: "length sample_heap = 6" by (simp add: sample_heap_def)
  show "cells_ok sample_heap sample_cells"
    by (simp add: cells_ok_def sample_heap_def sample_cells_def all_less_Suc nth_Cons')
  have "\<forall>i \<in> set [0..<6]. 0 < i \<longrightarrow> val (sample_heap ! heap_parent i) \<le> val (sample_heap ! i)"
    by code_simp
  then show "heap_ok sample_heap" using len by (simp add: heap_ok_def)
qed

lemma HeapItem_erase_correct_witness:
  "\<exists>a' cs'. HeapItem_erase sample_heap sample_cells 3 = Some (a', cs') \<and> heap_ok a' \<and> cells_ok a' cs' \<and>
     mset a' = mset sample_heap - {#sample_heap ! 3#}"
  using HeapItem_erase_correct [OF sample_heap_ok(1,2), of 3] sample_heap_ok(3) by fastforce

text \<open>An upsert at an item's own position replaces it, and at an index past the end (the
  index of an entry without a timer) adds it; in both cases heap order and index cells are restored
  and no cell of another object is written.\<close>

theorem HeapItem_upsert_correct:
  assumes "heap_ok a" "cells_ok a cs" "HeapItem_upsert a cs pos t = (a', cs')"
    "pos < length a \<Longrightarrow> ref t = ref (a ! pos)" "length a \<le> pos \<Longrightarrow> ref t \<notin> ref ` set a"
  shows "heap_ok a' \<and> cells_ok a' cs' \<and>
    mset a' = (if pos < length a then mset a - {#a ! pos#} else mset a) + {#t#} \<and>
    (\<forall>r. r \<notin> ref ` set a \<longrightarrow> r \<noteq> ref t \<longrightarrow> cs' r = cs r)"
  by (rule HeapItem_upsert_ok [OF assms])

lemma HeapItem_upsert_correct_witness:
  "heap_ok (fst (HeapItem_upsert sample_heap sample_cells 5 \<lparr>val = 1, ref = 15\<rparr>))"
  using HeapItem_upsert_correct [OF sample_heap_ok(1,2), of 5 "\<lparr>val = 1, ref = 15\<rparr>"] sample_heap_ok(3)
  by (cases "HeapItem_upsert sample_heap sample_cells 5 \<lparr>val = 1, ref = 15\<rparr>")
    (simp add: sample_heap_def)

text \<open>C18: Setting the time to live of an entry never fails on well-formed timers: a negative value
  cancels the entry's timer if it has one, any other starts or moves it to the current time plus the
  value (in 64-bit arithmetic), and no other entry's timer changes.\<close>

theorem entry_set_ttl_correct:
  assumes "timers_ok q" "timer_room q"
  shows "\<exists>q'. entry_set_ttl now q ent ttl = Some q' \<and> timers_ok q' \<and>
    timer_due q' = (timer_due q)(ent := if sint ttl < 0 then None else Some (now + ttl))"
proof (cases "sint ttl < 0")
  case True
  show ?thesis
  proof (cases "timer_due q ent = None")
    case True
    then have "entry_set_ttl now q ent ttl = Some q" "(timer_due q)(ent := None) = timer_due q"
      using entry_set_ttl_cancel [OF assms(1) \<open>sint ttl < 0\<close>] by (auto simp: fun_upd_idem)
    then show ?thesis using assms(1) \<open>sint ttl < 0\<close> by simp
  next
    case False
    then obtain v where "timer_due q ent = Some v" by auto
    then show ?thesis
      using entry_set_ttl_cancel [OF assms(1) \<open>sint ttl < 0\<close>] tq.cancel_inv tq.cancel_due assms(1)
        \<open>sint ttl < 0\<close> by simp
  qed
next
  case False
  then show ?thesis using entry_set_ttl_start tq.start_inv tq.start_due assms by simp
qed

lemma sample_timers_ok: "timers_ok (sample_heap, sample_cells)" "timer_room (sample_heap, sample_cells)"
proof -
  show "timer_room (sample_heap, sample_cells)"
    using sample_heap_ok(3) by (simp add: timer_room_def no_idx_def)
  have "sample_cells r = no_idx" if "r \<notin> ref ` set sample_heap" for r
  proof -
    have "r \<notin> {10, 11, 12, 13, 14, 15}" using that by (simp add: sample_heap_def)
    then show ?thesis by (auto simp: sample_cells_def)
  qed
  then show "timers_ok (sample_heap, sample_cells)"
    by (intro timers_ok_cells) (simp_all add: sample_heap_ok no_idx_def)
qed

lemma entry_set_ttl_correct_witness:
  "\<exists>q'. entry_set_ttl 100 (sample_heap, sample_cells) 11 (- 1) = Some q' \<and> timers_ok q' \<and>
     timer_due q' 11 = None \<and> timer_due q' 12 = Some 3"
proof -
  have "timer_due (sample_heap, sample_cells) 12 = Some 3" by code_simp
  then show ?thesis
    using entry_set_ttl_correct [OF sample_timers_ok, of 100 11 "- 1"] by auto
qed

end
