(* ===== verification/MRD_Request.thy ===== *)
theory MRD_Request
  imports MRD_Wire
begin

text \<open>
  Requests: what the server reads from a client (\<^verbatim>\<open>parse_req\<close> of \<^verbatim>\<open>server/MRD_server.cpp\<close>), what the
  client sends (\<^verbatim>\<open>send_req\<close> and the prompt of \<^verbatim>\<open>client/client.cpp\<close>), and the number parsing of the
  standard library the commands use.
\<close>

subsection \<open>Parsing requests\<close>

definition MAX_CMDS :: u32 where "MAX_CMDS = 500"

text \<open>The loop of \<^verbatim>\<open>parse_req\<close> for \<open>n\<close> more strings; \<open>None\<close> is the return value -1.\<close>

fun parse_strs :: "nat \<Rightarrow> bytes \<Rightarrow> (bytes list \<times> bytes) option" where
  "parse_strs 0 data = Some ([], data)"
| "parse_strs (Suc n) data = do {
     (tag, data) \<leftarrow> read_u8 data;
     oguard (tag = TAG_STR);
     (len, data) \<leftarrow> read_u32 data;
     (s, data) \<leftarrow> read_str data (unat len);
     (rest, data) \<leftarrow> parse_strs n data;
     Some (s # rest, data)
   }"

definition parse_req :: "bytes \<Rightarrow> bytes list option" where
  "parse_req data = do {
     (nstr, data) \<leftarrow> read_u32 data;
     oguard (\<not> nstr > MAX_CMDS);
     (out, data) \<leftarrow> parse_strs (unat nstr) data;
     oguard (data = []);
     Some out
   }"

text \<open>The bytes of a request and their frame.\<close>

definition enc_req :: "bytes list \<Rightarrow> bytes" where
  "enc_req cmd = enc_u32 (length cmd) @ concat (map (\<lambda>s. encode (RStr s)) cmd)"

definition frame :: "bytes \<Rightarrow> bytes" where
  "frame body = enc_u32 (length body) @ body"

lemma length_frame [simp]: "length (frame body) = 4 + length body"
  by (simp add: frame_def)

lemma length_enc_req: "length (enc_req cmd) = 4 + (\<Sum>s\<leftarrow>cmd. 5 + length s)"
  by (simp add: enc_req_def length_concat comp_def)

lemma parse_strs_enc:
  "\<forall>s \<in> set cmd. length s < 2 ^ 32 \<Longrightarrow>
    parse_strs (length cmd) (concat (map (\<lambda>s. encode (RStr s)) cmd) @ rest) = Some (cmd, rest)"
  by (induction cmd) (simp_all add: reader_simps)

lemma parse_enc_req:
  assumes "length cmd \<le> 500" "\<forall>s \<in> set cmd. length s < 2 ^ 32"
  shows "parse_req (enc_req cmd) = Some cmd"
proof -
  have "unat (of_nat (length cmd) :: u32) = length cmd" using assms(1) by (intro unat_u32) simp
  moreover from this have "\<not> of_nat (length cmd) > MAX_CMDS"
    using assms(1) by (simp add: MAX_CMDS_def word_less_nat_alt)
  moreover have "read_u32 (enc_req cmd) = Some (of_nat (length cmd), concat (map (\<lambda>s. encode (RStr s)) cmd))"
    unfolding enc_req_def using assms(1) by (intro read_u32_enc) simp
  ultimately show ?thesis using parse_strs_enc [OF assms(2), of "[]"] by (simp add: parse_req_def)
qed

text \<open>Conversely, what is accepted is such an encoding.\<close>

lemma read_u8_Some: "read_u8 cur = Some (b, rest) \<longleftrightarrow> cur = b # rest"
  by (auto simp: read_u8_def split: list.splits)

lemma le_bytes_word: "length bs = n \<Longrightarrow> 8 * n \<le> LENGTH('a) \<Longrightarrow> le_bytes n (le_word bs :: 'a::len word) = bs"
proof (induction bs arbitrary: n)
  case (Cons b bs)
  then obtain k where k: "n = Suc k" "length bs = k" by (cases n) auto
  have lo: "(ucast (ucast b OR push_bit 8 (le_word bs) :: 'a word) :: u8) = b"
    using Cons.prems(2) k by (intro bit_word_eqI) (auto simp: bit_simps)
  have hi: "drop_bit 8 (ucast b OR push_bit 8 (le_word bs) :: 'a word) = take_bit (LENGTH('a) - 8) (le_word bs)"
    by (rule bit_word_eqI) (auto simp: bit_simps dest: bit_imp_le_length)
  have small: "take_bit (LENGTH('a) - 8) (le_word bs :: 'a word) = le_word bs"
  proof -
    have "le_word bs = (take_bit (8 * length bs) (le_word bs) :: 'a word)"
      by (metis Cons.IH Cons.prems(2) Suc_leD k le_word_bytes_take mult_le_mono2 order_trans le_SucI order_refl)
    moreover have "8 * length bs \<le> LENGTH('a) - 8" using Cons.prems k by simp
    ultimately show ?thesis by (metis min_absorb2 take_bit_take_bit)
  qed
  have "le_bytes k (le_word bs :: 'a word) = bs" using Cons.IH [OF k(2)] Cons.prems(2) k by simp
  then show ?case unfolding k le_bytes.simps le_word.simps lo hi small by simp
qed simp

lemma read_u32_Some: "read_u32 cur = Some (v, rest) \<longleftrightarrow> cur = le_bytes 4 v @ rest"
  by (auto simp: read_u32_def le_bytes_word split: if_splits)

lemma read_str_Some: "read_str cur n = Some (s, rest) \<longleftrightarrow> cur = s @ rest \<and> length s = n"
  by (auto simp: read_str_def split: if_splits)

lemma enc_u32_unat: "enc_u32 (unat (v :: u32)) = le_bytes 4 v"
  by (simp add: enc_u32_def)

lemma parse_strs_Some:
  "parse_strs n data = Some (cmd, rest) \<Longrightarrow>
    length cmd = n \<and> data = concat (map (\<lambda>s. encode (RStr s)) cmd) @ rest"
proof (induction n arbitrary: data cmd)
  case (Suc n)
  then show ?case
    by (auto simp: bind_simps read_u8_Some read_u32_Some read_str_Some enc_u32_unat [symmetric])
qed simp

lemma parse_req_Some:
  assumes "parse_req data = Some cmd"
  shows "data = enc_req cmd \<and> length cmd \<le> 500"
proof -
  obtain n where n: "\<not> n > MAX_CMDS" "data = le_bytes 4 n @ concat (map (\<lambda>s. encode (RStr s)) cmd)"
    "length cmd = unat n"
    using assms by (auto simp: parse_req_def bind_simps read_u32_Some dest!: parse_strs_Some)
  then show ?thesis
    by (simp add: enc_req_def enc_u32_unat MAX_CMDS_def not_less word_le_nat_alt)
qed

subsection \<open>Numbers\<close>

text \<open>
  The results of \<^verbatim>\<open>std::stoi\<close>, \<^verbatim>\<open>std::stol\<close> and \<^verbatim>\<open>std::stod\<close>: a value, or the text of one of the two
  exceptions they throw.
\<close>

datatype 'a parsed = Parsed 'a | Invalid bytes | OutOfRange bytes

definition is_space :: "u8 \<Rightarrow> bool" where
  "is_space c = (c = 32 \<or> (9 \<le> c \<and> c \<le> 13))"

definition is_digit :: "u8 \<Rightarrow> bool" where
  "is_digit c = (48 \<le> c \<and> c \<le> 57)"

definition digits_value :: "bytes \<Rightarrow> int" where
  "digits_value ds = fold (\<lambda>c v. 10 * v + (uint c - 48)) ds 0"

text \<open>\<^verbatim>\<open>strtol\<close> in base 10, before its range check: no number at all is \<open>None\<close>.\<close>

definition strtol_value :: "bytes \<Rightarrow> int option" where
  "strtol_value s =
    (let s = dropWhile is_space s;
         neg = (s \<noteq> [] \<and> hd s = 45);
         s = (if s \<noteq> [] \<and> (hd s = 45 \<or> hd s = 43) then tl s else s);
         ds = takeWhile is_digit s
     in if ds = [] then None else Some (if neg then - digits_value ds else digits_value ds))"

definition sto_int :: "string \<Rightarrow> nat \<Rightarrow> bytes \<Rightarrow> 64 word parsed" where
  "sto_int what bits s =
    (case strtol_value s of
       None \<Rightarrow> Invalid (ascii what)
     | Some v \<Rightarrow> if - (2 ^ (bits - 1)) \<le> v \<and> v < 2 ^ (bits - 1) then Parsed (word_of_int v)
         else OutOfRange (ascii what))"

definition stol :: "bytes \<Rightarrow> 64 word parsed" where
  "stol = sto_int ''stol'' 64"

text \<open>The \<^verbatim>\<open>int\<close> is already converted to the \<^verbatim>\<open>int64_t\<close> it is assigned to.\<close>

definition stoi :: "bytes \<Rightarrow> 64 word parsed" where
  "stoi = sto_int ''stoi'' 32"

text \<open>\<^verbatim>\<open>toupper\<close> of the C locale.\<close>

definition toupper :: "u8 \<Rightarrow> u8" where
  "toupper c = (if 97 \<le> c \<and> c \<le> 122 then c - 32 else c)"

lemma parse_strs_lengths: "parse_strs n data = Some (cmd, rest) \<Longrightarrow> \<forall>w \<in> set cmd. length w < 2 ^ 32"
proof (induction n arbitrary: data cmd)
  case (Suc n)
  have "unat (v :: u32) < 2 ^ 32" for v using unsigned_less [of v, where ?'a = nat] by simp
  with Suc show ?case by (fastforce simp: bind_simps read_str_Some)
qed simp

subsection \<open>Properties\<close>

text \<open>C13: What the server accepts as a request is exactly what a client encodes: \<open>parse_req\<close> gives the
  strings if and only if the data is their encoding, there are at most 500 of them, and each has a
  32-bit length.\<close>

theorem parse_req_iff:
  "parse_req data = Some cmd \<longleftrightarrow> data = enc_req cmd \<and> length cmd \<le> 500 \<and> (\<forall>w \<in> set cmd. length w < 2 ^ 32)"
proof
  assume a: "parse_req data = Some cmd"
  then obtain n rest where "parse_strs n rest = Some (cmd, [])" by (auto simp: parse_req_def bind_simps)
  then show "data = enc_req cmd \<and> length cmd \<le> 500 \<and> (\<forall>w \<in> set cmd. length w < 2 ^ 32)"
    using parse_strs_lengths parse_req_Some [OF a] by blast
qed (use parse_enc_req in blast)

lemma parse_req_iff_witness: "parse_req (enc_req [[71], []]) = Some [[71], []]"
  using parse_req_iff [of "enc_req [[71], []]" "[[71], []]"] by simp

end
