(* ===== verification/MRD_Store.thy ===== *)
theory MRD_Store
  imports MRD_ZsetOps MRD_Timers MRD_Request "HOL-Library.Code_Target_Nat"
begin

text \<open>
  The server's data (\<^verbatim>\<open>server/MRD_server.h\<close>, \<^verbatim>\<open>server/MRD_server.cpp\<close>) and the commands over it. An entry
  is an object in \<open>entries\<close>; its node in \<^verbatim>\<open>g_data\<close> is a hash with its address, its \<^verbatim>\<open>heap_idx\<close> is the
  index cell of its address in the timers. \<open>stod\<close>, the conversion of the standard library from decimal to binary
  doubles, is a parameter of the commands that use it; \<open>now\<close> is the monotonic clock.
\<close>

subsection \<open>Entries\<close>

datatype entry_val = KV bytes | SetV zset

record entry =
  ekey :: bytes
  etype :: u32
  eval :: entry_val

definition E_STR :: u32 where "E_STR = 1"
definition E_SET :: u32 where "E_SET = 2"

definition DEFAULT_TTL_MS :: "64 word" where "DEFAULT_TTL_MS = 900000"
definition MAX_WORKS :: nat where "MAX_WORKS = 2000"

record server =
  g_data :: "addr hmap"
  entries :: "addr \<rightharpoonup> entry"
  ttl :: timers
  next_entry :: addr
  is_running :: bool

definition server_init :: server where
  "server_init = \<lparr>g_data = HMap_empty, entries = Map.empty, ttl = ([], \<lambda>_. no_idx), next_entry = 0, is_running = True\<rparr>"

text \<open>A new object, with no timer and the hash of its key in its node.\<close>

definition Entry_new :: "bytes \<Rightarrow> u32 \<Rightarrow> entry_val \<Rightarrow> server \<Rightarrow> addr hnode \<times> server" where
  "Entry_new name t v s =
    (\<lparr>hcode = str_hash name, item = next_entry s\<rparr>,
     s\<lparr>entries := (entries s)(next_entry s \<mapsto> \<lparr>ekey = name, etype = t, eval = v\<rparr>),
       ttl := (fst (ttl s), (snd (ttl s))(next_entry s := no_idx)),
       next_entry := next_entry s + 1\<rparr>)"

definition EntryKV :: "bytes \<Rightarrow> bytes \<Rightarrow> server \<Rightarrow> addr hnode \<times> server" where
  "EntryKV name v s = Entry_new name E_STR (KV v) s"

definition EntryS :: "bytes \<Rightarrow> server \<Rightarrow> addr hnode \<times> server" where
  "EntryS name s = Entry_new name E_SET (SetV ZSet_empty) s"

text \<open>\<^verbatim>\<open>std::get\<close> on the variant throws when it holds the other type.\<close>

definition get_str :: "entry \<Rightarrow> bytes option" where
  "get_str e = (case eval e of KV v \<Rightarrow> Some v | SetV z \<Rightarrow> None)"

definition get_zset :: "entry \<Rightarrow> zset option" where
  "get_zset e = (case eval e of KV v \<Rightarrow> None | SetV z \<Rightarrow> Some z)"

definition set_val :: "addr \<Rightarrow> entry_val \<Rightarrow> server \<Rightarrow> server option" where
  "set_val a v s = do { E \<leftarrow> upd_at a (\<lambda>e. e\<lparr>eval := v\<rparr>) (entries s); Some (s\<lparr>entries := E\<rparr>) }"

text \<open>The comparisons of the index: an entry against a key, and against another entry.\<close>

definition key_eq :: "server \<Rightarrow> bytes \<Rightarrow> addr \<Rightarrow> bool" where
  "key_eq s key a = (case entries s a of None \<Rightarrow> False | Some e \<Rightarrow> ekey e = key)"

definition entry_eq :: "server \<Rightarrow> addr \<Rightarrow> addr \<Rightarrow> bool" where
  "entry_eq s b a = (case (entries s a, entries s b) of (Some x, Some y) \<Rightarrow> ekey x = ekey y | _ \<Rightarrow> False)"

definition data_lookup :: "server \<Rightarrow> bytes \<Rightarrow> addr option option" where
  "data_lookup s name = do {
     found \<leftarrow> HMap_lookup (g_data s) (str_hash name) (key_eq s name);
     Some (map_option item found)
   }"

definition expect_zset :: "server \<Rightarrow> addr option \<Rightarrow> zset option option" where
  "expect_zset s ent = (case ent of None \<Rightarrow> Some None
     | Some a \<Rightarrow> do {
         e \<leftarrow> entries s a;
         if etype e \<noteq> E_SET then Some None else do { z \<leftarrow> get_zset e; Some (Some z) }
       })"

definition set_ttl :: "u64 \<Rightarrow> addr \<Rightarrow> 64 word \<Rightarrow> server \<Rightarrow> server option" where
  "set_ttl now ent ms s = do { t \<leftarrow> entry_set_ttl now (ttl s) ent ms; Some (s\<lparr>ttl := t\<rparr>) }"

text \<open>The destructor of a sorted set.\<close>

definition ZSet_destroy :: "zset \<Rightarrow> zset option" where
  "ZSet_destroy z = do {
     let z = z\<lparr>index := HMap_clear (index z)\<rparr>;
     H \<leftarrow> tree_dispose (root z) (tree z);
     Some (z\<lparr>tree := H, info := (\<lambda>a. if H a = None then None else info z a)\<rparr>)
   }"

text \<open>Cancelling the timer and \<^verbatim>\<open>delete\<close>, which runs the destructor of the value.\<close>

definition entry_del :: "u64 \<Rightarrow> addr \<Rightarrow> server \<Rightarrow> server option" where
  "entry_del now ent s = do {
     s \<leftarrow> set_ttl now ent (- 1) s;
     e \<leftarrow> entries s ent;
     (case eval e of KV v \<Rightarrow> Some () | SetV z \<Rightarrow> do { ZSet_destroy z; Some () });
     Some (s\<lparr>entries := (entries s)(ent := None)\<rparr>)
   }"

subsection \<open>The commands\<close>

text \<open>
  Each command returns what its writer returned: the buffer and the number of bytes written.
\<close>

type_synonym command_result = "((buffer \<times> u32) \<times> server) option"

definition answer :: "(buffer \<times> u32) option \<Rightarrow> server \<Rightarrow> command_result" where
  "answer r s = do { r \<leftarrow> r; Some (r, s) }"

definition do_get :: "bytes list \<Rightarrow> buffer \<Rightarrow> server \<Rightarrow> command_result" where
  "do_get cmd out s = do {
     ent \<leftarrow> data_lookup s (cmd ! 1);
     (case ent of None \<Rightarrow> answer (out_err out ERR_NOT_FOUND (ascii ''get'')) s
      | Some a \<Rightarrow> do {
          e \<leftarrow> entries s a;
          if etype e \<noteq> E_STR then answer (out_err out ERR_BAD_TYPE (ascii ''get: expected KV-pair'')) s
          else do {
            v \<leftarrow> get_str e;
            oguard (length v \<le> MAX_MSG);
            answer (out_str out v) s
          }
        })
   }"

definition do_set :: "u64 \<Rightarrow> bytes list \<Rightarrow> buffer \<Rightarrow> server \<Rightarrow> command_result" where
  "do_set now cmd out s = do {
     ent \<leftarrow> data_lookup s (cmd ! 1);
     (case ent of
        Some a \<Rightarrow> do {
          e \<leftarrow> entries s a;
          if etype e \<noteq> E_STR
          then answer (out_err out ERR_BAD_TYPE (ascii ''set: wrong data type, expected KV-pair'')) s
          else do {
            s \<leftarrow> set_val a (KV (cmd ! 2)) s;
            s \<leftarrow> set_ttl now a DEFAULT_TTL_MS s;
            answer (out_nil out) s
          }
        }
      | None \<Rightarrow> do {
          let (node, s) = EntryKV (cmd ! 1) (cmd ! 2) s;
          m \<leftarrow> HMap_insert (g_data s) node;
          s \<leftarrow> set_ttl now (item node) DEFAULT_TTL_MS (s\<lparr>g_data := m\<rparr>);
          answer (out_nil out) s
        })
   }"

definition do_del :: "u64 \<Rightarrow> bytes list \<Rightarrow> buffer \<Rightarrow> server \<Rightarrow> command_result" where
  "do_del now cmd out s = do {
     (found, m) \<leftarrow> HMap_erase (g_data s) (str_hash (cmd ! 1)) (key_eq s (cmd ! 1));
     let s = s\<lparr>g_data := m\<rparr>;
     (case found of
        Some node \<Rightarrow> do { s \<leftarrow> entry_del now (item node) s; answer (out_int out 1) s }
      | None \<Rightarrow> answer (out_err out ERR_NOT_FOUND (ascii ''del: given key does not exist'')) s)
   }"

text \<open>The two exception handlers the commands have around their conversions.\<close>

fun caught :: "'a parsed \<Rightarrow> (u8 \<times> bytes) + 'a" where
  "caught (Parsed v) = Inr v"
| "caught (Invalid what) = Inl (ERR_BAD_TYPE, what)"
| "caught (OutOfRange what) = Inl (ERR_UNEXPECTED, what)"

definition do_zadd :: "(bytes \<Rightarrow> u64 parsed) \<Rightarrow> u64 \<Rightarrow> bytes list \<Rightarrow> buffer \<Rightarrow> server \<Rightarrow> command_result" where
  "do_zadd stod now cmd out s = do {
     ent \<leftarrow> data_lookup s (cmd ! 1);
     (case caught (stod (cmd ! 2)) of
        Inl (err, what) \<Rightarrow> answer (out_err out err what) s
      | Inr score \<Rightarrow>
          (case ent of
             None \<Rightarrow> do {
               let (node, s) = EntryS (cmd ! 1) s;
               s \<leftarrow> set_ttl now (item node) DEFAULT_TTL_MS s;
               m \<leftarrow> HMap_insert (g_data s) node;
               let s = s\<lparr>g_data := m\<rparr>;
               e \<leftarrow> entries s (item node);
               z \<leftarrow> get_zset e;
               (_, z) \<leftarrow> ZSet_insert z (cmd ! 3) score;
               s \<leftarrow> set_val (item node) (SetV z) s;
               answer (out_nil out) s
             }
           | Some a \<Rightarrow> do {
               e \<leftarrow> entries s a;
               if etype e \<noteq> E_SET
               then answer (out_err out ERR_BAD_TYPE (ascii ''zadd: expexcted set Entry'')) s
               else do {
                 z \<leftarrow> get_zset e;
                 (_, z) \<leftarrow> ZSet_insert z (cmd ! 3) score;
                 s \<leftarrow> set_val a (SetV z) s;
                 s \<leftarrow> set_ttl now a DEFAULT_TTL_MS s;
                 answer (out_nil out) s
               }
             }))
   }"

text \<open>What the other commands on sets do first; they answer with the same two errors.\<close>

definition with_zset ::
  "bytes \<Rightarrow> string \<Rightarrow> buffer \<Rightarrow> server \<Rightarrow> (addr \<Rightarrow> zset \<Rightarrow> command_result) \<Rightarrow> command_result" where
  "with_zset key what out s run = do {
     ent \<leftarrow> data_lookup s key;
     (case ent of
        None \<Rightarrow> answer (out_err out ERR_NOT_FOUND (ascii what)) s
      | Some a \<Rightarrow> do {
          e \<leftarrow> entries s a;
          if etype e \<noteq> E_SET then answer (out_err out ERR_BAD_TYPE (ascii what)) s
          else do { z \<leftarrow> get_zset e; run a z }
        })
   }"

definition do_zrem :: "bytes list \<Rightarrow> buffer \<Rightarrow> server \<Rightarrow> command_result" where
  "do_zrem cmd out s = with_zset (cmd ! 1) ''zrem'' out s (\<lambda>a z. do {
     (_, z) \<leftarrow> ZSet_rem z (cmd ! 2);
     s \<leftarrow> set_val a (SetV z) s;
     answer (out_int out 1) s
   })"

definition range_args :: "(bytes \<Rightarrow> u64 parsed) \<Rightarrow> bytes list \<Rightarrow>
    (u8 \<times> bytes) + (u64 \<times> bytes \<times> 64 word \<times> 64 word)" where
  "range_args stod cmd =
    (case caught (stod (cmd ! 2)) of Inl e \<Rightarrow> Inl e
     | Inr score \<Rightarrow> (case caught (stol (cmd ! 4)) of Inl e \<Rightarrow> Inl e
     | Inr offset \<Rightarrow> (case caught (stol (cmd ! 5)) of Inl e \<Rightarrow> Inl e
     | Inr limit \<Rightarrow> Inr (score, cmd ! 3, offset, limit))))"

text \<open>
  The loop of the range commands in the direction \<open>d\<close>: \<open>n\<close> counts the array elements, at the width
  of the command's counter; a member is two elements.
\<close>

partial_function (option) range_loop ::
  "zset \<Rightarrow> int \<Rightarrow> 64 word \<Rightarrow> addr option \<Rightarrow> 'n::len word \<Rightarrow> u64 \<Rightarrow> buffer \<Rightarrow> ('n word \<times> u64 \<times> buffer) option" where
  "range_loop z d limit znode n b out =
    (case znode of None \<Rightarrow> Some (n, b, out)
     | Some a \<Rightarrow>
         if uint (n div 2) < sint limit then do {
           (score, name) \<leftarrow> info z a;
           (out, k) \<leftarrow> out_str out name;
           let b = b + ucast k;
           (out, k) \<leftarrow> out_dbl out score;
           let b = b + ucast k;
           znode \<leftarrow> ZNode_offset z znode d;
           range_loop z d limit znode (n + 2) b out
         } else Some (n, b, out))"

declare range_loop.simps [code]

definition do_zqueryge :: "(bytes \<Rightarrow> u64 parsed) \<Rightarrow> bytes list \<Rightarrow> buffer \<Rightarrow> server \<Rightarrow> command_result" where
  "do_zqueryge stod cmd out s = with_zset (cmd ! 1) ''zqueryge'' out s (\<lambda>a z.
     (case range_args stod cmd of
        Inl (err, what) \<Rightarrow> answer (out_err out err what) s
      | Inr (score, name, offset, limit) \<Rightarrow> do {
          znode \<leftarrow> ZSet_seekge z score name;
          znode \<leftarrow> ZNode_offset z znode (sint offset);
          (out, ctx) \<leftarrow> out_begin_arr out;
          (n, b_written, out) \<leftarrow> range_loop z 1 limit znode (0 :: u32) 0 out;
          (out, k) \<leftarrow> out_end_arr out (ucast (ucast ctx + b_written)) n;
          Some ((out, ucast (b_written + ucast k)), s)
        }))"

definition do_zqueryle :: "(bytes \<Rightarrow> u64 parsed) \<Rightarrow> bytes list \<Rightarrow> buffer \<Rightarrow> server \<Rightarrow> command_result" where
  "do_zqueryle stod cmd out s = with_zset (cmd ! 1) ''zqueryge'' out s (\<lambda>a z.
     (case range_args stod cmd of
        Inl (err, what) \<Rightarrow> answer (out_err out err what) s
      | Inr (score, name, offset, limit) \<Rightarrow> do {
          znode \<leftarrow> ZSet_seekle z score name;
          znode \<leftarrow> ZNode_offset z znode (sint offset);
          (out, ctx) \<leftarrow> out_begin_arr out;
          (n, b_written, out) \<leftarrow> range_loop z (- 1) limit znode (0 :: u64) 0 out;
          (out, k) \<leftarrow> out_end_arr out (ucast (ucast ctx + b_written)) (ucast n);
          Some ((out, ucast (b_written + ucast k)), s)
        }))"

definition do_zrank :: "u64 \<Rightarrow> bytes list \<Rightarrow> buffer \<Rightarrow> server \<Rightarrow> command_result" where
  "do_zrank now cmd out s = with_zset (cmd ! 1) ''zqueryge'' out s (\<lambda>a z. do {
     rank \<leftarrow> ZSet_rank z (cmd ! 2);
     s \<leftarrow> set_ttl now a DEFAULT_TTL_MS s;
     answer (out_int out (word_of_int rank)) s
   })"

partial_function (option) zcount_loop :: "zset \<Rightarrow> u64 \<Rightarrow> addr option \<Rightarrow> 64 word \<Rightarrow> 64 word option" where
  "zcount_loop z max_score found k =
    (case found of None \<Rightarrow> Some k
     | Some a \<Rightarrow> do {
         (score, name) \<leftarrow> info z a;
         if dbl_le score max_score then do {
           node \<leftarrow> AVLNode_offset (tree z) a 1;
           zcount_loop z max_score node (k + 1)
         } else Some k
       })"

declare zcount_loop.simps [code]

text \<open>The conversions of \<^verbatim>\<open>do_zcount\<close> are outside of any handler: an exception ends the program.\<close>

definition do_zcount :: "(bytes \<Rightarrow> u64 parsed) \<Rightarrow> bytes list \<Rightarrow> buffer \<Rightarrow> server \<Rightarrow> command_result" where
  "do_zcount stod cmd out s = with_zset (cmd ! 1) ''zqueryge'' out s (\<lambda>a z.
     (case (stod (cmd ! 2), stod (cmd ! 3)) of
        (Parsed min_score, Parsed max_score) \<Rightarrow> do {
          found \<leftarrow> ZSet_seekge z min_score [];
          k \<leftarrow> zcount_loop z max_score found 0;
          answer (out_int out k) s
        }
      | _ \<Rightarrow> None))"

definition do_expire :: "u64 \<Rightarrow> bytes list \<Rightarrow> buffer \<Rightarrow> server \<Rightarrow> command_result" where
  "do_expire now cmd out s = do {
     ent \<leftarrow> data_lookup s (cmd ! 1);
     (case ent of
        None \<Rightarrow> answer (out_err out ERR_NOT_FOUND (ascii ''expire'')) s
      | Some a \<Rightarrow> (case caught (stoi (cmd ! 2)) of
          Inl (err, what) \<Rightarrow> answer (out_err out err what) s
        | Inr ttl_ms \<Rightarrow> do {
            s \<leftarrow> set_ttl now a ttl_ms s;
            answer (out_nil out) s
          }))
   }"

text \<open>The heap is indexed without a check that the entry has a timer.\<close>

definition do_ttl :: "bytes list \<Rightarrow> buffer \<Rightarrow> server \<Rightarrow> command_result" where
  "do_ttl cmd out s = do {
     ent \<leftarrow> data_lookup s (cmd ! 1);
     (case ent of
        None \<Rightarrow> answer (out_err out ERR_NOT_FOUND (ascii ''ttl'')) s
      | Some a \<Rightarrow> do {
          let i = snd (ttl s) a;
          oguard (i < length (fst (ttl s)));
          answer (out_int out (val (fst (ttl s) ! i))) s
        })
   }"

definition do_echo :: "bytes list \<Rightarrow> buffer \<Rightarrow> server \<Rightarrow> command_result" where
  "do_echo cmd out s = answer (out_str out (concat (map (\<lambda>w. w @ [32]) (tl cmd)))) s"

text \<open>The dispatcher; \<^verbatim>\<open>cmd[0]\<close> does not exist for a request without strings.\<close>

definition do_request :: "(bytes \<Rightarrow> u64 parsed) \<Rightarrow> u64 \<Rightarrow> bytes list \<Rightarrow> buffer \<Rightarrow> server \<Rightarrow> command_result" where
  "do_request stod now cmd out s = do {
     oguard (cmd \<noteq> []);
     let c = map toupper (cmd ! 0);
     let cmd = cmd[0 := c];
     let n = length cmd;
     (if n = 2 \<and> c = ascii ''GET'' then do_get cmd out s
      else if n = 3 \<and> c = ascii ''SET'' then do_set now cmd out s
      else if n = 2 \<and> c = ascii ''DEL'' then do_del now cmd out s
      else if n = 4 \<and> c = ascii ''ZADD'' then do_zadd stod now cmd out s
      else if n = 3 \<and> c = ascii ''ZREM'' then do_zrem cmd out s
      else if n = 6 \<and> c = ascii ''ZQUERYGE'' then do_zqueryge stod cmd out s
      else if n = 6 \<and> c = ascii ''ZQUERYLE'' then do_zqueryle stod cmd out s
      else if n = 4 \<and> c = ascii ''ZCOUNT'' then do_zcount stod cmd out s
      else if n = 3 \<and> c = ascii ''ZRANK'' then do_zrank now cmd out s
      else if n = 3 \<and> c = ascii ''EXPIRE'' then do_expire now cmd out s
      else if n = 2 \<and> c = ascii ''TTL'' then do_ttl cmd out s
      else if n \<ge> 1 \<and> c = ascii ''ECHO'' then do_echo cmd out s
      else if n \<ge> 1 \<and> c = ascii ''SDIE'' then
        answer (out_str out (ascii ''killing server'')) (s\<lparr>is_running := False\<rparr>)
      else answer (out_err out ERR_NOT_FOUND (ascii ''command not found'')) s)
   }"

end
