(* ===== verification/MRD_StoreSpec.thy ===== *)
theory MRD_StoreSpec
  imports MRD_Store
begin

text \<open>
  The abstract database the server implements: values and deadlines by key, and what every command
  answers and changes. The spec of a command is a relation between the database, the reply and the
  next database; it is a function except for the rank of a member, for which only bounds hold.
\<close>

subsection \<open>The database\<close>

datatype aval = AStr bytes | ASet "bytes \<rightharpoonup> u64"

record db =
  dval :: "bytes \<rightharpoonup> aval"
  ddue :: "bytes \<rightharpoonup> u64"
  alive :: bool

definition db_empty :: db where
  "db_empty = \<lparr>dval = Map.empty, ddue = Map.empty, alive = True\<rparr>"

definition put :: "bytes \<Rightarrow> aval \<Rightarrow> db \<Rightarrow> db" where
  "put k v d = d\<lparr>dval := (dval d)(k \<mapsto> v)\<rparr>"

definition drop_key :: "bytes \<Rightarrow> db \<Rightarrow> db" where
  "drop_key k d = d\<lparr>dval := (dval d)(k := None), ddue := (ddue d)(k := None)\<rparr>"

text \<open>A time to live: negative for none.\<close>

definition set_due :: "u64 \<Rightarrow> bytes \<Rightarrow> 64 word \<Rightarrow> db \<Rightarrow> db" where
  "set_due now k ms d =
    d\<lparr>ddue := (ddue d)(k := if sint ms < 0 then None else Some (now + ms))\<rparr>"

definition touch :: "u64 \<Rightarrow> bytes \<Rightarrow> db \<Rightarrow> db" where
  "touch now k d = set_due now k DEFAULT_TTL_MS d"

subsection \<open>Members in order\<close>

definition member_key :: "(bytes \<rightharpoonup> u64) \<Rightarrow> bytes \<Rightarrow> zkey" where
  "member_key m n = zkey_of (the (m n), n)"

definition ranked :: "(bytes \<rightharpoonup> u64) \<Rightarrow> zkey list" where
  "ranked m = sorted_list_of_set (member_key m ` dom m)"

definition member_reply :: "(bytes \<rightharpoonup> u64) \<Rightarrow> zkey \<Rightarrow> reply list" where
  "member_reply m k = [RStr (zname k), RDbl (the (m (zname k)))]"

text \<open>
  The members from the first one not below a bound, upwards, and from the last one not above it,
  downwards, both moved by an offset.
\<close>

definition range_ge :: "(bytes \<rightharpoonup> u64) \<Rightarrow> zkey \<Rightarrow> int \<Rightarrow> nat \<Rightarrow> zkey list" where
  "range_ge m b off l =
    (let ks = ranked m; j = length (filter (\<lambda>k. k < b) ks); i = int j + off in
     if j < length ks \<and> 0 \<le> i then take l (drop (nat i) ks) else [])"

definition range_le :: "(bytes \<rightharpoonup> u64) \<Rightarrow> zkey \<Rightarrow> int \<Rightarrow> nat \<Rightarrow> zkey list" where
  "range_le m b off l =
    (let ks = ranked m; j = length (filter (\<lambda>k. k \<le> b) ks); i = int j + off in
     if 0 < j \<and> i \<le> int (length ks) then take l (rev (take (nat i) ks)) else [])"

definition members :: "(bytes \<rightharpoonup> u64) \<Rightarrow> zkey list \<Rightarrow> reply" where
  "members m ks = RArr (concat (map (member_reply m) ks))"

definition count_between :: "(bytes \<rightharpoonup> u64) \<Rightarrow> u64 \<Rightarrow> u64 \<Rightarrow> nat" where
  "count_between m lo hi = card {n. \<exists>s. m n = Some s \<and> dbl_le lo s \<and> dbl_le s hi}"

subsection \<open>Commands\<close>

datatype command =
    CGet bytes | CSet bytes bytes | CDel bytes
  | CZadd bytes bytes bytes | CZrem bytes bytes
  | CZge bytes bytes bytes bytes bytes | CZle bytes bytes bytes bytes bytes
  | CZcount bytes bytes bytes | CZrank bytes bytes
  | CExpire bytes bytes | CTtl bytes | CEcho "bytes list" | CDie | CUnknown

definition classify :: "bytes list \<Rightarrow> command" where
  "classify cmd =
    (let c = map toupper (cmd ! 0); n = length cmd in
     if n = 2 \<and> c = ascii ''GET'' then CGet (cmd ! 1)
     else if n = 3 \<and> c = ascii ''SET'' then CSet (cmd ! 1) (cmd ! 2)
     else if n = 2 \<and> c = ascii ''DEL'' then CDel (cmd ! 1)
     else if n = 4 \<and> c = ascii ''ZADD'' then CZadd (cmd ! 1) (cmd ! 2) (cmd ! 3)
     else if n = 3 \<and> c = ascii ''ZREM'' then CZrem (cmd ! 1) (cmd ! 2)
     else if n = 6 \<and> c = ascii ''ZQUERYGE'' then CZge (cmd ! 1) (cmd ! 2) (cmd ! 3) (cmd ! 4) (cmd ! 5)
     else if n = 6 \<and> c = ascii ''ZQUERYLE'' then CZle (cmd ! 1) (cmd ! 2) (cmd ! 3) (cmd ! 4) (cmd ! 5)
     else if n = 4 \<and> c = ascii ''ZCOUNT'' then CZcount (cmd ! 1) (cmd ! 2) (cmd ! 3)
     else if n = 3 \<and> c = ascii ''ZRANK'' then CZrank (cmd ! 1) (cmd ! 2)
     else if n = 3 \<and> c = ascii ''EXPIRE'' then CExpire (cmd ! 1) (cmd ! 2)
     else if n = 2 \<and> c = ascii ''TTL'' then CTtl (cmd ! 1)
     else if n \<ge> 1 \<and> c = ascii ''ECHO'' then CEcho (tl cmd)
     else if n \<ge> 1 \<and> c = ascii ''SDIE'' then CDie
     else CUnknown)"

text \<open>A command on a set answers with an error when there is none.\<close>

definition on_set :: "bytes \<Rightarrow> string \<Rightarrow> db \<Rightarrow> ((bytes \<rightharpoonup> u64) \<Rightarrow> reply \<Rightarrow> db \<Rightarrow> bool) \<Rightarrow> reply \<Rightarrow> db \<Rightarrow> bool" where
  "on_set k what d P rp d' =
    (case dval d k of
       None \<Rightarrow> rp = RErr ERR_NOT_FOUND (ascii what) \<and> d' = d
     | Some (AStr v) \<Rightarrow> rp = RErr ERR_BAD_TYPE (ascii what) \<and> d' = d
     | Some (ASet m) \<Rightarrow> P m rp d')"

definition range_spec :: "(bytes \<Rightarrow> u64 parsed) \<Rightarrow> ((bytes \<rightharpoonup> u64) \<Rightarrow> zkey \<Rightarrow> int \<Rightarrow> nat \<Rightarrow> zkey list) \<Rightarrow>
    bytes \<Rightarrow> bytes \<Rightarrow> bytes \<Rightarrow> bytes \<Rightarrow> (bytes \<rightharpoonup> u64) \<Rightarrow> reply" where
  "range_spec stod sel score name off lim m =
    (case caught (stod score) of Inl (err, what) \<Rightarrow> RErr err what
     | Inr x \<Rightarrow> (case caught (stol off) of Inl (err, what) \<Rightarrow> RErr err what
     | Inr i \<Rightarrow> (case caught (stol lim) of Inl (err, what) \<Rightarrow> RErr err what
     | Inr l \<Rightarrow> members m (sel m (zkey_of (x, name)) (sint i) (nat (sint l))))))"

fun spec :: "(bytes \<Rightarrow> u64 parsed) \<Rightarrow> u64 \<Rightarrow> command \<Rightarrow> db \<Rightarrow> reply \<Rightarrow> db \<Rightarrow> bool" where
  "spec stod now (CGet k) d rp d' = (d' = d \<and> rp = (case dval d k of
       None \<Rightarrow> RErr ERR_NOT_FOUND (ascii ''get'')
     | Some (AStr v) \<Rightarrow> RStr v
     | Some (ASet m) \<Rightarrow> RErr ERR_BAD_TYPE (ascii ''get: expected KV-pair'')))"
| "spec stod now (CSet k v) d rp d' = (case dval d k of
       Some (ASet m) \<Rightarrow> rp = RErr ERR_BAD_TYPE (ascii ''set: wrong data type, expected KV-pair'') \<and> d' = d
     | _ \<Rightarrow> rp = RNil \<and> d' = touch now k (put k (AStr v) d))"
| "spec stod now (CDel k) d rp d' =
     (if dval d k = None then rp = RErr ERR_NOT_FOUND (ascii ''del: given key does not exist'') \<and> d' = d
      else rp = RInt 1 \<and> d' = drop_key k d)"
| "spec stod now (CZadd k score name) d rp d' = (case caught (stod score) of
       Inl (err, what) \<Rightarrow> rp = RErr err what \<and> d' = d
     | Inr x \<Rightarrow> (case dval d k of
         None \<Rightarrow> rp = RNil \<and> d' = touch now k (put k (ASet [name \<mapsto> x]) d)
       | Some (AStr v) \<Rightarrow> rp = RErr ERR_BAD_TYPE (ascii ''zadd: expexcted set Entry'') \<and> d' = d
       | Some (ASet m) \<Rightarrow> rp = RNil \<and> d' = touch now k (put k (ASet (m(name \<mapsto> x))) d)))"
| "spec stod now (CZrem k name) d rp d' = on_set k ''zrem'' d
     (\<lambda>m rp d'. rp = RInt 1 \<and> d' = put k (ASet (m(name := None))) d) rp d'"
| "spec stod now (CZge k score name off lim) d rp d' = on_set k ''zqueryge'' d
     (\<lambda>m rp d'. rp = range_spec stod range_ge score name off lim m \<and> d' = d) rp d'"
| "spec stod now (CZle k score name off lim) d rp d' = on_set k ''zqueryge'' d
     (\<lambda>m rp d'. rp = range_spec stod range_le score name off lim m \<and> d' = d) rp d'"
| "spec stod now (CZcount k lo hi) d rp d' = on_set k ''zqueryge'' d
     (\<lambda>m rp d'. d' = d \<and> (\<exists>x y. stod lo = Parsed x \<and> stod hi = Parsed y \<and>
       rp = RInt (of_nat (count_between m x y)))) rp d'"
| "spec stod now (CZrank k name) d rp d' = on_set k ''zqueryge'' d
     (\<lambda>m rp d'. d' = touch now k d \<and> (\<exists>r. rp = RInt (of_nat r) \<and>
       (if m name = None then r = 0
        else 1 \<le> r \<and> r \<le> Suc (length (filter (\<lambda>k. k < member_key m name) (ranked m)))))) rp d'"
| "spec stod now (CExpire k ms) d rp d' =
     (if dval d k = None then rp = RErr ERR_NOT_FOUND (ascii ''expire'') \<and> d' = d
      else (case caught (stoi ms) of
          Inl (err, what) \<Rightarrow> rp = RErr err what \<and> d' = d
        | Inr t \<Rightarrow> rp = RNil \<and> d' = set_due now k t d))"
| "spec stod now (CTtl k) d rp d' = (d' = d \<and>
     (if dval d k = None then rp = RErr ERR_NOT_FOUND (ascii ''ttl'')
      else (\<exists>t. ddue d k = Some t \<and> rp = RInt t)))"
| "spec stod now (CEcho ws) d rp d' = (rp = RStr (concat (map (\<lambda>w. w @ [32]) ws)) \<and> d' = d)"
| "spec stod now CDie d rp d' = (rp = RStr (ascii ''killing server'') \<and> d' = d\<lparr>alive := False\<rparr>)"
| "spec stod now CUnknown d rp d' = (rp = RErr ERR_NOT_FOUND (ascii ''command not found'') \<and> d' = d)"

text \<open>
  What a command needs to be answered as specified: strings no longer than a message, scores that
  are numbers, room for one more member, a range whose reply has a 32-bit length, bounds that parse
  (\<^verbatim>\<open>do_zcount\<close> does not catch the exception), and a timer to read (\<^verbatim>\<open>do_ttl\<close> does not check for one).
\<close>

fun answerable :: "(bytes \<Rightarrow> u64 parsed) \<Rightarrow> command \<Rightarrow> db \<Rightarrow> bool" where
  "answerable stod (CSet k v) d = (length v \<le> MAX_MSG)"
| "answerable stod (CZadd k score name) d = ((\<forall>x. stod score = Parsed x \<longrightarrow> \<not> dbl_nan x) \<and>
     (\<forall>m. dval d k = Some (ASet m) \<longrightarrow> small (Suc (card (dom m)))))"
| "answerable stod (CZge k score name off lim) d = ((\<forall>x. stod score = Parsed x \<longrightarrow> \<not> dbl_nan x) \<and>
     (\<forall>m. dval d k = Some (ASet m) \<longrightarrow>
       length (encode (range_spec stod range_ge score name off lim m)) < 2 ^ 32))"
| "answerable stod (CZle k score name off lim) d = ((\<forall>x. stod score = Parsed x \<longrightarrow> \<not> dbl_nan x) \<and>
     (\<forall>m. dval d k = Some (ASet m) \<longrightarrow>
       length (encode (range_spec stod range_le score name off lim m)) < 2 ^ 32))"
| "answerable stod (CZcount k lo hi) d = (\<forall>m. dval d k = Some (ASet m) \<longrightarrow>
     (\<exists>x y. stod lo = Parsed x \<and> stod hi = Parsed y \<and> \<not> dbl_nan x))"
| "answerable stod (CTtl k) d = (dval d k = None \<or> ddue d k \<noteq> None)"
| "answerable stod _ d = True"

subsection \<open>Representation\<close>

text \<open>A value of an entry and the value of the database it stands for.\<close>

definition val_rep :: "entry \<Rightarrow> aval \<Rightarrow> bool" where
  "val_rep e v = (case (eval e, v) of
     (KV w, AStr w') \<Rightarrow> w' = w \<and> etype e = E_STR \<and> length w \<le> MAX_MSG
   | (SetV z, ASet m) \<Rightarrow> etype e = E_SET \<and> zset_is z (card (dom m)) m
   | _ \<Rightarrow> False)"

text \<open>
  The state of the server, with the location of every key: the entries are the located keys, the
  index holds one node for each, the values represent those of the database, and the timers of the
  entries are its deadlines.
\<close>

definition located :: "server \<Rightarrow> (bytes \<rightharpoonup> addr) \<Rightarrow> bool" where
  "located s loc = ((\<forall>k a. loc k = Some a \<longleftrightarrow> (\<exists>e. entries s a = Some e \<and> ekey e = k)) \<and>
     (\<forall>a \<in> dom (entries s). a < next_entry s) \<and> finite (dom loc))"

definition indexed :: "server \<Rightarrow> (bytes \<rightharpoonup> addr) \<Rightarrow> bool" where
  "indexed s loc = (hmap_ok (g_data s) \<and>
     hmap_nodes (g_data s) = image_mset (\<lambda>k. \<lparr>hcode = str_hash k, item = the (loc k)\<rparr>) (mset_set (dom loc)))"

definition valued :: "server \<Rightarrow> (bytes \<rightharpoonup> addr) \<Rightarrow> db \<Rightarrow> bool" where
  "valued s loc d = (dom (dval d) = dom loc \<and> alive d = is_running s \<and>
     (\<forall>k a v. loc k = Some a \<longrightarrow> dval d k = Some v \<longrightarrow> (\<exists>e. entries s a = Some e \<and> val_rep e v)))"

definition timed :: "server \<Rightarrow> (bytes \<rightharpoonup> addr) \<Rightarrow> db \<Rightarrow> bool" where
  "timed s loc d = (timers_ok (ttl s) \<and> dom (timer_due (ttl s)) \<subseteq> dom (entries s) \<and>
     (\<forall>k. ddue d k = Option.bind (loc k) (timer_due (ttl s))))"

definition rep :: "server \<Rightarrow> (bytes \<rightharpoonup> addr) \<Rightarrow> db \<Rightarrow> bool" where
  "rep s loc d = (located s loc \<and> indexed s loc \<and> valued s loc d \<and> timed s loc d)"

end
