(* ===== verification/MRD_StoreProof.thy ===== *)
theory MRD_StoreProof
  imports MRD_StoreSpec
begin

text \<open>
  The commands implement the abstract database: one lemma per primitive step on the server's state
  (lookup, writing a value, setting a timer, creating and deleting an entry).
\<close>

subsection \<open>Lookup\<close>

definition ekey_at :: "server \<Rightarrow> addr \<Rightarrow> bytes" where
  "ekey_at s a = (case entries s a of None \<Rightarrow> [] | Some e \<Rightarrow> ekey e)"

definition loc_node :: "(bytes \<rightharpoonup> addr) \<Rightarrow> bytes \<Rightarrow> addr hnode" where
  "loc_node loc k = \<lparr>hcode = str_hash k, item = the (loc k)\<rparr>"

lemma indexed_iff: "indexed s loc \<longleftrightarrow> hmap_ok (g_data s) \<and>
    hmap_nodes (g_data s) = image_mset (loc_node loc) (mset_set (dom loc))"
  by (simp add: indexed_def loc_node_def [abs_def])

lemma located_entry: "located s loc \<Longrightarrow> loc k = Some a \<Longrightarrow> \<exists>e. entries s a = Some e \<and> ekey e = k"
  by (simp add: located_def)

lemma located_key: "located s loc \<Longrightarrow> entries s a = Some e \<Longrightarrow> loc (ekey e) = Some a"
  by (simp add: located_def)

lemma located_key_eq: "located s loc \<Longrightarrow> key_eq s k a \<longleftrightarrow> loc k = Some a"
  by (auto simp: located_def key_eq_def split: option.splits)

lemma located_inj: "located s loc \<Longrightarrow> loc k = Some a \<Longrightarrow> loc j = Some a \<Longrightarrow> k = j"
  by (fastforce simp: located_def)

lemma located_ekey_at: "located s loc \<Longrightarrow> loc k = Some a \<Longrightarrow> ekey_at s a = k"
  by (auto simp: ekey_at_def dest: located_entry)

lemma located_keyed:
  assumes loc: "located s loc" and idx: "indexed s loc"
  shows "keyed (ekey_at s) str_hash (hmap_nodes (g_data s))"
    "n \<in># hmap_nodes (g_data s) \<Longrightarrow> key_eq s k (item n) \<longleftrightarrow> ekey_at s (item n) = k"
proof -
  have fin: "finite (dom loc)" using loc by (simp add: located_def)
  have nodes: "hmap_nodes (g_data s) = image_mset (loc_node loc) (mset_set (dom loc))"
    using idx by (simp add: indexed_iff)
  have at: "ekey_at s (item (loc_node loc k)) = k" "hcode (loc_node loc k) = str_hash k" if "k \<in> dom loc" for k
    using located_ekey_at [OF loc] that by (auto simp: loc_node_def)
  have "{#n \<in># image_mset (loc_node loc) (mset_set (dom loc)). ekey_at s (item n) = j#} =
      image_mset (loc_node loc) {#k \<in># mset_set (dom loc). k = j#}" for j
    unfolding filter_mset_image_mset
    by (rule arg_cong [where f = "image_mset (loc_node loc)"], rule filter_mset_cong [OF refl])
      (use at fin in simp)
  moreover have "size {#k \<in># mset_set (dom loc). k = j#} \<le> 1" for j
    using fin by (simp add: filter_eq_replicate_mset count_mset_set')
  ultimately show "keyed (ekey_at s) str_hash (hmap_nodes (g_data s))"
    using at fin by (auto simp: keyed_def nodes)
  assume "n \<in># hmap_nodes (g_data s)"
  then obtain j a where j: "loc j = Some a" "n = loc_node loc j" using fin by (auto simp: nodes)
  then have "item n = a" by (simp add: loc_node_def)
  then show "key_eq s k (item n) \<longleftrightarrow> ekey_at s (item n) = k"
    using j located_key_eq [OF loc] located_ekey_at [OF loc] located_inj [OF loc] by metis
qed

lemma data_lookup_ok:
  assumes loc: "located s loc" and idx: "indexed s loc"
  shows "data_lookup s k = Some (loc k)"
proof -
  have ok: "hmap_ok (g_data s)" and nodes: "hmap_nodes (g_data s) = image_mset (loc_node loc) (mset_set (dom loc))"
    and fin: "finite (dom loc)" using idx loc by (simp_all add: indexed_iff located_def)
  note agree = hm.find_agree [OF ok located_keyed(1) [OF loc idx] located_keyed(2) [OF loc idx], of k]
  show ?thesis
  proof (cases "loc k")
    case None
    have "\<forall>n \<in># hmap_nodes (g_data s). ekey_at s (item n) \<noteq> k"
      using fin None located_ekey_at [OF loc] by (auto simp: nodes loc_node_def)
    then show ?thesis using agree(2) None by (simp add: data_lookup_def)
  next
    case (Some a)
    have "loc_node loc k \<in># hmap_nodes (g_data s)" "ekey_at s (item (loc_node loc k)) = k"
      using fin Some located_ekey_at [OF loc] by (auto simp: nodes loc_node_def)
    then have "HMap_lookup (g_data s) (str_hash k) (key_eq s k) = Some (Some (loc_node loc k))"
      using agree(1) by blast
    then show ?thesis using Some by (simp add: data_lookup_def loc_node_def)
  qed
qed

subsection \<open>Steps\<close>

lemma rep_parts:
  assumes "rep s loc d"
  shows "located s loc" "indexed s loc" "valued s loc d" "timed s loc d"
  using assms by (simp_all add: rep_def)

lemma rep_lookup: "rep s loc d \<Longrightarrow> data_lookup s k = Some (loc k)"
  by (simp add: data_lookup_ok rep_parts)

lemma rep_dom: "rep s loc d \<Longrightarrow> dval d k = None \<longleftrightarrow> loc k = None"
  by (auto simp: rep_def valued_def dest: arg_cong [where f = "\<lambda>A. k \<in> A"])

lemma valued_entry:
  "valued s loc d \<Longrightarrow> loc k = Some a \<Longrightarrow> dval d k = Some v \<Longrightarrow> entries s a = Some e \<Longrightarrow> val_rep e v"
  unfolding valued_def by fastforce

lemma rep_entry:
  assumes "rep s loc d" "dval d k = Some v"
  obtains a e where "loc k = Some a" "entries s a = Some e" "ekey e = k" "val_rep e v"
proof -
  obtain a where a: "loc k = Some a" using rep_dom [OF assms(1), of k] assms(2) by auto
  then obtain e where e: "entries s a = Some e" "ekey e = k"
    using located_entry [OF rep_parts(1) [OF assms(1)]] by blast
  then have "val_rep e v" using valued_entry [OF rep_parts(3) [OF assms(1)]] a assms(2) by blast
  then show ?thesis using that a e by blast
qed

lemma rep_due: "rep s loc d \<Longrightarrow> loc k = Some a \<Longrightarrow> ddue d k = timer_due (ttl s) a"
  by (simp add: rep_def timed_def)

text \<open>Writing a value.\<close>

lemma set_val_ok:
  assumes r: "rep s loc d" and a: "loc k = Some a" "entries s a = Some e" "val_rep (e\<lparr>eval := v\<rparr>) w"
  obtains s' where "set_val a v s = Some s'" "rep s' loc (put k w d)"
proof -
  note p = rep_parts [OF r]
  have k: "ekey e = k" using located_entry [OF p(1) a(1)] a(2) by simp
  define s' where "s' = s\<lparr>entries := (entries s)(a \<mapsto> e\<lparr>eval := v\<rparr>)\<rparr>"
  have "located s' loc"
    using p(1) a(2) by (auto simp: located_def s'_def)
  moreover have "indexed s' loc" using p(2) by (simp add: indexed_def s'_def)
  moreover have "valued s' loc (put k w d)"
  proof -
    have "\<exists>e. entries s' b = Some e \<and> val_rep e x"
      if b: "loc j = Some b" and x: "dval (put k w d) j = Some x" for j b x
    proof (cases "j = k")
      case True
      then show ?thesis using b x a by (simp add: s'_def put_def)
    next
      case False
      then have "b \<noteq> a" using located_inj [OF p(1) a(1)] b by blast
      then show ?thesis using False b x p(3) by (auto simp: valued_def s'_def put_def)
    qed
    moreover have "insert k (dom (dval d)) = dom loc" using a(1) p(3) by (auto simp: valued_def)
    ultimately show ?thesis using p(3) by (auto simp: valued_def s'_def put_def)
  qed
  moreover have "timed s' loc (put k w d)"
    using p(4) a(2) by (auto simp: timed_def s'_def put_def)
  ultimately show ?thesis using that [of s'] a(2) by (simp add: set_val_def s'_def rep_def)
qed

text \<open>Setting a timer.\<close>

lemma entry_set_ttl_due:
  assumes "timers_ok t" "0 \<le> sint ms \<Longrightarrow> timer_room t"
  obtains t' where "entry_set_ttl now t a ms = Some t'" "timers_ok t'"
    "timer_due t' = (timer_due t)(a := if sint ms < 0 then None else Some (now + ms))"
proof (cases "sint ms < 0")
  case True
  show ?thesis
  proof (cases "timer_due t a = None")
    case none: True
    then show ?thesis using entry_set_ttl_cancel [OF assms(1) True] True assms(1)
      by (intro that [of t]) (simp_all add: fun_upd_idem)
  next
    case False
    then show ?thesis using entry_set_ttl_cancel [OF assms(1) True, of now a] True
      by (intro that [of "timer_cancel t a"]) (simp_all add: tq.cancel_inv tq.cancel_due assms(1) del: not_None_eq)
  qed
next
  case False
  then show ?thesis using entry_set_ttl_start assms
    by (intro that [of "timer_start t a (now + ms)"]) (simp_all add: tq.start_inv tq.start_due)
qed

lemma set_ttl_ok:
  assumes r: "rep s loc d" and a: "loc k = Some a" and room: "0 \<le> sint ms \<Longrightarrow> timer_room (ttl s)"
  obtains s' where "set_ttl now a ms s = Some s'" "rep s' loc (set_due now k ms d)" "s' = s\<lparr>ttl := ttl s'\<rparr>"
proof -
  note p = rep_parts [OF r]
  obtain t where t: "entry_set_ttl now (ttl s) a ms = Some t" "timers_ok t"
    "timer_due t = (timer_due (ttl s))(a := if sint ms < 0 then None else Some (now + ms))"
    by (rule entry_set_ttl_due [of "ttl s" ms now a]) (use p(4) room in \<open>auto simp: timed_def\<close>)
  let ?s = "s\<lparr>ttl := t\<rparr>"
  have "ddue (set_due now k ms d) j = Option.bind (loc j) (timer_due t)" for j
  proof (cases "j = k")
    case False
    then have "loc j \<noteq> Some a" using located_inj [OF p(1) a] by blast
    then show ?thesis using False p(4) by (cases "loc j") (auto simp: timed_def set_due_def t(3))
  qed (simp add: a set_due_def t(3))
  moreover have "a \<in> dom (entries s)" using located_entry [OF p(1) a] by auto
  ultimately have "timed ?s loc (set_due now k ms d)"
    using p(4) t(2) by (auto simp: timed_def t(3) split: if_splits)
  moreover have "located ?s loc" "indexed ?s loc" "valued ?s loc (set_due now k ms d)"
    using p by (simp_all add: located_def indexed_def valued_def set_due_def)
  ultimately show ?thesis using that [of ?s] t(1) by (simp add: set_ttl_def rep_def)
qed

text \<open>There are at most as many timers as keys.\<close>

lemma rep_timers:
  assumes "rep s loc d"
  shows "length (fst (ttl s)) \<le> card (dom (dval d))"
proof -
  note p = rep_parts [OF assms]
  obtain h cs where t: "ttl s = (h, cs)" by fastforce
  have ok: "timers_ok (h, cs)" using p(4) t by (simp add: timed_def)
  have fin: "finite (dom loc)" using p(1) by (simp add: located_def)
  have "distinct (map ref h)"
    using ok cells_ok_distinct [of h cs] by (simp add: timers_ok_def)
  moreover have "ref ` set h \<subseteq> the ` loc ` dom loc"
  proof
    fix r assume "r \<in> ref ` set h"
    then have "r \<in> dom (entries s)"
      using p(4) timer_due_None [OF ok, of r] by (auto simp: timed_def t)
    then obtain e where "entries s r = Some e" by auto
    then have "loc (ekey e) = Some r" using located_key [OF p(1)] by blast
    then show "r \<in> the ` loc ` dom loc" by force
  qed
  then have "card (ref ` set h) \<le> card (dom loc)"
    using fin by (metis card_image_le card_mono finite_imageI order_trans)
  moreover have "dom loc = dom (dval d)" using p(3) by (simp add: valued_def)
  ultimately show ?thesis by (metis distinct_card fst_conv length_map list.set_map t)
qed

text \<open>A new entry, linked into the index.\<close>

lemma loc_node_upd: "loc_node (loc(k := v)) j = (if j = k then \<lparr>hcode = str_hash k, item = the v\<rparr> else loc_node loc j)"
  by (simp add: loc_node_def)

lemma located_insert:
  assumes "located s loc" "loc k = None" "ekey e = k" "a = next_entry s"
    "entries s' = (entries s)(a \<mapsto> e)" "next_entry s' = a + 1"
  shows "located s' (loc(k \<mapsto> a))"
proof -
  have new: "entries s a = None" using assms(1,4) by (auto simp: located_def domIff)
  have "(loc(k \<mapsto> a)) j = Some b \<longleftrightarrow> (\<exists>x. entries s' b = Some x \<and> ekey x = j)" for j b
  proof (cases "b = a")
    case True
    have "loc j \<noteq> Some a" using located_entry [OF assms(1)] new by fastforce
    then show ?thesis using True assms(3,5) by auto
  next
    case False
    then have "(\<exists>x. entries s' b = Some x \<and> ekey x = j) \<longleftrightarrow> loc j = Some b"
      using assms(1,5) by (simp add: located_def)
    then show ?thesis using False assms(2) by simp
  qed
  moreover have "\<forall>b \<in> dom (entries s'). b < next_entry s'"
    using assms(1,4,5,6) by (auto simp: located_def intro: less_SucI)
  ultimately show ?thesis using assms(1) by (simp add: located_def)
qed

lemma located_delete:
  assumes "located s loc" "loc k = Some a" "entries s' = (entries s)(a := None)" "next_entry s' = next_entry s"
  shows "located s' (loc(k := None))"
proof -
  have "(loc(k := None)) j = Some b \<longleftrightarrow> (\<exists>x. entries s' b = Some x \<and> ekey x = j)" for j b
  proof (cases "b = a")
    case True
    have "loc j = Some a \<longrightarrow> j = k" using located_inj [OF assms(1,2)] by blast
    then show ?thesis using True assms(3) by auto
  next
    case False
    then have "(\<exists>x. entries s' b = Some x \<and> ekey x = j) \<longleftrightarrow> loc j = Some b"
      using assms(1,3) by (simp add: located_def)
    then show ?thesis using False assms(2) by simp
  qed
  then show ?thesis using assms(1,3,4) by (simp add: located_def)
qed

lemma new_entry_ok:
  assumes r: "rep s loc d" and none: "dval d k = None" and v: "val_rep \<lparr>ekey = k, etype = t, eval = x\<rparr> w"
  obtains m s1 where "Entry_new k t x s = (\<lparr>hcode = str_hash k, item = next_entry s\<rparr>, s1)"
    "HMap_insert (g_data s1) \<lparr>hcode = str_hash k, item = next_entry s\<rparr> = Some m"
    "rep (s1\<lparr>g_data := m\<rparr>) (loc(k \<mapsto> next_entry s)) (put k w d)"
    "entries s1 (next_entry s) = Some \<lparr>ekey = k, etype = t, eval = x\<rparr>" "ttl s1 = ttl s"
proof -
  note p = rep_parts [OF r]
  let ?a = "next_entry s" and ?e = "\<lparr>ekey = k, etype = t, eval = x\<rparr>"
  let ?n = "\<lparr>hcode = str_hash k, item = next_entry s\<rparr>"
  have lk: "loc k = None" using rep_dom [OF r] none by simp
  have fin: "finite (dom loc)" using p(1) by (simp add: located_def)
  have new: "?a \<notin> dom (entries s)" using p(1) by (auto simp: located_def)
  then have out: "loc j \<noteq> Some ?a" for j using located_entry [OF p(1)] by fastforce
  obtain h cs where t: "ttl s = (h, cs)" by fastforce
  have "timer_due (h, cs) ?a = None" using new p(4) t by (auto simp: timed_def)
  then have "cs ?a = no_idx" using timer_due_idx [of h cs ?a] p(4) t by (simp add: timed_def)
  then have cells: "(fst (ttl s), (snd (ttl s))(?a := no_idx)) = ttl s" by (simp add: t fun_upd_idem)
  define s1 where "s1 = s\<lparr>entries := (entries s)(?a \<mapsto> ?e), ttl := ttl s, next_entry := ?a + 1\<rparr>"
  obtain m where m: "HMap_insert (g_data s) ?n = Some m" "hmap_ok m" "hmap_nodes m = add_mset ?n (hmap_nodes (g_data s))"
    using hm.insert_law p(2) unfolding indexed_def by blast
  let ?l = "loc(k \<mapsto> ?a)" and ?s = "s1\<lparr>g_data := m\<rparr>"
  have "located ?s ?l"
    by (rule located_insert [OF p(1) lk, of ?e]) (simp_all add: s1_def)
  moreover have "indexed ?s ?l"
  proof -
    have "image_mset (loc_node ?l) (mset_set (dom loc)) = image_mset (loc_node loc) (mset_set (dom loc))"
      by (rule image_mset_cong) (use lk fin in \<open>auto simp: loc_node_upd\<close>)
    moreover have "mset_set (dom ?l) = add_mset k (mset_set (dom loc))"
      using lk fin by (simp add: domIff)
    moreover have "loc_node ?l k = ?n" by (simp add: loc_node_upd)
    ultimately show ?thesis using m p(2) by (simp add: indexed_iff)
  qed
  moreover have "valued ?s ?l (put k w d)"
  proof -
    have "\<exists>e. entries ?s b = Some e \<and> val_rep e y"
      if b: "?l j = Some b" and y: "dval (put k w d) j = Some y" for j b y
    proof (cases "j = k")
      case True
      then show ?thesis using b y v by (simp add: s1_def put_def)
    next
      case False
      then have "b \<noteq> ?a" using out b by auto
      then show ?thesis using False b y p(3) by (auto simp: valued_def s1_def put_def)
    qed
    then show ?thesis using p(3) by (auto simp: valued_def s1_def put_def)
  qed
  moreover have "timed ?s ?l (put k w d)"
  proof -
    have "ddue d j = Option.bind (?l j) (timer_due (ttl s))" for j
      using p(4) lk \<open>timer_due (h, cs) ?a = None\<close> by (auto simp: timed_def t)
    then show ?thesis using p(4) by (auto simp: timed_def s1_def put_def)
  qed
  moreover have "Entry_new k t x s = (?n, s1)" using cells by (simp add: Entry_new_def s1_def)
  ultimately show ?thesis using that [of s1 m] m(1) by (simp add: rep_def s1_def)
qed

text \<open>Removing a key from the index, and deleting its entry.\<close>

lemma ZSet_destroy_ok: "zset_ok z xs \<Longrightarrow> \<exists>z'. ZSet_destroy z = Some z'"
proof -
  assume ok: "zset_ok z xs"
  obtain t where t: "is_tree (tree z) None (root z) t" "avl t" "inorder t = xs" "distinct (inorder t)"
    "small (size t)" "set_tree t = set xs" "size t = length xs"
    using avl_seqE [OF zset_seq [OF ok]] .
  then show ?thesis using tree_dispose_ok [OF t(1,4)] by (auto simp: ZSet_destroy_def Let_def)
qed

lemma val_rep_destroy:
  "val_rep e v \<Longrightarrow> (case eval e of KV v \<Rightarrow> Some () | SetV z \<Rightarrow> do { ZSet_destroy z; Some () }) = Some ()"
  using ZSet_destroy_ok by (auto simp: val_rep_def zset_is_def split: entry_val.splits aval.splits) fastforce

lemma erase_absent:
  assumes r: "rep s loc d" and k: "loc k = None"
  obtains m where "HMap_erase (g_data s) (str_hash k) (key_eq s k) = Some (None, m)" "rep (s\<lparr>g_data := m\<rparr>) loc d"
proof -
  note p = rep_parts [OF r]
  have fin: "finite (dom loc)" and ok: "hmap_ok (g_data s)" using p(1,2) by (simp_all add: located_def indexed_def)
  show ?thesis
  proof (cases rule: hm.erase_keyed [OF ok located_keyed(1) [OF p(1,2)] located_keyed(2) [OF p(1,2)], of k])
    case (1 n)
    then show ?case by simp
  next
    case (2 m)
    then show ?thesis using that p by (simp add: rep_def located_def indexed_def valued_def timed_def)
  next
    case (3 n m)
    then have "n \<in># hmap_nodes (g_data s)" by simp
    then obtain j a where j: "loc j = Some a" "n = loc_node loc j" using fin p(2) by (auto simp: indexed_iff)
    then have "ekey_at s (item n) = j" using located_ekey_at [OF p(1)] by (simp add: loc_node_def)
    then show ?thesis using 3 j k by simp
  qed
qed

lemma erase_present:
  assumes r: "rep s loc d" and k: "loc k = Some a"
  obtains m where "HMap_erase (g_data s) (str_hash k) (key_eq s k) = Some (Some (loc_node loc k), m)"
    "hmap_ok m" "hmap_nodes m = image_mset (loc_node loc) (mset_set (dom loc - {k}))"
proof -
  note p = rep_parts [OF r]
  have fin: "finite (dom loc)" and ok: "hmap_ok (g_data s)" using p(1,2) by (simp_all add: located_def indexed_def)
  show ?thesis
  proof (cases rule: hm.erase_keyed [OF ok located_keyed(1) [OF p(1,2)] located_keyed(2) [OF p(1,2)], of k])
    case (1 n)
    then show ?case by simp
  next
    case (2 m)
    have "loc_node loc k \<in># hmap_nodes (g_data s)" using fin p(2) k by (auto simp: indexed_iff)
    then have "ekey_at s (item (loc_node loc k)) \<noteq> k" using 2 by simp
    then show ?thesis using located_ekey_at [OF p(1) k] k by (simp add: loc_node_def)
  next
    case (3 n m)
    then have "n \<in># hmap_nodes (g_data s)" by simp
    then obtain j b where j: "loc j = Some b" "n = loc_node loc j" using fin p(2) by (auto simp: indexed_iff)
    then have "ekey_at s (item n) = j" using located_ekey_at [OF p(1)] by (simp add: loc_node_def)
    then have n: "n = loc_node loc k" using 3 j by simp
    have "mset_set (dom loc) = add_mset k (mset_set (dom loc - {k}))"
      using k fin mset_set.insert_remove [of "dom loc" k] by (simp add: domIff insert_absorb domI)
    then have "hmap_nodes m = image_mset (loc_node loc) (mset_set (dom loc - {k}))"
      using 3 p(2) n by (simp add: indexed_iff)
    then show ?thesis using that 3 n by simp
  qed
qed

lemma entry_del_ok:
  assumes r: "rep s loc d" and k: "loc k = Some a"
    and m: "hmap_ok m" "hmap_nodes m = image_mset (loc_node loc) (mset_set (dom loc - {k}))"
  obtains s' where "entry_del now a (s\<lparr>g_data := m\<rparr>) = Some s'" "rep s' (loc(k := None)) (drop_key k d)"
    "timer_due (ttl s') = (timer_due (ttl s))(a := None)"
proof -
  note p = rep_parts [OF r]
  obtain t where t: "entry_set_ttl now (ttl s) a (- 1) = Some t" "timers_ok t"
    "timer_due t = (timer_due (ttl s))(a := None)"
    by (rule entry_set_ttl_due [of "ttl s" "- 1" now a]) (use p(4) in \<open>auto simp: timed_def\<close>)
  obtain v e where e: "dval d k = Some v" "entries s a = Some e" "ekey e = k" "val_rep e v"
    using rep_dom [OF r, of k] k by (metis option.distinct(1) option.exhaust option.inject r rep_entry)
  let ?l = "loc(k := None)"
  let ?s = "s\<lparr>g_data := m, entries := (entries s)(a := None), ttl := t\<rparr>"
  have ne: "b \<noteq> a" if "loc j = Some b" "j \<noteq> k" for j b using located_inj [OF p(1) k] that by blast
  have "located ?s ?l" by (rule located_delete [OF p(1) k]) simp_all
  moreover have "indexed ?s ?l"
  proof -
    have "image_mset (loc_node ?l) (mset_set (dom loc - {k})) = image_mset (loc_node loc) (mset_set (dom loc - {k}))"
      by (rule image_mset_cong) (use p(1) in \<open>auto simp: loc_node_upd located_def\<close>)
    then show ?thesis using m by (simp add: indexed_iff)
  qed
  moreover have "valued ?s ?l (drop_key k d)"
  proof -
    have "\<exists>e. entries ?s b = Some e \<and> val_rep e y" if "?l j = Some b" "dval (drop_key k d) j = Some y" for j b y
      using that p(3) ne by (auto simp: valued_def drop_key_def split: if_splits)
    then show ?thesis using p(3) by (auto simp: valued_def drop_key_def)
  qed
  moreover have "timed ?s ?l (drop_key k d)"
  proof -
    have "ddue (drop_key k d) j = Option.bind (?l j) (timer_due t)" for j
      using p(4) ne by (cases "loc j") (auto simp: timed_def drop_key_def t(3))
    moreover have "dom (timer_due t) \<subseteq> dom (entries s) - {a}" using p(4) by (auto simp: timed_def t(3))
    ultimately show ?thesis using t(2) by (auto simp: timed_def)
  qed
  moreover have "entry_del now a (s\<lparr>g_data := m\<rparr>) = Some ?s"
    using t(1) e(2) val_rep_destroy [OF e(4)] by (simp add: entry_del_def set_ttl_def)
  ultimately show ?thesis using that t(3) by (simp add: rep_def)
qed

end
