(* ===== verification/MRD_StoreCmd.thy ===== *)
theory MRD_StoreCmd
  imports MRD_StoreProof
begin

text \<open>
  One lemma per command: run on a state that represents a database, it is served as the
  specification of the command says.
\<close>

subsection \<open>Commands on keys\<close>

text \<open>
  A command is served when it returns, appends exactly one encoded reply to the output, returns its
  length, and leaves a state that represents the next database.
\<close>

definition served :: "command_result \<Rightarrow> bytes \<Rightarrow> (reply \<Rightarrow> db \<Rightarrow> bool) \<Rightarrow> bool" where
  "served r xs P = (\<exists>out s' loc rp d'. r = Some ((out, of_nat (length (encode rp))), s') \<and>
     holds out (xs @ encode rp) \<and> rep s' loc d' \<and> P rp d')"

lemma answer_served:
  assumes "writes w xs (encode rp)" "rep s loc d" "P rp d"
  shows "served (answer w s) xs P"
  using assms unfolding served_def writes_def answer_def by fastforce

lemma val_rep_simps [simp]:
  "val_rep e (AStr w) \<longleftrightarrow> eval e = KV w \<and> etype e = E_STR \<and> length w \<le> MAX_MSG"
  "val_rep e (ASet m) \<longleftrightarrow> (\<exists>z. eval e = SetV z \<and> etype e = E_SET \<and> zset_is z (card (dom m)) m)"
  by (auto simp: val_rep_def split: entry_val.splits)

lemma types_differ [simp]: "E_STR \<noteq> E_SET" "E_SET \<noteq> E_STR"
  by (simp_all add: E_STR_def E_SET_def)

lemma rep_room: "rep s loc d \<Longrightarrow> card (dom (dval d)) < no_idx \<Longrightarrow> timer_room (ttl s)"
  using rep_timers [of s loc d] by (simp add: timer_room_def split_beta)

lemma set_ttl_touch:
  assumes "rep s loc d" "loc k = Some a" "timer_room (ttl s)"
  obtains s' where "set_ttl now a DEFAULT_TTL_MS s = Some s'" "rep s' loc (touch now k d)"
  by (rule set_ttl_ok [OF assms(1,2), of DEFAULT_TTL_MS now]) (use assms(3) that in \<open>simp_all add: touch_def\<close>)

lemma set_val_touch:
  assumes r: "rep s loc d" and a: "loc k = Some a" "entries s a = Some e" "val_rep (e\<lparr>eval := v\<rparr>) w"
    and room: "timer_room (ttl s)"
  obtains s1 s2 where "set_val a v s = Some s1" "set_ttl now a DEFAULT_TTL_MS s1 = Some s2"
    "rep s2 loc (touch now k (put k w d))"
proof -
  obtain s1 where s1: "set_val a v s = Some s1" "rep s1 loc (put k w d)"
    by (rule set_val_ok [OF r a])
  have "timer_room (ttl s1)" using s1(1) room by (auto simp: set_val_def bind_simps)
  then show ?thesis using set_ttl_touch [OF s1(2) a(1)] that s1(1) by metis
qed

lemma zset_is_card:
  assumes "zset_is z k m"
  shows "k = card (dom m)" "finite (dom m)"
proof -
  obtain xs where xs: "zset_ok z xs" "length xs = k" "score_map z xs = m" using assms by (auto simp: zset_is_def)
  have "dom m = name_at z ` set xs" 
    by (rule set_eqI) (simp add: xs(3) [symmetric] domIff score_map_None)
  moreover have "distinct (map (name_at z) xs)" using xs(1) by (simp add: zset_ok_def)
  ultimately show "k = card (dom m)" using xs(2) distinct_card [of "map (name_at z) xs"] by simp
  show "finite (dom m)" by (simp add: \<open>dom m = name_at z ` set xs\<close>)
qed

lemma do_get_ok:
  assumes r: "rep s loc d" and out: "holds out xs"
  shows "served (do_get cmd out s) xs (spec stod now (CGet (cmd ! 1)) d)"
proof (cases "dval d (cmd ! 1)")
  case None
  then have "do_get cmd out s = answer (out_err out ERR_NOT_FOUND (ascii ''get'')) s"
    using rep_dom [OF r, of "cmd ! 1"] by (simp add: do_get_def rep_lookup [OF r])
  then show ?thesis using answer_served [OF out_err_writes [OF out] r] None by simp
next
  case (Some v)
  obtain a e where e: "loc (cmd ! 1) = Some a" "entries s a = Some e" "ekey e = cmd ! 1" "val_rep e v"
    by (rule rep_entry [OF r Some])
  show ?thesis
  proof (cases v)
    case (AStr w)
    then have "do_get cmd out s = answer (out_str out w) s"
      using e by (simp add: do_get_def rep_lookup [OF r] get_str_def)
    then show ?thesis using answer_served [OF out_str_writes [OF out] r] Some AStr by simp
  next
    case (ASet m)
    then have "do_get cmd out s = answer (out_err out ERR_BAD_TYPE (ascii ''get: expected KV-pair'')) s"
      using e by (auto simp: do_get_def rep_lookup [OF r])
    then show ?thesis using answer_served [OF out_err_writes [OF out] r] Some ASet by simp
  qed
qed

lemma do_set_ok:
  assumes r: "rep s loc d" and out: "holds out xs" and room: "card (dom (dval d)) < no_idx"
    and len: "length (cmd ! 2) \<le> MAX_MSG"
  shows "served (do_set now cmd out s) xs (spec stod now (CSet (cmd ! 1) (cmd ! 2)) d)"
proof (cases "dval d (cmd ! 1)")
  case None
  obtain m s1 where n: "Entry_new (cmd ! 1) E_STR (KV (cmd ! 2)) s = (\<lparr>hcode = str_hash (cmd ! 1), item = next_entry s\<rparr>, s1)"
    "HMap_insert (g_data s1) \<lparr>hcode = str_hash (cmd ! 1), item = next_entry s\<rparr> = Some m"
    "rep (s1\<lparr>g_data := m\<rparr>) (loc(cmd ! 1 \<mapsto> next_entry s)) (put (cmd ! 1) (AStr (cmd ! 2)) d)" "ttl s1 = ttl s"
    by (rule new_entry_ok [OF r None, of E_STR "KV (cmd ! 2)" "AStr (cmd ! 2)"]) (use len in simp_all)
  obtain s2 where s2: "set_ttl now (next_entry s) DEFAULT_TTL_MS (s1\<lparr>g_data := m\<rparr>) = Some s2"
    "rep s2 (loc(cmd ! 1 \<mapsto> next_entry s)) (touch now (cmd ! 1) (put (cmd ! 1) (AStr (cmd ! 2)) d))"
    by (rule set_ttl_touch [OF n(3), of "cmd ! 1" "next_entry s" now]) (use rep_room [OF r room] n(4) in simp_all)
  have "do_set now cmd out s = answer (out_nil out) s2"
    using None rep_dom [OF r, of "cmd ! 1"] n(1,2) s2(1)
    by (simp add: do_set_def rep_lookup [OF r] EntryKV_def)
  then show ?thesis using answer_served [OF out_nil_writes [OF out] s2(2)] None by simp
next
  case (Some v)
  obtain a e where e: "loc (cmd ! 1) = Some a" "entries s a = Some e" "ekey e = cmd ! 1" "val_rep e v"
    by (rule rep_entry [OF r Some])
  show ?thesis
  proof (cases v)
    case (AStr w)
    have v: "val_rep (e\<lparr>eval := KV (cmd ! 2)\<rparr>) (AStr (cmd ! 2))" using e(4) AStr len by simp
    obtain s1 s2 where s1: "set_val a (KV (cmd ! 2)) s = Some s1"
      and s2: "set_ttl now a DEFAULT_TTL_MS s1 = Some s2"
        "rep s2 loc (touch now (cmd ! 1) (put (cmd ! 1) (AStr (cmd ! 2)) d))"
      by (rule set_val_touch [OF r e(1,2) v rep_room [OF r room], of now])
    have "do_set now cmd out s = answer (out_nil out) s2"
      using e AStr s1 s2(1) by (simp add: do_set_def rep_lookup [OF r])
    then show ?thesis using answer_served [OF out_nil_writes [OF out] s2(2)] Some AStr by simp
  next
    case (ASet m)
    then have "do_set now cmd out s = answer (out_err out ERR_BAD_TYPE (ascii ''set: wrong data type, expected KV-pair'')) s"
      using e by (auto simp: do_set_def rep_lookup [OF r])
    then show ?thesis using answer_served [OF out_err_writes [OF out] r] Some ASet by simp
  qed
qed

lemma do_del_ok:
  assumes r: "rep s loc d" and out: "holds out xs"
  shows "served (do_del now cmd out s) xs (spec stod now (CDel (cmd ! 1)) d)"
proof (cases "loc (cmd ! 1)")
  case None
  obtain m where m: "HMap_erase (g_data s) (str_hash (cmd ! 1)) (key_eq s (cmd ! 1)) = Some (None, m)"
    "rep (s\<lparr>g_data := m\<rparr>) loc d" by (rule erase_absent [OF r None])
  then have "do_del now cmd out s =
      answer (out_err out ERR_NOT_FOUND (ascii ''del: given key does not exist'')) (s\<lparr>g_data := m\<rparr>)"
    by (simp add: do_del_def)
  then show ?thesis using answer_served [OF out_err_writes [OF out] m(2)] None rep_dom [OF r] by simp
next
  case (Some a)
  obtain m where m: "HMap_erase (g_data s) (str_hash (cmd ! 1)) (key_eq s (cmd ! 1)) = Some (Some (loc_node loc (cmd ! 1)), m)"
    "hmap_ok m" "hmap_nodes m = image_mset (loc_node loc) (mset_set (dom loc - {cmd ! 1}))"
    by (rule erase_present [OF r Some])
  obtain s' where s': "entry_del now a (s\<lparr>g_data := m\<rparr>) = Some s'" "rep s' (loc(cmd ! 1 := None)) (drop_key (cmd ! 1) d)"
    by (rule entry_del_ok [OF r Some m(2,3)])
  have "do_del now cmd out s = answer (out_int out 1) s'"
    using m(1) s'(1) Some by (simp add: do_del_def loc_node_def)
  then show ?thesis using answer_served [OF out_int_writes [OF out] s'(2)] Some rep_dom [OF r, of "cmd ! 1"] by auto
qed

lemma do_expire_ok:
  assumes r: "rep s loc d" and out: "holds out xs" and room: "card (dom (dval d)) < no_idx"
  shows "served (do_expire now cmd out s) xs (spec stod now (CExpire (cmd ! 1) (cmd ! 2)) d)"
proof (cases "loc (cmd ! 1)")
  case None
  then have "do_expire now cmd out s = answer (out_err out ERR_NOT_FOUND (ascii ''expire'')) s"
    by (simp add: do_expire_def rep_lookup [OF r])
  then show ?thesis using answer_served [OF out_err_writes [OF out] r] None rep_dom [OF r] by simp
next
  case (Some a)
  then have some: "dval d (cmd ! 1) \<noteq> None" using rep_dom [OF r] by simp
  show ?thesis
  proof (cases "caught (stoi (cmd ! 2))")
    case (Inl p)
    obtain err what where p: "p = (err, what)" by fastforce
    have "do_expire now cmd out s = answer (out_err out err what) s"
      using Some Inl by (simp add: do_expire_def rep_lookup [OF r] p)
    then show ?thesis using answer_served [OF out_err_writes [OF out] r] some Inl p
      by (simp del: not_None_eq)
  next
    case (Inr t)
    obtain s' where s': "set_ttl now a t s = Some s'" "rep s' loc (set_due now (cmd ! 1) t d)"
      by (rule set_ttl_ok [OF r Some, of t now]) (use rep_room [OF r room] in simp_all)
    have "do_expire now cmd out s = answer (out_nil out) s'"
      using Some Inr s'(1) by (simp add: do_expire_def rep_lookup [OF r])
    then show ?thesis using answer_served [OF out_nil_writes [OF out] s'(2)] some Inr
      by (simp del: not_None_eq)
  qed
qed

lemma do_ttl_ok:
  assumes r: "rep s loc d" and out: "holds out xs" and due: "dval d (cmd ! 1) = None \<or> ddue d (cmd ! 1) \<noteq> None"
  shows "served (do_ttl cmd out s) xs (spec stod now (CTtl (cmd ! 1)) d)"
proof (cases "loc (cmd ! 1)")
  case None
  then have "do_ttl cmd out s = answer (out_err out ERR_NOT_FOUND (ascii ''ttl'')) s"
    by (simp add: do_ttl_def rep_lookup [OF r])
  then show ?thesis using answer_served [OF out_err_writes [OF out] r] None rep_dom [OF r] by simp
next
  case (Some a)
  then have some: "dval d (cmd ! 1) \<noteq> None" using rep_dom [OF r] by simp
  obtain h cs where t: "ttl s = (h, cs)" by fastforce
  obtain v where v: "ddue d (cmd ! 1) = Some v" using due some by blast
  then have "timer_due (h, cs) a = Some v" using rep_due [OF r Some] t by simp
  then have "cs a < length h" "val (h ! cs a) = v" by (auto simp: timer_due_def split: if_splits)
  then have "do_ttl cmd out s = answer (out_int out v) s"
    using Some t by (simp add: do_ttl_def rep_lookup [OF r])
  then show ?thesis using answer_served [OF out_int_writes [OF out] r] some v by (simp del: not_None_eq)
qed

text \<open>Commands on sets.\<close>

lemma with_zset_ok:
  assumes r: "rep s loc d" and out: "holds out xs"
    and run: "\<And>a e z m. loc k = Some a \<Longrightarrow> entries s a = Some e \<Longrightarrow> ekey e = k \<Longrightarrow> eval e = SetV z \<Longrightarrow>
      etype e = E_SET \<Longrightarrow> zset_is z (card (dom m)) m \<Longrightarrow> dval d k = Some (ASet m) \<Longrightarrow> served (run a z) xs (P m)"
  shows "served (with_zset k what out s run) xs (on_set k what d P)"
proof (cases "dval d k")
  case None
  then have "with_zset k what out s run = answer (out_err out ERR_NOT_FOUND (ascii what)) s"
    using rep_dom [OF r, of k] by (simp add: with_zset_def rep_lookup [OF r])
  then show ?thesis using answer_served [OF out_err_writes [OF out] r] None by (simp add: on_set_def)
next
  case (Some v)
  obtain a e where e: "loc k = Some a" "entries s a = Some e" "ekey e = k" "val_rep e v"
    by (rule rep_entry [OF r Some])
  show ?thesis
  proof (cases v)
    case (AStr w)
    then have "with_zset k what out s run = answer (out_err out ERR_BAD_TYPE (ascii what)) s"
      using e by (simp add: with_zset_def rep_lookup [OF r])
    then show ?thesis using answer_served [OF out_err_writes [OF out] r] Some AStr by (simp add: on_set_def)
  next
    case (ASet m)
    then obtain z where z: "eval e = SetV z" "etype e = E_SET" "zset_is z (card (dom m)) m" using e(4) by auto
    then have "with_zset k what out s run = run a z"
      using e by (simp add: with_zset_def rep_lookup [OF r] get_zset_def)
    then show ?thesis using run [OF e(1,2,3) z] Some ASet by (simp add: on_set_def [abs_def])
  qed
qed

lemma do_zrem_ok:
  assumes r: "rep s loc d" and out: "holds out xs"
  shows "served (do_zrem cmd out s) xs (spec stod now (CZrem (cmd ! 1) (cmd ! 2)) d)"
  unfolding do_zrem_def spec.simps
proof (rule with_zset_ok [OF r out])
  fix a e z m assume e: "loc (cmd ! 1) = Some a" "entries s a = Some e" "ekey e = cmd ! 1" "eval e = SetV z"
    "etype e = E_SET" "zset_is z (card (dom m)) m" "dval d (cmd ! 1) = Some (ASet m)"
  obtain z' k' where z': "ZSet_rem z (cmd ! 2) = Some (m (cmd ! 2) \<noteq> None, z')" "zset_is z' k' (m(cmd ! 2 := None))"
    using zs.rem_law [OF e(6)] by blast
  then have "val_rep (e\<lparr>eval := SetV z'\<rparr>) (ASet (m(cmd ! 2 := None)))"
    using zset_is_card(1) [OF z'(2)] e(5) by simp
  then obtain s' where s': "set_val a (SetV z') s = Some s'" "rep s' loc (put (cmd ! 1) (ASet (m(cmd ! 2 := None))) d)"
    by (rule set_val_ok [OF r e(1,2)])
  have "do { (_, z) \<leftarrow> ZSet_rem z (cmd ! 2); s \<leftarrow> set_val a (SetV z) s; answer (out_int out 1) s } = answer (out_int out 1) s'"
    using z'(1) s'(1) by simp
  then show "served (do { (_, z) \<leftarrow> ZSet_rem z (cmd ! 2); s \<leftarrow> set_val a (SetV z) s; answer (out_int out 1) s }) xs
      (\<lambda>rp d'. rp = RInt 1 \<and> d' = put (cmd ! 1) (ASet (m(cmd ! 2 := None))) d)"
    using answer_served [OF out_int_writes [OF out] s'(2)] by simp
qed

lemma do_zadd_ok:
  assumes r: "rep s loc d" and out: "holds out xs" and room: "card (dom (dval d)) < no_idx"
    and num: "\<forall>x. stod (cmd ! 2) = Parsed x \<longrightarrow> \<not> dbl_nan x"
    and small: "\<forall>m. dval d (cmd ! 1) = Some (ASet m) \<longrightarrow> small (Suc (card (dom m)))"
  shows "served (do_zadd stod now cmd out s) xs (spec stod now (CZadd (cmd ! 1) (cmd ! 2) (cmd ! 3)) d)"
proof (cases "caught (stod (cmd ! 2))")
  case (Inl p)
  obtain err what where p: "p = (err, what)" by fastforce
  have "do_zadd stod now cmd out s = answer (out_err out err what) s"
    using Inl by (simp add: do_zadd_def rep_lookup [OF r] p)
  then show ?thesis using answer_served [OF out_err_writes [OF out] r] Inl p by simp
next
  case (Inr x)
  then have x: "\<not> dbl_nan x" using num by (cases "stod (cmd ! 2)") auto
  show ?thesis
  proof (cases "dval d (cmd ! 1)")
    case None
    let ?w = "ASet Map.empty :: aval" and ?l = "loc(cmd ! 1 \<mapsto> next_entry s)"
    have v: "val_rep \<lparr>ekey = cmd ! 1, etype = E_SET, eval = SetV ZSet_empty\<rparr> ?w"
      using zset_is_empty by simp
    obtain m s1 where n: "Entry_new (cmd ! 1) E_SET (SetV ZSet_empty) s = (\<lparr>hcode = str_hash (cmd ! 1), item = next_entry s\<rparr>, s1)"
      "HMap_insert (g_data s1) \<lparr>hcode = str_hash (cmd ! 1), item = next_entry s\<rparr> = Some m"
      "rep (s1\<lparr>g_data := m\<rparr>) ?l (put (cmd ! 1) ?w d)"
      "entries s1 (next_entry s) = Some \<lparr>ekey = cmd ! 1, etype = E_SET, eval = SetV ZSet_empty\<rparr>" "ttl s1 = ttl s"
      by (rule new_entry_ok [OF r None v])
    obtain s2 where s2: "set_ttl now (next_entry s) DEFAULT_TTL_MS (s1\<lparr>g_data := m\<rparr>) = Some s2"
      "rep s2 ?l (touch now (cmd ! 1) (put (cmd ! 1) ?w d))" "s2 = s1\<lparr>g_data := m, ttl := ttl s2\<rparr>"
      by (rule set_ttl_ok [OF n(3), of "cmd ! 1" "next_entry s" DEFAULT_TTL_MS now])
        (use rep_room [OF r room] n(5) in \<open>simp_all add: touch_def\<close>)
    have early: "set_ttl now (next_entry s) DEFAULT_TTL_MS s1 = Some (s1\<lparr>ttl := ttl s2\<rparr>)"
      using s2(1,3) by (auto simp: set_ttl_def bind_simps)
    obtain z' k' where z': "ZSet_insert ZSet_empty (cmd ! 3) x = Some (True, z')" "zset_is z' k' [cmd ! 3 \<mapsto> x]"
      using zs.ins_law [OF zset_is_empty x, of "cmd ! 3"] by auto
    have e: "entries s2 (next_entry s) = Some \<lparr>ekey = cmd ! 1, etype = E_SET, eval = SetV ZSet_empty\<rparr>"
      using n(4) s2(3) by (metis server.select_convs(2) server.surjective server.update_convs(1) server.update_convs(3))
    have at: "?l (cmd ! 1) = Some (next_entry s)" by simp
    have "val_rep (\<lparr>ekey = cmd ! 1, etype = E_SET, eval = SetV ZSet_empty\<rparr>\<lparr>eval := SetV z'\<rparr>) (ASet [cmd ! 3 \<mapsto> x])"
      using zset_is_card(1) [OF z'(2)] z'(2) by simp
    then obtain s3 where s3: "set_val (next_entry s) (SetV z') s2 = Some s3"
      "rep s3 ?l (put (cmd ! 1) (ASet [cmd ! 3 \<mapsto> x]) (touch now (cmd ! 1) (put (cmd ! 1) ?w d)))"
      by (rule set_val_ok [OF s2(2) at e])
    have "put (cmd ! 1) (ASet [cmd ! 3 \<mapsto> x]) (touch now (cmd ! 1) (put (cmd ! 1) ?w d)) =
        touch now (cmd ! 1) (put (cmd ! 1) (ASet [cmd ! 3 \<mapsto> x]) d)"
      by (simp add: put_def touch_def set_due_def)
    moreover have "s1\<lparr>ttl := ttl s2, g_data := m\<rparr> = s2" by (subst (2) s2(3)) simp
    then have "do_zadd stod now cmd out s = answer (out_nil out) s3"
      using None rep_dom [OF r, of "cmd ! 1"] n(1,2,4) early z'(1) s3(1) Inr
      by (simp add: do_zadd_def rep_lookup [OF r] EntryS_def get_zset_def)
    ultimately show ?thesis using answer_served [OF out_nil_writes [OF out] s3(2)] None Inr by simp
  next
    case (Some v)
    obtain a e where e: "loc (cmd ! 1) = Some a" "entries s a = Some e" "ekey e = cmd ! 1" "val_rep e v"
      by (rule rep_entry [OF r Some])
    show ?thesis
    proof (cases v)
      case (AStr w)
      then have "do_zadd stod now cmd out s = answer (out_err out ERR_BAD_TYPE (ascii ''zadd: expexcted set Entry'')) s"
        using e Inr by (simp add: do_zadd_def rep_lookup [OF r])
      then show ?thesis using answer_served [OF out_err_writes [OF out] r] Some AStr Inr by simp
    next
      case (ASet m)
      then obtain z where z: "eval e = SetV z" "etype e = E_SET" "zset_is z (card (dom m)) m" using e(4) by auto
      obtain z' k' where z': "ZSet_insert z (cmd ! 3) x = Some (m (cmd ! 3) = None, z')" "zset_is z' k' (m(cmd ! 3 \<mapsto> x))"
        using zs.ins_law [OF z(3) x] small Some ASet by blast
      have v': "val_rep (e\<lparr>eval := SetV z'\<rparr>) (ASet (m(cmd ! 3 \<mapsto> x)))"
        using zset_is_card(1) [OF z'(2)] z'(2) z(2) by simp
      obtain s1 s2 where s1: "set_val a (SetV z') s = Some s1"
        and s2: "set_ttl now a DEFAULT_TTL_MS s1 = Some s2"
          "rep s2 loc (touch now (cmd ! 1) (put (cmd ! 1) (ASet (m(cmd ! 3 \<mapsto> x))) d))"
        by (rule set_val_touch [OF r e(1,2) v' rep_room [OF r room], of now])
      have "do_zadd stod now cmd out s = answer (out_nil out) s2"
        using e z z'(1) s1 s2(1) Inr by (simp add: do_zadd_def rep_lookup [OF r] get_zset_def)
      then show ?thesis using answer_served [OF out_nil_writes [OF out] s2(2)] Some ASet Inr by simp
    qed
  qed
qed

subsection \<open>Ranges\<close>

lemma zkey_of_sel [simp]: "zname (zkey_of (s, n)) = n" "zscore (zkey_of (s, n)) = dbl_key s"
  by (simp_all add: zkey_of_def)

lemma member_at:
  assumes "zset_ok z xs" "a \<in> set xs"
  shows "info z a = Some (score_at z a, name_at z a)" "score_map z xs (name_at z a) = Some (score_at z a)"
    "key_at z a = member_key (score_map z xs) (name_at z a)" "zname (key_at z a) = name_at z a"
proof -
  show i: "info z a = Some (score_at z a, name_at z a)"
    by (rule numbered_info [OF zset_ok_numbered [OF assms(1)] assms(2)])
  show m: "score_map z xs (name_at z a) = Some (score_at z a)" using score_map_iff [OF assms(1)] assms(2) by auto
  show "key_at z a = member_key (score_map z xs) (name_at z a)" using i by (simp add: key_at_def member_key_def m)
  show "zname (key_at z a) = name_at z a" using i by (simp add: key_at_def)
qed

lemma ranked_keys:
  assumes "zset_ok z xs"
  shows "map (key_at z) xs = ranked (score_map z xs)"
proof -
  have "dom (score_map z xs) = name_at z ` set xs"
    by (rule set_eqI) (simp add: domIff score_map_None)
  then have "set (map (key_at z) xs) = member_key (score_map z xs) ` dom (score_map z xs)"
    using member_at(3) [OF assms] by (auto simp: image_image)
  moreover have "sorted_wrt (<) (map (key_at z) xs)" by (rule zset_sorted [OF assms])
  ultimately show ?thesis
    unfolding ranked_def by (metis sorted_list_of_set.idem_if_sorted_distinct strict_sorted_iff)
qed

lemma range_keys:
  assumes "zset_ok z xs"
  shows "map (key_at z) (let j = count_below z xs b; i = int j + k in
      if j < length xs \<and> 0 \<le> i then take l (drop (nat i) xs) else []) = range_ge (score_map z xs) b k l"
    "map (key_at z) (let j = count_upto z xs b; i = int j + k in
      if 0 < j \<and> i \<le> int (length xs) then take l (rev (take (nat i) xs)) else []) = range_le (score_map z xs) b k l"
  by (simp_all add: range_ge_def range_le_def ranked_keys [OF assms, symmetric] count_below_def count_upto_def
      Let_def filter_map comp_def take_map drop_map rev_map)

definition member_bytes :: "zset \<Rightarrow> addr \<Rightarrow> bytes" where
  "member_bytes z a = encode (RStr (name_at z a)) @ encode (RDbl (score_at z a))"

lemma encode_members:
  assumes "zset_ok z xs" "set as \<subseteq> set xs"
  shows "encode (members (score_map z xs) (map (key_at z) as)) =
    TAG_ARR # enc_u32 (2 * length as) @ concat (map (member_bytes z) as)"
proof -
  have "concat (map encode (concat (map (member_reply (score_map z xs)) (map (key_at z) as)))) =
      concat (map (member_bytes z) as)"
    using assms(2)
  proof (induction as)
    case (Cons a as)
    then show ?case using member_at [OF assms(1), of a] by (simp add: member_reply_def member_bytes_def)
  qed simp
  moreover have "length (concat (map (member_reply (score_map z xs)) (map (key_at z) as))) = 2 * length as"
    by (induction as) (simp_all add: member_reply_def)
  ultimately show ?thesis by (simp add: members_def)
qed

lemma ucast_of_nat: "LENGTH('b) \<le> LENGTH('a) \<Longrightarrow> ucast (of_nat n :: 'a::len word) = (of_nat n :: 'b::len word)"
  by (rule bit_word_eqI) (simp add: bit_simps)

lemma ucast_of_nat_up: "n < 2 ^ LENGTH('a) \<Longrightarrow> ucast (of_nat n :: 'a::len word) = (of_nat n :: 'b::len word)"
  by (simp add: unsigned_of_nat take_bit_nat_eq_self)

lemma half_of_nat:
  assumes "2 * i < 2 ^ LENGTH('n)" "2 \<le> LENGTH('n)"
  shows "uint ((of_nat (2 * i) :: 'n::len word) div 2) = int i"
proof -
  have "2 < (2 :: nat) ^ LENGTH('n)" using power_increasing [of 2 "LENGTH('n)" "2 :: nat"] assms(2) by simp
  then have "unat (2 :: 'n word) = 2" using unat_of_nat_small [of 2, where 'a = 'n] by simp
  moreover have "unat (of_nat (2 * i) :: 'n word) = 2 * i" by (rule unat_of_nat_small [OF assms(1)])
  ultimately have "unat ((of_nat (2 * i) :: 'n word) div 2) = i" by (simp add: unat_div_distrib)
  then show ?thesis by (simp only: uint_nat)
qed

lemma range_loop_ok:
  assumes "enumerate_by (AVLNode_offset (tree z)) dir l cur = Some as" "l = nat (sint limit) - i"
    "\<forall>a \<in> set as. info z a = Some (score_at z a, name_at z a)"
    "2 * (i + length as) < 2 ^ LENGTH('n)" "2 \<le> LENGTH('n)" "length (concat (map (member_bytes z) as)) < 2 ^ 32"
    "holds out ys"
  shows "\<exists>out'. range_loop z dir limit cur (of_nat (2 * i) :: 'n::len word) b out =
      Some (of_nat (2 * (i + length as)), b + of_nat (length (concat (map (member_bytes z) as))), out') \<and>
    holds out' (ys @ concat (map (member_bytes z) as))"
  using assms
proof (induction l arbitrary: cur as i b out ys)
  case 0
  have "\<not> uint ((of_nat (2 * i) :: 'n word) div 2) < sint limit"
    using half_of_nat [of i, where 'n = 'n] 0 by simp
  then have "range_loop z dir limit cur (of_nat (2 * i) :: 'n word) b out = Some (of_nat (2 * i), b, out)"
    unfolding range_loop.simps [of z dir limit cur] by (simp only: if_False option.case_eq_if) simp
  then show ?case using 0 by simp
next
  case (Suc l)
  show ?case
  proof (cases cur)
    case None
    then have "range_loop z dir limit cur (of_nat (2 * i) :: 'n word) b out = Some (of_nat (2 * i), b, out)"
      unfolding range_loop.simps [of z dir limit cur] by simp
    moreover have "as = []" using Suc.prems(1) None by simp
    ultimately show ?thesis using Suc.prems(7) None by simp
  next
    case (Some a)
    obtain nxt as' where as: "AVLNode_offset (tree z) a dir = Some nxt" "as = a # as'"
      "enumerate_by (AVLNode_offset (tree z)) dir l nxt = Some as'"
      using Suc.prems(1) Some by (auto simp: bind_simps)
    have i: "info z a = Some (score_at z a, name_at z a)" using Suc.prems(3) as(2) by simp
    have test: "uint ((of_nat (2 * i) :: 'n word) div 2) < sint limit"
      using half_of_nat [of i, where 'n = 'n] Suc.prems by simp
    have len: "length (encode (RStr (name_at z a))) < 2 ^ 32" "length (encode (RDbl (score_at z a))) < 2 ^ 32"
      using Suc.prems(6) as(2) by (simp_all add: member_bytes_def)
    obtain o1 where o1: "out_str out (name_at z a) = Some (o1, of_nat (length (encode (RStr (name_at z a)))))"
      "holds o1 (ys @ encode (RStr (name_at z a)))"
      using out_str_writes [OF Suc.prems(7)] by (auto simp: writes_def)
    obtain o2 where o2: "out_dbl o1 (score_at z a) = Some (o2, of_nat (length (encode (RDbl (score_at z a)))))"
      "holds o2 ((ys @ encode (RStr (name_at z a))) @ encode (RDbl (score_at z a)))"
      using out_dbl_writes [OF o1(2)] by (auto simp: writes_def)
    have w: "ucast (of_nat (length (encode (RStr (name_at z a)))) :: u32) = (of_nat (length (encode (RStr (name_at z a)))) :: u64)"
      "ucast (of_nat (length (encode (RDbl (score_at z a)))) :: u32) = (of_nat (length (encode (RDbl (score_at z a)))) :: u64)"
      using len by (intro ucast_of_nat_up, simp)+
    have "range_loop z dir limit cur (of_nat (2 * i) :: 'n word) b out =
        range_loop z dir limit nxt (of_nat (2 * Suc i)) (b + of_nat (length (member_bytes z a))) o2"
      unfolding range_loop.simps [of z dir limit cur]
      by (simp only: Some option.case test if_True i o1(1) o2(1) w Option.bind.bind_lunit prod.case Let_def
            ZNode_offset_def as(1)) (simp add: member_bytes_def ac_simps)
    moreover have "\<exists>out'. range_loop z dir limit nxt (of_nat (2 * Suc i) :: 'n word) (b + of_nat (length (member_bytes z a))) o2 =
        Some (of_nat (2 * (Suc i + length as')), b + of_nat (length (member_bytes z a)) +
          of_nat (length (concat (map (member_bytes z) as'))), out') \<and>
        holds out' ((ys @ member_bytes z a) @ concat (map (member_bytes z) as'))"
      by (rule Suc.IH [OF as(3)]) (use Suc.prems as(2) o2(2) in \<open>auto simp: member_bytes_def\<close>)
    ultimately show ?thesis using as(2) by (simp add: add.assoc)
  qed
qed


text \<open>The reply of a range command, whatever the width of its counter.\<close>

lemma range_reply_ok:
  assumes ok: "zset_ok z xs" "set as \<subseteq> set xs"
    and enum: "enumerate_by (AVLNode_offset (tree z)) dir (nat (sint limit)) cur = Some as"
    and len: "length (encode (members (score_map z xs) (map (key_at z) as))) < 2 ^ 32"
    and width: "32 \<le> LENGTH('n)" and out: "holds out ys"
  shows "\<exists>out'. do {
      (out, ctx) \<leftarrow> out_begin_arr out;
      (n, b, out) \<leftarrow> range_loop z dir limit cur (0 :: 'n::len word) 0 out;
      (out, k) \<leftarrow> out_end_arr out (ucast (ucast ctx + b)) (ucast n);
      Some ((out, ucast (b + ucast k) :: u32), s) } =
    Some ((out', of_nat (length (encode (members (score_map z xs) (map (key_at z) as))))), s) \<and>
    holds out' (ys @ encode (members (score_map z xs) (map (key_at z) as)))"
proof -
  let ?body = "concat (map (member_bytes z) as)"
  note enc = encode_members [OF ok]
  have body: "length ?body + 5 < 2 ^ 32" using len unfolding enc by simp
  have "14 * length as \<le> length ?body"
    by (induction as) (simp_all add: member_bytes_def)
  then have "2 * length as < 2 ^ 32" using body by linarith
  moreover have "(2 :: nat) ^ 32 \<le> 2 ^ LENGTH('n)" using width by (rule power_increasing) simp
  ultimately have n: "2 * (0 + length as) < 2 ^ LENGTH('n)" unfolding add_0 by (rule order.strict_trans2)
  obtain o1 where o1: "out_begin_arr out = Some (o1, 4)" "holds o1 (ys @ TAG_ARR # enc_u32 0)"
    by (rule out_begin_arr_holds [OF out])
  have info: "\<forall>a \<in> set as. info z a = Some (score_at z a, name_at z a)" using member_at(1) [OF ok(1)] ok(2) by blast
  obtain o2 where o2: "range_loop z dir limit cur (of_nat (2 * 0) :: 'n word) 0 o1 =
      Some (of_nat (2 * (0 + length as)), 0 + of_nat (length ?body), o2)"
    "holds o2 ((ys @ TAG_ARR # enc_u32 0) @ ?body)"
    using range_loop_ok [OF enum _ info n _ _ o1(2), of limit 0] width body by auto
  have h: "holds o2 (ys @ TAG_ARR # enc_u32 0 @ ?body)" "length ?body + 4 < 2 ^ 32"
    using o2(2) body by simp_all
  obtain o3 where o3: "out_end_arr o2 (of_nat (4 + length ?body)) (of_nat (2 * length as)) = Some (o3, 5)"
    "holds o3 (ys @ TAG_ARR # enc_u32 (2 * length as) @ ?body)"
    by (rule out_end_arr_holds [OF h, of "2 * length as"])
  have "ucast (4 :: u32) + (of_nat (length ?body) :: u64) = of_nat (4 + length ?body)"
    "(of_nat (length ?body) :: u64) + ucast (5 :: u32) = of_nat (5 + length ?body)" by simp_all
  then have w: "ucast (ucast (4 :: u32) + (of_nat (length ?body) :: u64)) = (of_nat (4 + length ?body) :: u32)"
    "ucast ((of_nat (length ?body) :: u64) + ucast (5 :: u32)) = (of_nat (5 + length ?body) :: u32)"
    by (simp_all only:) (rule ucast_of_nat, simp)+
  have c: "ucast (of_nat (2 * length as) :: 'n word) = (of_nat (2 * length as) :: u32)"
    by (rule ucast_of_nat) (use width in simp)
  have "do {
      (out, ctx) \<leftarrow> out_begin_arr out;
      (n, b, out) \<leftarrow> range_loop z dir limit cur (0 :: 'n::len word) 0 out;
      (out, k) \<leftarrow> out_end_arr out (ucast (ucast ctx + b)) (ucast n);
      Some ((out, ucast (b + ucast k) :: u32), s) } = Some ((o3, of_nat (5 + length ?body)), s)"
    using o1(1) o2(1) o3(1) w c by simp
  then show ?thesis using o3(2) unfolding enc by simp
qed


lemma range_args_spec:
  "range_args stod cmd = Inl (err, what) \<Longrightarrow>
    range_spec stod sel (cmd ! 2) (cmd ! 3) (cmd ! 4) (cmd ! 5) m = RErr err what"
  "range_args stod cmd = Inr (x, name, i, l) \<Longrightarrow>
    name = cmd ! 3 \<and> stod (cmd ! 2) = Parsed x \<and> range_spec stod sel (cmd ! 2) (cmd ! 3) (cmd ! 4) (cmd ! 5) m =
      members m (sel m (zkey_of (x, name)) (sint i) (nat (sint l)))"
  by (cases "stod (cmd ! 2)"; cases "stol (cmd ! 4)"; cases "stol (cmd ! 5)";
      simp add: range_args_def range_spec_def; fail)+

lemma range_served:
  assumes ok: "zset_ok z xs" "set as \<subseteq> set xs"
    and enum: "enumerate_by (AVLNode_offset (tree z)) dir (nat (sint limit)) cur = Some as"
    and len: "length (encode (members (score_map z xs) (map (key_at z) as))) < 2 ^ 32"
    and width: "32 \<le> LENGTH('n)" and out: "holds out ys" and r: "rep s loc d"
    and P: "P (members (score_map z xs) (map (key_at z) as)) d"
  shows "served (do {
      (out, ctx) \<leftarrow> out_begin_arr out;
      (n, b, out) \<leftarrow> range_loop z dir limit cur (0 :: 'n::len word) 0 out;
      (out, k) \<leftarrow> out_end_arr out (ucast (ucast ctx + b)) (ucast n);
      Some ((out, ucast (b + ucast k)), s) }) ys P"
  using range_reply_ok [OF ok enum len width out, of s] r P unfolding served_def by blast

lemma do_zqueryge_ok:
  assumes r: "rep s loc d" and out: "holds out xs"
    and num: "\<forall>x. stod (cmd ! 2) = Parsed x \<longrightarrow> \<not> dbl_nan x"
    and len: "\<forall>m. dval d (cmd ! 1) = Some (ASet m) \<longrightarrow>
      length (encode (range_spec stod range_ge (cmd ! 2) (cmd ! 3) (cmd ! 4) (cmd ! 5) m)) < 2 ^ 32"
  shows "served (do_zqueryge stod cmd out s) xs (spec stod now (CZge (cmd ! 1) (cmd ! 2) (cmd ! 3) (cmd ! 4) (cmd ! 5)) d)"
  unfolding do_zqueryge_def spec.simps
proof (rule with_zset_ok [OF r out])
  fix a e z m assume m: "zset_is z (card (dom m)) m" "dval d (cmd ! 1) = Some (ASet m)"
  obtain ys where ys: "zset_ok z ys" "score_map z ys = m" using m(1) by (auto simp: zset_is_def)
  show "served (case range_args stod cmd of
        Inl (err, what) \<Rightarrow> answer (out_err out err what) s
      | Inr (score, name, offset, limit) \<Rightarrow> do {
          znode \<leftarrow> ZSet_seekge z score name;
          znode \<leftarrow> ZNode_offset z znode (sint offset);
          (out, ctx) \<leftarrow> out_begin_arr out;
          (n, b_written, out) \<leftarrow> range_loop z 1 limit znode (0 :: u32) 0 out;
          (out, k) \<leftarrow> out_end_arr out (ucast (ucast ctx + b_written)) n;
          Some ((out, ucast (b_written + ucast k)), s)
        }) xs (\<lambda>rp d'. rp = range_spec stod range_ge (cmd ! 2) (cmd ! 3) (cmd ! 4) (cmd ! 5) m \<and> d' = d)"
  proof (cases "range_args stod cmd")
    case (Inl p)
    then show ?thesis
      using answer_served [OF out_err_writes [OF out] r] range_args_spec(1) by (cases p) simp
  next
    case (Inr p)
    then obtain x name i l where args: "range_args stod cmd = Inr (x, name, i, l)" by (metis prod_cases4)
    note sp = range_args_spec(2) [OF args, of range_ge m]
    define as where "as = (let j = count_below z ys (zkey_of (x, name)); i = int j + sint i in
        if j < length ys \<and> 0 \<le> i then take (nat (sint l)) (drop (nat i) ys) else [])"
    have walk: "do { cur \<leftarrow> ZSet_seekge z x name; cur \<leftarrow> ZNode_offset z cur (sint i);
        enumerate_by (AVLNode_offset (tree z)) 1 (nat (sint l)) cur } = Some as"
      unfolding as_def by (rule ZSet_range_ge [OF ys(1)]) (use num sp in blast)
    then obtain c cur where cur: "ZSet_seekge z x name = Some c" "ZNode_offset z c (sint i) = Some cur"
      "enumerate_by (AVLNode_offset (tree z)) 1 (nat (sint l)) cur = Some as" by (auto simp: bind_simps)
    have sub: "set as \<subseteq> set ys"
      unfolding as_def Let_def using set_take_subset set_drop_subset by (auto split: if_splits) fast
    have keys: "members (score_map z ys) (map (key_at z) as) =
        range_spec stod range_ge (cmd ! 2) (cmd ! 3) (cmd ! 4) (cmd ! 5) m"
      using sp range_keys(1) [OF ys(1)] ys(2) unfolding as_def by simp
    have "length (encode (members (score_map z ys) (map (key_at z) as))) < 2 ^ 32" using len m(2) keys by simp
    note served = range_served [OF ys(1) sub cur(3) this _ out r, where 'n = 32, simplified]
    show ?thesis unfolding args by (simp add: cur(1,2)) (rule served, simp add: keys)
  qed
qed


lemma do_zqueryle_ok:
  assumes r: "rep s loc d" and out: "holds out xs"
    and num: "\<forall>x. stod (cmd ! 2) = Parsed x \<longrightarrow> \<not> dbl_nan x"
    and len: "\<forall>m. dval d (cmd ! 1) = Some (ASet m) \<longrightarrow>
      length (encode (range_spec stod range_le (cmd ! 2) (cmd ! 3) (cmd ! 4) (cmd ! 5) m)) < 2 ^ 32"
  shows "served (do_zqueryle stod cmd out s) xs (spec stod now (CZle (cmd ! 1) (cmd ! 2) (cmd ! 3) (cmd ! 4) (cmd ! 5)) d)"
  unfolding do_zqueryle_def spec.simps
proof (rule with_zset_ok [OF r out])
  fix a e z m assume m: "zset_is z (card (dom m)) m" "dval d (cmd ! 1) = Some (ASet m)"
  obtain ys where ys: "zset_ok z ys" "score_map z ys = m" using m(1) by (auto simp: zset_is_def)
  show "served (case range_args stod cmd of
        Inl (err, what) \<Rightarrow> answer (out_err out err what) s
      | Inr (score, name, offset, limit) \<Rightarrow> do {
          znode \<leftarrow> ZSet_seekle z score name;
          znode \<leftarrow> ZNode_offset z znode (sint offset);
          (out, ctx) \<leftarrow> out_begin_arr out;
          (n, b_written, out) \<leftarrow> range_loop z (- 1) limit znode (0 :: u64) 0 out;
          (out, k) \<leftarrow> out_end_arr out (ucast (ucast ctx + b_written)) (ucast n);
          Some ((out, ucast (b_written + ucast k)), s)
        }) xs (\<lambda>rp d'. rp = range_spec stod range_le (cmd ! 2) (cmd ! 3) (cmd ! 4) (cmd ! 5) m \<and> d' = d)"
  proof (cases "range_args stod cmd")
    case (Inl p)
    then show ?thesis
      using answer_served [OF out_err_writes [OF out] r] range_args_spec(1) by (cases p) simp
  next
    case (Inr p)
    then obtain x name i l where args: "range_args stod cmd = Inr (x, name, i, l)" by (metis prod_cases4)
    note sp = range_args_spec(2) [OF args, of range_le m]
    define as where "as = (let j = count_upto z ys (zkey_of (x, name)); i = int j + sint i in
        if 0 < j \<and> i \<le> int (length ys) then take (nat (sint l)) (rev (take (nat i) ys)) else [])"
    have walk: "do { cur \<leftarrow> ZSet_seekle z x name; cur \<leftarrow> ZNode_offset z cur (sint i);
        enumerate_by (AVLNode_offset (tree z)) (- 1) (nat (sint l)) cur } = Some as"
      unfolding as_def by (rule ZSet_range_le [OF ys(1)]) (use num sp in blast)
    then obtain c cur where cur: "ZSet_seekle z x name = Some c" "ZNode_offset z c (sint i) = Some cur"
      "enumerate_by (AVLNode_offset (tree z)) (- 1) (nat (sint l)) cur = Some as" by (auto simp: bind_simps)
    have "set (take k (rev us)) \<subseteq> set us" for k and us :: "addr list" using set_take_subset by fastforce
    then have sub: "set as \<subseteq> set ys"
      unfolding as_def Let_def using set_take_subset by (auto split: if_splits) fast
    have keys: "members (score_map z ys) (map (key_at z) as) =
        range_spec stod range_le (cmd ! 2) (cmd ! 3) (cmd ! 4) (cmd ! 5) m"
      using sp range_keys(2) [OF ys(1)] ys(2) unfolding as_def by simp
    have "length (encode (members (score_map z ys) (map (key_at z) as))) < 2 ^ 32" using len m(2) keys by simp
    note served = range_served [OF ys(1) sub cur(3) this _ out r, where 'n = 64, simplified]
    show ?thesis unfolding args by (simp add: cur(1,2)) (rule served, simp add: keys)
  qed
qed

text \<open>Counting: the walk stops at the first score above the bound.\<close>

lemma zcount_loop_ok:
  assumes "zset_ok z xs"
  shows "j \<le> length xs \<Longrightarrow> zcount_loop z hi (if j < length xs then Some (xs ! j) else None) k =
    Some (k + of_nat (length (takeWhile (\<lambda>a. dbl_le (score_at z a) hi) (drop j xs))))"
proof (induction "length xs - j" arbitrary: j k)
  case 0
  then show ?case by (simp add: zcount_loop.simps)
next
  case (Suc n)
  then have j: "j < length xs" by simp
  have i: "info z (xs ! j) = Some (score_at z (xs ! j), name_at z (xs ! j))"
    using member_at(1) [OF assms] j by simp
  have d: "drop j xs = xs ! j # drop (Suc j) xs" using j by (simp add: Cons_nth_drop_Suc)
  show ?case
  proof (cases "dbl_le (score_at z (xs ! j)) hi")
    case False
    then show ?thesis using j i d by (simp add: zcount_loop.simps [of z hi "Some (xs ! j)"])
  next
    case True
    have "AVLNode_offset (tree z) (xs ! j) 1 = Some (if Suc j < length xs then Some (xs ! Suc j) else None)"
      using avl_seq_offset [OF zset_seq [OF assms] j, of 1] by (auto simp: nat_add_distrib)
    then have "zcount_loop z hi (Some (xs ! j)) k = zcount_loop z hi (if Suc j < length xs then Some (xs ! Suc j) else None) (k + 1)"
      using True i by (simp add: zcount_loop.simps [of z hi "Some (xs ! j)"])
    also have "\<dots> = Some (k + 1 + of_nat (length (takeWhile (\<lambda>a. dbl_le (score_at z a) hi) (drop (Suc j) xs))))"
      using Suc by simp
    finally show ?thesis using j True d by (simp add: add.assoc)
  qed
qed

lemma takeWhile_sorted:
  "sorted_wrt R ys \<Longrightarrow> (\<And>a b. R a b \<Longrightarrow> P b \<Longrightarrow> P a) \<Longrightarrow> takeWhile P ys = filter P ys"
proof (induction ys)
  case (Cons y ys)
  then have "filter P ys = []" if "\<not> P y" using that by (auto simp: filter_empty_conv)
  then show ?case using Cons by auto
qed simp

lemma not_less_empty_name: "\<not> dbl_nan lo \<Longrightarrow> \<not> dbl_nan (fst i) \<Longrightarrow> \<not> zkey_of i < zkey_of (lo, []) \<longleftrightarrow> dbl_le lo (fst i)"
  by (cases i) (auto simp: zkey_of_def less_zkey_def dbl_le_def)

lemma zcount_ok:
  assumes ok: "zset_ok z xs" and lo: "\<not> dbl_nan lo"
  obtains found where "ZSet_seekge z lo [] = Some found"
    "zcount_loop z hi found 0 = Some (of_nat (count_between (score_map z xs) lo hi))"
proof -
  let ?b = "zkey_of (lo, [])" and ?P = "\<lambda>a. dbl_le (score_at z a) hi"
  let ?j = "count_below z xs ?b"
  note at = member_at [OF ok]
  have num: "\<not> dbl_nan (score_at z a)" if "a \<in> set xs" for a using ok that by (simp add: zset_ok_def)
  have key: "key_at z a = zkey_of (score_at z a, name_at z a)" if "a \<in> set xs" for a
    using at(1) [OF that] by (simp add: key_at_def)
  have split: "filter (\<lambda>a. key_at z a < ?b) xs @ filter (\<lambda>a. \<not> key_at z a < ?b) xs = xs"
    using switches_split [OF sorted_switches(2) [OF zset_sorted [OF ok]], of ?b] by simp
  then have "drop ?j xs = filter (\<lambda>a. \<not> key_at z a < ?b) xs"
    unfolding count_below_def by (metis append_eq_conv_conj)
  also have "\<dots> = filter (\<lambda>a. dbl_le lo (score_at z a)) xs"
    by (rule filter_cong [OF refl]) (simp add: key not_less_empty_name [OF lo] num)
  finally have suffix: "drop ?j xs = filter (\<lambda>a. dbl_le lo (score_at z a)) xs" .
  have "sorted_wrt (\<lambda>a b. key_at z a < key_at z b) (drop ?j xs)"
    using zset_sorted [OF ok] by (simp add: sorted_wrt_map sorted_wrt_drop)
  then have "sorted_wrt (\<lambda>a b. ?P b \<longrightarrow> ?P a) (drop ?j xs)"
  proof (rule sorted_wrt_mono_rel [rotated])
    fix a b assume "a \<in> set (drop ?j xs)" "b \<in> set (drop ?j xs)" "key_at z a < key_at z b"
    moreover from this have "a \<in> set xs" "b \<in> set xs" by (meson in_set_dropD)+
    ultimately show "?P b \<longrightarrow> ?P a" by (auto simp: key num zkey_of_def less_zkey_def dbl_le_def)
  qed
  then have "takeWhile ?P (drop ?j xs) = filter ?P (drop ?j xs)" by (rule takeWhile_sorted) blast
  also have "\<dots> = filter (\<lambda>a. dbl_le lo (score_at z a) \<and> ?P a) xs" by (simp add: suffix conj_commute)
  finally have walk: "takeWhile ?P (drop ?j xs) = filter (\<lambda>a. dbl_le lo (score_at z a) \<and> ?P a) xs" .
  let ?ys = "filter (\<lambda>a. dbl_le lo (score_at z a) \<and> ?P a) xs"
  have "distinct (map (name_at z) ?ys)" using ok by (simp add: zset_ok_def distinct_map_filter)
  then have "card (name_at z ` set ?ys) = length ?ys" using distinct_card [of "map (name_at z) ?ys"] by simp
  moreover have "name_at z ` set ?ys = {n. \<exists>s. score_map z xs n = Some s \<and> dbl_le lo s \<and> dbl_le s hi}"
    using score_map_iff [OF ok] by auto
  ultimately have "length ?ys = count_between (score_map z xs) lo hi"
    unfolding count_between_def by simp
  then show ?thesis
    using that ZSet_seek_index(1,3) [OF ok lo] zcount_loop_ok [OF ok, of ?j hi 0] walk by (simp add: Let_def)
qed

lemma do_zcount_ok:
  assumes r: "rep s loc d" and out: "holds out xs"
    and num: "\<forall>m. dval d (cmd ! 1) = Some (ASet m) \<longrightarrow>
      (\<exists>x y. stod (cmd ! 2) = Parsed x \<and> stod (cmd ! 3) = Parsed y \<and> \<not> dbl_nan x)"
  shows "served (do_zcount stod cmd out s) xs (spec stod now (CZcount (cmd ! 1) (cmd ! 2) (cmd ! 3)) d)"
  unfolding do_zcount_def spec.simps
proof (rule with_zset_ok [OF r out])
  fix a e z m assume m: "zset_is z (card (dom m)) m" "dval d (cmd ! 1) = Some (ASet m)"
  obtain x y where x: "stod (cmd ! 2) = Parsed x" "stod (cmd ! 3) = Parsed y" "\<not> dbl_nan x" using num m(2) by blast
  obtain ys where ys: "zset_ok z ys" "score_map z ys = m" using m(1) by (auto simp: zset_is_def)
  obtain found where f: "ZSet_seekge z x [] = Some found"
    "zcount_loop z y found 0 = Some (of_nat (count_between m x y))"
    using zcount_ok [OF ys(1) x(3)] ys(2) by metis
  have "served (answer (out_int out (of_nat (count_between m x y))) s) xs
    (\<lambda>rp d'. d' = d \<and> (\<exists>x y. stod (cmd ! 2) = Parsed x \<and> stod (cmd ! 3) = Parsed y \<and>
      rp = RInt (of_nat (count_between m x y))))"
    by (rule answer_served [OF out_int_writes [OF out] r]) (use x in blast)
  then show "served (case (stod (cmd ! 2), stod (cmd ! 3)) of
      (Parsed min_score, Parsed max_score) \<Rightarrow> do {
        found \<leftarrow> ZSet_seekge z min_score [];
        k \<leftarrow> zcount_loop z max_score found 0;
        answer (out_int out k) s }
    | _ \<Rightarrow> None) xs (\<lambda>rp d'. d' = d \<and> (\<exists>x y. stod (cmd ! 2) = Parsed x \<and> stod (cmd ! 3) = Parsed y \<and>
      rp = RInt (of_nat (count_between m x y))))"
    by (simp only: x(1,2) f prod.case parsed.case Option.bind.bind_lunit)
qed

text \<open>The rank of a member is at least one and at most its position.\<close>

lemma position_sorted:
  assumes "sorted_wrt (<) (ks :: 'a::linorder list)" "i < length ks"
  shows "length (filter (\<lambda>k. k < ks ! i) ks) = i"
proof -
  have ks: "ks = take i ks @ ks ! i # drop (Suc i) ks" by (rule id_take_nth_drop [OF assms(2)])
  have s: "sorted_wrt (<) (take i ks @ ks ! i # drop (Suc i) ks)" using assms(1) ks by simp
  have "filter (\<lambda>k. k < ks ! i) (take i ks @ ks ! i # drop (Suc i) ks) = take i ks"
    using s by (auto simp: sorted_wrt_append filter_empty_conv intro!: filter_True)
  then show ?thesis using ks assms(2) by simp
qed

lemma ZSet_rank_ok:
  assumes ok: "zset_ok z xs"
  obtains r where "ZSet_rank z name = Some (int r)"
    "if score_map z xs name = None then r = 0
     else 1 \<le> r \<and> r \<le> Suc (length (filter (\<lambda>k. k < member_key (score_map z xs) name) (ranked (score_map z xs))))"
proof (cases rule: ZSet_lookup_ok [OF ok, of name])
  case 1
  have "score_map z xs name = None" using 1(2) by (simp add: score_map_None)
  moreover have "ZSet_rank z name = Some (int 0)" using 1(1) by (simp add: ZSet_rank_def)
  ultimately show ?thesis using that [of 0] by simp
next
  case (2 a)
  obtain i where i: "i < length xs" "xs ! i = a" using 2(2) by (auto simp: in_set_conv_nth)
  obtain k where k: "AVLNode_rank (tree z) (xs ! i) = Some (int k)" "1 \<le> k" "k \<le> Suc i"
    by (rule avl_seq_rank [OF zset_seq [OF ok] i(1)])
  have "map (key_at z) xs ! i = member_key (score_map z xs) name"
    using i 2(3) member_at(3) [OF ok 2(2)] by simp
  then have "length (filter (\<lambda>k. k < member_key (score_map z xs) name) (ranked (score_map z xs))) = i"
    unfolding ranked_keys [OF ok, symmetric]
    using position_sorted [OF zset_sorted [OF ok], of i] i(1) by simp
  moreover have "score_map z xs name \<noteq> None" using 2(2,3) by (auto simp: score_map_None)
  moreover have "ZSet_rank z name = Some (int k)" using 2(1) i(2) k(1) by (simp add: ZSet_rank_def)
  ultimately show ?thesis using that [of k] k(2,3) by simp
qed

lemma do_zrank_ok:
  assumes r: "rep s loc d" and out: "holds out xs" and room: "card (dom (dval d)) < no_idx"
  shows "served (do_zrank now cmd out s) xs (spec stod now (CZrank (cmd ! 1) (cmd ! 2)) d)"
  unfolding do_zrank_def spec.simps
proof (rule with_zset_ok [OF r out])
  fix a e z m assume m: "loc (cmd ! 1) = Some a" "zset_is z (card (dom m)) m" "dval d (cmd ! 1) = Some (ASet m)"
  obtain ys where ys: "zset_ok z ys" "score_map z ys = m" using m(2) by (auto simp: zset_is_def)
  obtain k where k: "ZSet_rank z (cmd ! 2) = Some (int k)"
    "if m (cmd ! 2) = None then k = 0
     else 1 \<le> k \<and> k \<le> Suc (length (filter (\<lambda>k. k < member_key m (cmd ! 2)) (ranked m)))"
    using ZSet_rank_ok [OF ys(1)] ys(2) by metis
  obtain s' where s': "set_ttl now a DEFAULT_TTL_MS s = Some s'" "rep s' loc (touch now (cmd ! 1) d)"
    by (rule set_ttl_touch [OF r m(1) rep_room [OF r room]])
  have "served (answer (out_int out (of_nat k)) s') xs (\<lambda>rp d'. d' = touch now (cmd ! 1) d \<and> (\<exists>r. rp = RInt (of_nat r) \<and>
       (if m (cmd ! 2) = None then r = 0
        else 1 \<le> r \<and> r \<le> Suc (length (filter (\<lambda>k. k < member_key m (cmd ! 2)) (ranked m))))))"
    by (rule answer_served [OF out_int_writes [OF out] s'(2)]) (use k(2) in blast)
  then show "served (do { rank \<leftarrow> ZSet_rank z (cmd ! 2); s \<leftarrow> set_ttl now a DEFAULT_TTL_MS s;
      answer (out_int out (word_of_int rank)) s }) xs
    (\<lambda>rp d'. d' = touch now (cmd ! 1) d \<and> (\<exists>r. rp = RInt (of_nat r) \<and>
       (if m (cmd ! 2) = None then r = 0
        else 1 \<le> r \<and> r \<le> Suc (length (filter (\<lambda>k. k < member_key m (cmd ! 2)) (ranked m))))))"
    by (simp add: k(1) s'(1))
qed

subsection \<open>The dispatcher\<close>

lemma do_echo_ok:
  "rep s loc d \<Longrightarrow> holds out xs \<Longrightarrow> served (do_echo cmd out s) xs (spec stod now (CEcho (tl cmd)) d)"
  by (simp add: do_echo_def answer_served [OF out_str_writes])

lemma rep_stop: "rep s loc d \<Longrightarrow> rep (s\<lparr>is_running := False\<rparr>) loc (d\<lparr>alive := False\<rparr>)"
  by (simp add: rep_def located_def indexed_def valued_def timed_def)

lemma served_if:
  assumes "ans (if A then Y else Y')" "A \<Longrightarrow> ans Y \<Longrightarrow> served X xs (P Y)"
    "\<not> A \<Longrightarrow> ans Y' \<Longrightarrow> served X' xs (P Y')"
  shows "served (if A then X else X') xs (P (if A then Y else Y'))"
  using assms by auto

lemma do_request_ok:
  assumes r: "rep s loc d" and out: "holds out xs" and room: "card (dom (dval d)) < no_idx"
    and cmd: "cmd \<noteq> []" and ans: "answerable stod (classify cmd) d"
  shows "served (do_request stod now cmd out s) xs (spec stod now (classify cmd) d)"
proof -
  let ?c = "map toupper (cmd ! 0)"
  define cmd' where "cmd' = cmd[0 := ?c]"
  have at: "cmd' ! Suc i = cmd ! Suc i" "length cmd' = length cmd" for i by (simp_all add: cmd'_def)
  have args: "cmd' ! 1 = cmd ! 1" "cmd' ! 2 = cmd ! 2" "cmd' ! 3 = cmd ! 3" "cmd' ! 4 = cmd ! 4" "cmd' ! 5 = cmd ! 5"
    by (simp_all add: cmd'_def)
  have tl: "tl cmd' = tl cmd" using cmd by (cases cmd) (simp_all add: cmd'_def)
  note ans = ans [unfolded classify_def Let_def]
  have die: "served (answer (out_str out (ascii ''killing server'')) (s\<lparr>is_running := False\<rparr>)) xs (spec stod now CDie d)"
    by (rule answer_served [OF out_str_writes [OF out] rep_stop [OF r]]) simp
  have unknown: "served (answer (out_err out ERR_NOT_FOUND (ascii ''command not found'')) s) xs (spec stod now CUnknown d)"
    by (rule answer_served [OF out_err_writes [OF out] r]) simp
  note commands = do_get_ok [OF r out, of cmd'] do_set_ok [OF r out room, of cmd'] do_del_ok [OF r out, of now cmd']
    do_zadd_ok [OF r out room, of stod cmd'] do_zrem_ok [OF r out, of cmd'] do_zqueryge_ok [OF r out, of stod cmd']
    do_zqueryle_ok [OF r out, of stod cmd'] do_zcount_ok [OF r out, of cmd' stod] do_zrank_ok [OF r out room, of now cmd']
    do_expire_ok [OF r out room, of now cmd'] do_ttl_ok [OF r out, of cmd'] do_echo_ok [OF r out, of cmd'] die unknown
  show ?thesis
    using cmd unfolding do_request_def Let_def classify_def cmd'_def [symmetric] at(2)
    by (simp only: oguard_True Option.bind.bind_lunit simp_thms)
      (rule served_if [where ans = "\<lambda>c. answerable stod c d", OF ans] |
       erule served_if [where ans = "\<lambda>c. answerable stod c d"] |
       (insert commands, simp add: args at tl del: spec.simps; fail))+
qed

end
