(* ===== verification/MRD_DList.thy ===== *)
theory MRD_DList
  imports MRD_Prelude
begin

text \<open>
  The intrusive circular doubly linked list of \<^verbatim>\<open>shared/src/MRD_DList.cpp\<close>, on an explicit store
  of nodes. A node carries its two links; the head is a node of the ring like any other.
\<close>

record dlist =
  nxt :: addr
  prv :: addr

type_synonym dl_heap = "addr \<rightharpoonup> dlist"

subsection \<open>The operations\<close>

definition DList_init :: "addr \<Rightarrow> dl_heap \<Rightarrow> dl_heap" where
  "DList_init a H = H(a \<mapsto> \<lparr>nxt = a, prv = a\<rparr>)"

definition DList_empty :: "addr \<Rightarrow> dl_heap \<Rightarrow> bool option" where
  "DList_empty node H = do { n \<leftarrow> H node; Some (nxt n = node) }"

text \<open>The links of the node are read again for the second statement, as the code does.\<close>

definition DList_detach :: "addr \<Rightarrow> dl_heap \<Rightarrow> dl_heap option" where
  "DList_detach node H = do {
     n \<leftarrow> H node;
     H \<leftarrow> upd_at (prv n) (\<lambda>p. p\<lparr>nxt := nxt n\<rparr>) H;
     n \<leftarrow> H node;
     upd_at (nxt n) (\<lambda>s. s\<lparr>prv := prv n\<rparr>) H
   }"

definition DList_insert_before :: "addr \<Rightarrow> addr \<Rightarrow> dl_heap \<Rightarrow> dl_heap option" where
  "DList_insert_before node target H = do {
     t \<leftarrow> H target;
     H \<leftarrow> upd_at node (\<lambda>n. n\<lparr>prv := prv t\<rparr>) H;
     t \<leftarrow> H target;
     H \<leftarrow> upd_at (prv t) (\<lambda>p. p\<lparr>nxt := node\<rparr>) H;
     H \<leftarrow> upd_at target (\<lambda>t. t\<lparr>prv := node\<rparr>) H;
     upd_at node (\<lambda>n. n\<lparr>nxt := target\<rparr>) H
   }"

subsection \<open>Rings\<close>

definition link :: "dl_heap \<Rightarrow> addr \<Rightarrow> addr \<Rightarrow> bool" where
  "link H a b = (\<exists>n m. H a = Some n \<and> H b = Some m \<and> nxt n = b \<and> prv m = a)"

definition ring :: "dl_heap \<Rightarrow> addr \<Rightarrow> addr list \<Rightarrow> bool" where
  "ring H h xs = (list_all2 (link H) (h # xs) (xs @ [h]) \<and> distinct (h # xs))"

lemma link_upd_nxt [heap_simps]:
  "H p = Some n \<Longrightarrow> a \<noteq> p \<Longrightarrow> link (H(p \<mapsto> n\<lparr>nxt := v\<rparr>)) a b = link H a b"
  by (auto simp: link_def)

lemma link_upd_prv [heap_simps]:
  "H p = Some n \<Longrightarrow> b \<noteq> p \<Longrightarrow> link (H(p \<mapsto> n\<lparr>prv := v\<rparr>)) a b = link H a b"
  by (auto simp: link_def)

lemma link_fresh [heap_simps]: "a \<noteq> p \<Longrightarrow> b \<noteq> p \<Longrightarrow> link (H(p := v)) a b = link H a b"
  by (simp add: link_def)

lemma link_cong:
  "map_option nxt (H' a) = map_option nxt (H a) \<Longrightarrow> map_option prv (H' b) = map_option prv (H b) \<Longrightarrow>
   link H a b \<Longrightarrow> link H' a b"
  by (auto simp: link_def)

lemma links_cong:
  "list_all2 (link H) us vs \<Longrightarrow>
   (\<And>u. u \<in> set us \<Longrightarrow> map_option nxt (H' u) = map_option nxt (H u)) \<Longrightarrow>
   (\<And>v. v \<in> set vs \<Longrightarrow> map_option prv (H' v) = map_option prv (H v)) \<Longrightarrow>
   list_all2 (link H') us vs"
  by (auto simp: list_all2_conv_all_nth intro: link_cong)

text \<open>A ring opened at a place: the part before it, the part after it, and the neighbours.\<close>

lemma ring_open:
  assumes "ring H h (ys @ zs)"
  obtains ps p s ss where "h # ys = ps @ [p]" "zs @ [h] = s # ss"
    "list_all2 (link H) ps ys" "link H p s" "list_all2 (link H) zs ss"
proof -
  define ps p where "ps = butlast (h # ys)" and "p = last (h # ys)"
  define s ss where "s = hd (zs @ [h])" and "ss = tl (zs @ [h])"
  have eq: "h # ys = ps @ [p]" "zs @ [h] = s # ss"
    by (simp_all add: ps_def p_def s_def ss_def del: butlast.simps last.simps)
  have "list_all2 (link H) ((h # ys) @ zs) (ys @ zs @ [h])"
    using assms by (simp add: ring_def)
  then have "list_all2 (link H) (ps @ p # zs) (ys @ s # ss)"
    unfolding eq by simp
  moreover have "length ps = length ys" using arg_cong [OF eq(1), of length] by simp
  ultimately have "list_all2 (link H) ps ys \<and> list_all2 (link H) (p # zs) (s # ss)"
    by (simp only: list_all2_append)
  then show thesis using eq that by simp
qed

lemma ring_close:
  assumes "h # ys = ps @ [p]" "zs @ [h] = s # ss" "distinct (h # ys @ zs)"
    "list_all2 (link H) ps ys" "link H p s" "list_all2 (link H) zs ss"
  shows "ring H h (ys @ zs)"
proof -
  have "length ps = length ys" using arg_cong [OF assms(1), of length] by simp
  then have "list_all2 (link H) (ps @ p # zs) (ys @ s # ss)"
    using assms(4-6) by (simp add: list_all2_append)
  moreover have "ps @ p # zs = h # ys @ zs" "ys @ s # ss = ys @ zs @ [h]"
    using arg_cong [OF assms(1), of "\<lambda>us. us @ zs"] assms(2) by simp_all
  ultimately show ?thesis using assms(3) by (simp add: ring_def)
qed

lemma ring_open_mem:
  assumes "h # ys = ps @ [p]" "zs @ [h] = s # ss" "distinct (h # ys @ zs)"
  shows "p \<in> set (h # ys)" "s \<in> set (zs @ [h])" "distinct (ps @ [p])" "distinct (s # ss)"
    "set ps \<subseteq> set (h # ys)" "set ss \<subseteq> set (zs @ [h])"
proof -
  have "set (h # ys) = set (ps @ [p])" "set (zs @ [h]) = set (s # ss)"
    "distinct (h # ys) = distinct (ps @ [p])" "distinct (zs @ [h]) = distinct (s # ss)"
    using assms(1,2) by (simp_all only:)
  then show "p \<in> set (h # ys)" "s \<in> set (zs @ [h])" "distinct (ps @ [p])" "distinct (s # ss)"
    "set ps \<subseteq> set (h # ys)" "set ss \<subseteq> set (zs @ [h])"
    using assms(3) by auto
qed

lemma ring_mem: "ring H h xs \<Longrightarrow> a \<in> set (h # xs) \<Longrightarrow> H a \<noteq> None"
  unfolding ring_def list_all2_conv_all_nth
  by (metis in_set_conv_nth link_def option.distinct(1))

lemma ring_empty: "ring H h xs \<Longrightarrow> DList_empty h H = Some (xs = [])"
  by (cases xs) (auto simp: ring_def link_def DList_empty_def)

lemma ring_first: "ring H h (x # xs) \<Longrightarrow> \<exists>n. H h = Some n \<and> nxt n = x"
  by (auto simp: ring_def link_def)

lemma ring_init: "ring (DList_init h H) h []"
  by (simp add: ring_def link_def DList_init_def)

lemma ring_cong: "ring H h xs \<Longrightarrow> (\<And>a. a \<in> set (h # xs) \<Longrightarrow> H' a = H a) \<Longrightarrow> ring H' h xs"
  unfolding ring_def by (auto intro: links_cong [where H = H, unfolded list_all2_Cons])

subsection \<open>The operations on rings\<close>

lemma DList_detach_ring:
  assumes "ring H h (ys @ c # zs)"
  shows "\<exists>H' n. DList_detach c H = Some H' \<and> ring H' h (ys @ zs) \<and>
    H c = Some n \<and> H' c = Some n \<and>
    (\<forall>b. b \<notin> set (h # ys @ zs) \<longrightarrow> H' b = H b)"
proof -
  obtain ps p where 1: "h # ys = ps @ [p]" "list_all2 (link H) ps ys" "link H p c"
    using assms by (rule ring_open) auto
  obtain s ss where 2: "zs @ [h] = s # ss" "link H c s" "list_all2 (link H) zs ss"
    using assms by (rule ring_open [of H h "ys @ [c]" zs, simplified]) auto
  obtain np nc ns where n: "H p = Some np" "nxt np = c" "H c = Some nc" "prv nc = p" "nxt nc = s"
      "H s = Some ns" "prv ns = c"
    using 1(3) 2(2) by (auto simp: link_def)
  have dist: "distinct (h # ys @ c # zs)" using assms by (simp add: ring_def)
  have "distinct (h # ys @ zs)" using dist by auto
  note mem = ring_open_mem [OF 1(1) 2(1) this]
  have ne: "c \<noteq> p" "c \<noteq> s" using mem(1,2) dist by auto
  have apart: "p \<notin> set zs" "s \<notin> set ss" "p \<notin> set ps" "s \<notin> set ys"
    using mem(1-4) dist by auto
  define ns' where "ns' = (if s = p then np\<lparr>nxt := s\<rparr> else ns)"
  define H' where "H' = H(p \<mapsto> np\<lparr>nxt := s\<rparr>, s \<mapsto> ns'\<lparr>prv := p\<rparr>)"
  have "DList_detach c H = Some H'"
    using n ne by (simp add: DList_detach_def H'_def ns'_def)
  moreover have "ring H' h (ys @ zs)"
  proof (rule ring_close [OF 1(1) 2(1)])
    show "distinct (h # ys @ zs)" using dist by auto
    show "list_all2 (link H') ps ys"
      by (rule links_cong [OF 1(2)]) (use apart n in \<open>auto simp: H'_def ns'_def\<close>)
    show "link H' p s" using n by (auto simp: link_def H'_def ns'_def)
    show "list_all2 (link H') zs ss"
      by (rule links_cong [OF 2(3)]) (use apart n in \<open>auto simp: H'_def ns'_def\<close>)
  qed
  moreover have "H' b = H b" if "b \<notin> set (h # ys @ zs)" for b
    using that mem(1,2) by (auto simp: H'_def)
  ultimately show ?thesis using n ne by (auto simp: H'_def)
qed

lemma DList_insert_before_ring:
  assumes "ring H h (ys @ zs)" "a \<notin> set (h # ys @ zs)" "H a = Some n"
  shows "\<exists>H'. DList_insert_before a (hd (zs @ [h])) H = Some H' \<and> ring H' h (ys @ a # zs) \<and>
    (\<forall>b. b \<notin> set (h # ys @ a # zs) \<longrightarrow> H' b = H b)"
proof -
  obtain ps p s ss where o: "h # ys = ps @ [p]" "zs @ [h] = s # ss"
      "list_all2 (link H) ps ys" "link H p s" "list_all2 (link H) zs ss"
    using assms(1) by (rule ring_open)
  obtain np ns where n: "H p = Some np" "nxt np = s" "H s = Some ns" "prv ns = p"
    using o(4) by (auto simp: link_def)
  have dist: "distinct (h # ys @ zs)" using assms by (simp add: ring_def)
  note mem = ring_open_mem [OF o(1,2) dist]
  have ne: "a \<noteq> p" "a \<noteq> s" using mem(1,2) assms(2) by auto
  have apart: "p \<notin> set zs" "s \<notin> set ss" "p \<notin> set ps" "s \<notin> set ys"
      "a \<notin> set zs" "a \<notin> set ss" "a \<notin> set ps" "a \<notin> set ys"
    using mem dist assms(2) by auto
  define ns' where "ns' = (if s = p then np\<lparr>nxt := a\<rparr> else ns)"
  define H' where "H' = H(p \<mapsto> np\<lparr>nxt := a\<rparr>, s \<mapsto> ns'\<lparr>prv := a\<rparr>, a \<mapsto> \<lparr>nxt = s, prv = p\<rparr>)"
  have "DList_insert_before a s H = Some H'"
    using n ne assms(3)
    by (auto simp: DList_insert_before_def H'_def ns'_def fun_upd_twist [of a]
        intro!: dlist.equality)
  moreover have "ring H' h ((ys @ [a]) @ zs)"
  proof (rule ring_close [where p = a and ps = "ps @ [p]"])
    show "h # ys @ [a] = (ps @ [p]) @ [a]" using o(1) by simp
    show "zs @ [h] = s # ss" by (rule o(2))
    show "distinct (h # (ys @ [a]) @ zs)" using dist assms(2) by auto
    have "list_all2 (link H') ps ys"
      by (rule links_cong [OF o(3)]) (use apart n in \<open>auto simp: H'_def ns'_def\<close>)
    moreover have "link H' p a" using n ne by (auto simp: link_def H'_def ns'_def)
    ultimately show "list_all2 (link H') (ps @ [p]) (ys @ [a])"
      by (simp add: list_all2_appendI)
    show "link H' a s" using n ne by (auto simp: link_def H'_def ns'_def)
    show "list_all2 (link H') zs ss"
      by (rule links_cong [OF o(5)]) (use apart n in \<open>auto simp: H'_def ns'_def\<close>)
  qed
  moreover have "H' b = H b" if "b \<notin> set (h # ys @ a # zs)" for b
    using that mem(1,2) by (auto simp: H'_def)
  ultimately show ?thesis using o(2) by auto
qed


text \<open>
  The list as the timer code reads it: from the head along the forward links.
\<close>

fun walk :: "dl_heap \<Rightarrow> addr \<Rightarrow> addr list \<Rightarrow> addr \<Rightarrow> bool" where
  "walk H a [] h = (\<exists>n. H a = Some n \<and> nxt n = h)"
| "walk H a (x # xs) h = ((\<exists>n. H a = Some n \<and> nxt n = x) \<and> walk H x xs h)"

lemma walk_links: "list_all2 (link H) (a # xs) (xs @ [h]) \<Longrightarrow> walk H a xs h"
  by (induction xs arbitrary: a) (auto simp: link_def)

lemma ring_walk: "ring H h xs \<Longrightarrow> walk H h xs h"
  by (simp add: ring_def walk_links)

lemma walk_cong:
  "walk H a xs h \<Longrightarrow> (\<And>b. b \<in> set (a # xs) \<Longrightarrow> map_option nxt (H' b) = map_option nxt (H b)) \<Longrightarrow>
   walk H' a xs h"
proof (induction xs arbitrary: a)
  case Nil
  then show ?case by (auto dest!: Nil.prems(2))
next
  case (Cons x xs)
  have "map_option nxt (H' a) = map_option nxt (H a)" by (rule Cons.prems(2)) simp
  moreover have "walk H' x xs h" using Cons.prems by (intro Cons.IH) auto
  ultimately show ?case using Cons.prems(1) by auto
qed

lemma walk_unique: "walk H a xs h \<Longrightarrow> walk H a ys h \<Longrightarrow> h \<notin> set xs \<Longrightarrow> h \<notin> set ys \<Longrightarrow> xs = ys"
proof (induction xs arbitrary: a ys)
  case Nil
  then show ?case by (cases ys) auto
next
  case (Cons x xs)
  then show ?case by (cases ys) auto
qed

text \<open>
  Detaching a node and then linking the head in front of it: the head's forward link goes to
  the node, whose own forward link still names its old neighbour, so the walk from the head
  skips everything that preceded the node.
\<close>

lemma detach_insert_head_walk:
  assumes "ring H h (ys @ c # zs)"
  shows "\<exists>H'. do { H \<leftarrow> DList_detach c H; DList_insert_before h c H } = Some H' \<and> walk H' h (c # zs) h \<and>
    (\<exists>n. H' h = Some n \<and> prv n = last (h # ys)) \<and> H' (last (h # ys)) \<noteq> None \<and>
    (\<forall>b. b \<notin> set (h # ys @ c # zs) \<longrightarrow> H' b = H b)"
proof -
  obtain ps p where 1: "h # ys = ps @ [p]" "link H p c"
    using assms by (rule ring_open) auto
  obtain s ss where 2: "zs @ [h] = s # ss" "link H c s"
    using assms by (rule ring_open [of H h "ys @ [c]" zs, simplified]) auto
  obtain nc where nc: "H c = Some nc" "prv nc = p" "nxt nc = s"
    using 1(2) 2(2) by (auto simp: link_def)
  have dist: "distinct (h # ys @ c # zs)" using assms by (simp add: ring_def)
  then have "distinct (h # ys @ zs)" by auto
  note mem = ring_open_mem [OF 1(1) 2(1) this]
  have ne: "c \<noteq> p" "c \<noteq> h" using mem(1) dist by auto
  have last: "last (h # ys) = p" using 1(1) by (metis last_snoc)
  obtain H1 where H1: "DList_detach c H = Some H1" "ring H1 h (ys @ zs)" "H1 c = Some nc"
      "\<And>b. b \<notin> set (h # ys @ zs) \<Longrightarrow> H1 b = H b"
    using DList_detach_ring [OF assms] nc(1) by auto
  have "p \<in> set (h # ys @ zs)" using mem(1) by auto
  then obtain nh np where n: "H1 h = Some nh" "H1 p = Some np"
    using ring_mem [OF H1(2)] by fastforce
  have links: "list_all2 (link H1) zs ss"
    using H1(2) by (rule ring_open) (use 2(1) in auto)
  define H2 where "H2 = H1(h \<mapsto> nh\<lparr>prv := p\<rparr>)"
  have "H2 p \<noteq> None" using n by (simp add: H2_def)
  then obtain np' where np': "H2 p = Some np'" by blast
  define H3 where "H3 = H2(p \<mapsto> np'\<lparr>nxt := h\<rparr>, c \<mapsto> nc\<lparr>prv := h\<rparr>)"
  have "H3 h \<noteq> None" using n ne by (auto simp: H3_def H2_def)
  then obtain nh' where nh': "H3 h = Some nh'" by blast
  define H4 where "H4 = H3(h \<mapsto> nh'\<lparr>nxt := c\<rparr>)"
  have eq: "do { H \<leftarrow> DList_detach c H; DList_insert_before h c H } = Some H4"
    using H1(1,3) n nc np' nh' ne
    by (auto simp: DList_insert_before_def H2_def H3_def H4_def)
  have hd: "\<exists>n. H4 h = Some n \<and> nxt n = c" by (simp add: H4_def)
  have at_c: "\<exists>n. H4 c = Some n \<and> nxt n = s" using ne nc by (simp add: H4_def H3_def)
  have same: "H4 b = H1 b" if "b \<in> set zs" for b
    using that mem(1) dist by (auto simp: H4_def H3_def H2_def)
  have "walk H4 c zs h"
  proof (cases zs)
    case Nil
    then show ?thesis using at_c 2(1) by simp
  next
    case (Cons z zs')
    then have "walk H1 z zs' h" using links 2(1) walk_links by auto
    then have "walk H4 z zs' h" by (rule walk_cong) (use same Cons in auto)
    then show ?thesis using at_c Cons 2(1) by simp
  qed
  moreover have "\<exists>n. H4 h = Some n \<and> prv n = p" "H4 p \<noteq> None"
    using nh' ne np' by (auto simp: H4_def H3_def H2_def split: if_splits)
  moreover have "H4 b = H b" if "b \<notin> set (h # ys @ c # zs)" for b
    using that mem(1) H1(4) [of b] by (auto simp: H4_def H3_def H2_def)
  ultimately show ?thesis using eq hd last by auto
qed

end
