(* ===== verification/MRD_Idle.thy ===== *)
theory MRD_Idle
  imports MRD_DList
begin

text \<open>
  The server's list of idle connections (\<^verbatim>\<open>server/MRD_server.cpp\<close>): acceptance links a connection at
  the tail, activity relinks it, destruction unlinks and frees it, and the timer loop destroys from
  the head. The head of the list is the object at address 0.
\<close>

subsection \<open>Queues of linked objects\<close>

text \<open>
  What a list of linked objects promises a client that keeps it ordered by a time stamp.
\<close>

locale linked_queue =
  fixes rep :: "'h \<Rightarrow> 'a list \<Rightarrow> bool"
    and is_fresh :: "'h \<Rightarrow> 'a \<Rightarrow> bool"
    and unlink :: "'a \<Rightarrow> 'h \<Rightarrow> 'h option"
    and link_last :: "'a \<Rightarrow> 'h \<Rightarrow> 'h option"
    and front :: "'h \<Rightarrow> 'a option option"
  assumes unlink_law: "rep h (xs @ a # ys) \<Longrightarrow> \<exists>h'. unlink a h = Some h' \<and> rep h' (xs @ ys) \<and> is_fresh h' a"
    and link_law: "rep h xs \<Longrightarrow> is_fresh h a \<Longrightarrow> \<exists>h'. link_last a h = Some h' \<and> rep h' (xs @ [a])"
    and front_law: "rep h xs \<Longrightarrow> front h = Some (case xs of [] \<Rightarrow> None | x # _ \<Rightarrow> Some x)"
begin

text \<open>Relinking at the tail keeps the queue ordered when the object gets the newest stamp.\<close>

lemma touch_last:
  assumes "rep h (xs @ a # ys)"
  obtains h' where "Option.bind (unlink a h) (link_last a) = Some h'" "rep h' (xs @ ys @ [a])"
proof -
  obtain h1 where h1: "unlink a h = Some h1" "rep h1 (xs @ ys)" "is_fresh h1 a"
    using unlink_law [OF assms] by blast
  obtain h2 where "link_last a h1 = Some h2" "rep h2 ((xs @ ys) @ [a])"
    using link_law [OF h1(2,3)] by blast
  then show ?thesis using that h1(1) by simp
qed

lemma touch_sorted:
  assumes "rep h (xs @ a # ys)" "sorted (map stamp (xs @ a # ys))" "\<forall>x \<in> set (xs @ ys). stamp x \<le> now"
    "a \<notin> set (xs @ ys)"
  shows "\<exists>h'. Option.bind (unlink a h) (link_last a) = Some h' \<and> rep h' (xs @ ys @ [a]) \<and>
    sorted (map (stamp(a := now)) (xs @ ys @ [a]))"
proof -
  define zs where "zs = xs @ ys"
  have same: "map (stamp(a := now)) zs = map stamp zs" using assms(4) by (auto simp: zs_def)
  have "sorted (map stamp zs)" using assms(2) by (auto simp: sorted_append zs_def)
  moreover have "\<forall>v \<in> set (map stamp zs). v \<le> now" using assms(3) by (auto simp: zs_def)
  ultimately have "sorted (map (stamp(a := now)) zs @ [now])"
    unfolding same by (simp add: sorted_append)
  then have "sorted (map (stamp(a := now)) ((xs @ ys) @ [a]))" by (simp add: zs_def)
  then show ?thesis using touch_last [OF assms(1)] by (metis append.assoc)
qed

end

subsection \<open>The idle list\<close>

definition idle_list :: addr where "idle_list = 0"

record idle_state =
  links :: dl_heap
  last_active :: "addr \<Rightarrow> u64"

definition IDLE_TIMEOUT_MS :: u64 where "IDLE_TIMEOUT_MS = 300000"

text \<open>A new connection gets a self-linked node, a time stamp, and its place before the head.\<close>

definition idle_accept :: "u64 \<Rightarrow> addr \<Rightarrow> idle_state \<Rightarrow> idle_state option" where
  "idle_accept now conn s = do {
     oguard (links s conn = None);
     let s = s\<lparr>links := DList_init conn (links s), last_active := (last_active s)(conn := now)\<rparr>;
     H \<leftarrow> DList_insert_before conn idle_list (links s);
     Some (s\<lparr>links := H\<rparr>)
   }"

text \<open>What the main loop does to a connection with an event: the arguments are as in the code.\<close>

definition idle_active :: "u64 \<Rightarrow> addr \<Rightarrow> idle_state \<Rightarrow> idle_state option" where
  "idle_active now conn s = do {
     let s = s\<lparr>last_active := (last_active s)(conn := now)\<rparr>;
     H \<leftarrow> DList_detach conn (links s);
     H \<leftarrow> DList_insert_before idle_list conn H;
     Some (s\<lparr>links := H\<rparr>)
   }"

definition conn_destroy :: "addr \<Rightarrow> idle_state \<Rightarrow> idle_state option" where
  "conn_destroy conn s = do {
     H \<leftarrow> DList_detach conn (links s);
     Some (s\<lparr>links := H(conn := None)\<rparr>)
   }"

text \<open>The first loop of \<^verbatim>\<open>process_timers\<close>; it returns the connections it destroyed.\<close>

partial_function (option) expire_idle ::
  "u64 \<Rightarrow> idle_state \<Rightarrow> (addr list \<times> idle_state) option" where
  "expire_idle now s = do {
     none \<leftarrow> DList_empty idle_list (links s);
     (if none then Some ([], s)
      else do {
        n \<leftarrow> links s idle_list;
        let conn = nxt n;
        let next_ms = last_active s conn + IDLE_TIMEOUT_MS;
        (if next_ms \<ge> now then Some ([], s)
         else do {
           s \<leftarrow> conn_destroy conn s;
           (conns, s) \<leftarrow> expire_idle now s;
           Some (conn # conns, s)
         })
      })
   }"

declare expire_idle.simps [code]

text \<open>The sleep until the next timer; \<open>first\<close> is the smallest expiry time of the entries.\<close>

definition next_timer_ms :: "u64 \<Rightarrow> u64 option \<Rightarrow> idle_state \<Rightarrow> u64 option" where
  "next_timer_ms now_ms first s = do {
     none \<leftarrow> DList_empty idle_list (links s);
     (if none then Some (- 1)
      else do {
        n \<leftarrow> links s idle_list;
        let next_ms = last_active s (nxt n) + IDLE_TIMEOUT_MS;
        let next_ms = (case first of Some v \<Rightarrow> if v < next_ms then v else next_ms | None \<Rightarrow> next_ms);
        Some (if next_ms = - 1 then next_ms else if next_ms \<le> now_ms then 0 else next_ms - now_ms)
      })
   }"

subsection \<open>The list on a ring\<close>

definition idle_ok :: "idle_state \<Rightarrow> addr list \<Rightarrow> bool" where
  "idle_ok s conns = ring (links s) idle_list conns"

definition idle_empty :: idle_state where
  "idle_empty = \<lparr>links = DList_init idle_list Map.empty, last_active = \<lambda>_. 0\<rparr>"

lemma idle_empty_ok: "idle_ok idle_empty []"
  by (simp add: idle_ok_def idle_empty_def ring_init)

lemma idle_accept_ok:
  assumes "idle_ok s conns" "links s c = None"
  obtains s' where "idle_accept now c s = Some s'" "idle_ok s' (conns @ [c])"
    "last_active s' = (last_active s)(c := now)"
proof -
  have new: "c \<notin> set (idle_list # conns)" using assms ring_mem unfolding idle_ok_def by blast
  have "ring (DList_init c (links s)) idle_list (conns @ [])"
    using assms(1) new unfolding idle_ok_def by (auto simp: DList_init_def intro: ring_cong)
  from DList_insert_before_ring [OF this, of c] new obtain H where
    "DList_insert_before c idle_list (DList_init c (links s)) = Some H" "ring H idle_list (conns @ [c])"
    by (auto simp: DList_init_def)
  then show ?thesis
    using that [of "\<lparr>links = H, last_active = (last_active s)(c := now)\<rparr>"] assms(2)
    by (simp add: idle_accept_def idle_ok_def)
qed

text \<open>The list satisfies the queue's laws; the loop's own relinking is another operation.\<close>

definition link_last :: "addr \<Rightarrow> dl_heap \<Rightarrow> dl_heap option" where
  "link_last c H = DList_insert_before c idle_list H"

definition front :: "dl_heap \<Rightarrow> addr option option" where
  "front H = do {
     none \<leftarrow> DList_empty idle_list H;
     n \<leftarrow> H idle_list;
     Some (if none then None else Some (nxt n))
   }"

interpretation iq: linked_queue "\<lambda>H xs. ring H idle_list xs"
  "\<lambda>H c. H c \<noteq> None \<and> (\<forall>xs. ring H idle_list xs \<longrightarrow> c \<notin> set (idle_list # xs))"
  DList_detach link_last front
proof (unfold_locales, goal_cases)
  case (1 H xs a ys)
  from DList_detach_ring [OF 1] obtain H' n where d: "DList_detach a H = Some H'"
    "ring H' idle_list (xs @ ys)" "H' a = Some n" by blast
  have new: "a \<notin> set (idle_list # xs @ ys)" using 1 by (auto simp: ring_def)
  have "zs = xs @ ys" if "ring H' idle_list zs" for zs
    using walk_unique [OF ring_walk [OF that] ring_walk [OF d(2)]] that d(2) by (simp add: ring_def)
  then have "a \<notin> set (idle_list # zs)" if "ring H' idle_list zs" for zs
    using that new by blast
  then show ?case using d by blast
next
  case (2 H xs a)
  then obtain n where "H a = Some n" "a \<notin> set (idle_list # xs)" by auto
  then show ?case
    using DList_insert_before_ring [of H idle_list xs "[]" a n] 2(1) by (auto simp: link_last_def)
next
  case (3 H xs)
  then show ?case
    using ring_mem [OF 3, of idle_list] ring_first [of H idle_list]
    by (cases xs) (auto simp: front_def ring_empty)
qed

lemma DList_detach_dom: "DList_detach c H = Some H' \<Longrightarrow> dom H' = dom H"
  unfolding DList_detach_def bind_simps by (elim exE conjE) (simp add: upd_at_dom)

lemma DList_insert_before_dom: "DList_insert_before a b H = Some H' \<Longrightarrow> dom H' = dom H"
  unfolding DList_insert_before_def bind_simps by (elim exE conjE) (simp add: upd_at_dom)

subsection \<open>Properties\<close>

text \<open>Unlinking a node of a ring and linking it before the head moves it to the end: on every
  ring the two list operations return, leave a ring with exactly the other nodes in their order, and
  give the node back at the tail.\<close>

theorem DList_relink_correct:
  assumes "ring H idle_list (xs @ c # ys)"
  shows "\<exists>H1 H2. DList_detach c H = Some H1 \<and> ring H1 idle_list (xs @ ys) \<and>
    DList_insert_before c idle_list H1 = Some H2 \<and> ring H2 idle_list (xs @ ys @ [c])"
proof -
  obtain H1 where H1: "DList_detach c H = Some H1" "ring H1 idle_list (xs @ ys)"
    using iq.unlink_law [OF assms] by blast
  from iq.touch_last [OF assms] obtain H2 where
    "Option.bind (DList_detach c H) (link_last c) = Some H2" "ring H2 idle_list (xs @ ys @ [c])" .
  then show ?thesis using H1 by (auto simp: link_last_def)
qed

lemma ring_two: "ring [0 \<mapsto> \<lparr>nxt = 5, prv = 6\<rparr>, 5 \<mapsto> \<lparr>nxt = 6, prv = 0\<rparr>, 6 \<mapsto> \<lparr>nxt = 0, prv = 5\<rparr>] 0 [5, 6]"
  by (simp add: ring_def link_def)

lemma DList_relink_correct_witness:
  "\<exists>H1 H2. DList_detach 5 [0 \<mapsto> \<lparr>nxt = 5, prv = 6\<rparr>, 5 \<mapsto> \<lparr>nxt = 6, prv = 0\<rparr>, 6 \<mapsto> \<lparr>nxt = 0, prv = 5\<rparr>] = Some H1 \<and>
     DList_insert_before 5 0 H1 = Some H2 \<and> ring H2 0 [6, 5]"
  using DList_relink_correct [of _ "[]" 5 "[6]"] ring_two by (simp add: idle_list_def) blast

lemma idle_sample:
  obtains s1 s2 where "idle_accept 1 5 idle_empty = Some s1" "idle_accept 2 6 s1 = Some s2" "idle_ok s2 [5, 6]"
proof -
  obtain s1 where s1: "idle_accept 1 5 idle_empty = Some s1" "idle_ok s1 ([] @ [5])"
    using idle_accept_ok [OF idle_empty_ok, of 5 1]
    by (auto simp: idle_empty_def DList_init_def idle_list_def)
  have "map_option (\<lambda>s. links s 6) (idle_accept 1 5 idle_empty) = Some None" by code_simp
  then have "links s1 6 = None" using s1(1) by simp
  then show ?thesis using idle_accept_ok [of s1 "[5]" 6 2] s1 that by auto
qed

text \<open>C35: When a connection of a whole list has an event, the main loop's relinking makes it the first of the list
  and drops every connection that preceded it from the list's forward links: these stay allocated,
  but the timers do not reach them.\<close>

theorem idle_active_drops_prefix:
  assumes "idle_ok s (ys @ c # zs)"
  shows "\<exists>s'. idle_active now c s = Some s' \<and> walk (links s') idle_list (c # zs) idle_list \<and>
    front (links s') = Some (Some c) \<and> (\<forall>y \<in> set ys. links s' y \<noteq> None) \<and>
    (\<forall>cs. walk (links s') idle_list cs idle_list \<longrightarrow> idle_list \<notin> set cs \<longrightarrow> cs = c # zs)"
proof -
  have ring: "ring (links s) idle_list (ys @ c # zs)"
    using assms by (simp add: idle_ok_def)
  from detach_insert_head_walk [OF ring] obtain H where
    H: "do { H \<leftarrow> DList_detach c (links s); DList_insert_before idle_list c H } = Some H"
    "walk H idle_list (c # zs) idle_list" by blast
  let ?s = "\<lparr>links = H, last_active = (last_active s)(c := now)\<rparr>"
  have "idle_active now c s = Some ?s"
    using H(1) by (auto simp: idle_active_def bind_simps)
  moreover have "front H = Some (Some c)"
  proof -
    have "c \<noteq> idle_list" using ring by (auto simp: ring_def)
    then show ?thesis using H(2) by (auto simp: front_def DList_empty_def)
  qed
  moreover have "H y \<noteq> None" if "y \<in> set ys" for y
  proof -
    have "dom H = dom (links s)"
      using H(1) unfolding bind_simps
      by (elim exE conjE) (simp add: DList_detach_dom DList_insert_before_dom)
    then show ?thesis using ring_mem [OF ring, of y] that by auto
  qed
  moreover have "cs = c # zs" if "walk H idle_list cs idle_list" "idle_list \<notin> set cs" for cs
    using walk_unique [OF that(1) H(2) that(2)] ring by (auto simp: ring_def)
  ultimately show ?thesis using H(2) by (intro exI [of _ ?s]) simp
qed

lemma idle_active_drops_prefix_witness:
  "\<exists>s1 s2 s'. idle_accept 1 5 idle_empty = Some s1 \<and> idle_accept 2 6 s1 = Some s2 \<and> idle_active 3 6 s2 = Some s' \<and>
     front (links s') = Some (Some 6) \<and> links s' 5 \<noteq> None"
proof -
  obtain s1 s2 where "idle_accept 1 5 idle_empty = Some s1" "idle_accept 2 6 s1 = Some s2" "idle_ok s2 ([5] @ 6 # [])"
    using idle_sample by auto
  then show ?thesis using idle_active_drops_prefix [of s2 "[5]" 6 "[]" 3] by auto
qed

end
