(* ===== verification/MRD_Conn.thy ===== *)
theory MRD_Conn
  imports MRD_StoreCmd MRD_Idle
begin

text \<open>
  Connections (\<^verbatim>\<open>server/MRD_server.cpp\<close>): the framing of replies, the handling of one request and of
  the bytes a connection delivers, what the main loop does for a ready connection, the timers, and
  the end of a run. The system calls are parameters: the result of a \<^verbatim>\<open>read\<close> is the bytes it
  delivered (\<open>None\<close> for an error); a \<^verbatim>\<open>write\<close> maps the bytes it is given to its return value and
  whether \<^verbatim>\<open>errno\<close> is \<^verbatim>\<open>EAGAIN\<close>. \<open>now i\<close> is the clock at the i-th request of a batch.
\<close>

subsection \<open>Replies\<close>

definition response_begin :: "buffer \<Rightarrow> buffer option" where
  "response_begin out = Buffer_append_u32 out 0"

text \<open>The two error branches of \<^verbatim>\<open>response_end\<close> empty the buffer and frame an error.\<close>

definition error_reply :: "u8 \<Rightarrow> string \<Rightarrow> buffer \<Rightarrow> buffer option" where
  "error_reply err what out = do {
     out \<leftarrow> Buffer_append_u32 (Buffer_consume out (data_length out)) 0;
     (out, v) \<leftarrow> out_err out err (ascii what);
     Buffer_patch out (unat v + 4) (le_bytes 4 v)
   }"

text \<open>
  \<^verbatim>\<open>len_ptr\<close> is an offset that may lie before the allocation; it dangles when the second branch
  reallocates.
\<close>

definition response_end :: "buffer \<Rightarrow> u32 \<Rightarrow> buffer option" where
  "response_end out rv = do {
     out \<leftarrow> (if unat rv > MAX_MSG then error_reply ERR_OUT_OF_RANGE ''response is too long'' out else Some out);
     let len_ptr = int (data_end out) - int (unat rv) - 4;
     let allocated = buf_size out;
     out \<leftarrow> (if len_ptr < int (data_begin out) then error_reply ERR_UNEXPECTED ''unexpected error in error'' out
            else Some out);
     oguard (buf_size out = allocated \<and> 0 \<le> len_ptr);
     m \<leftarrow> write_at (nat len_ptr) (map Some (le_bytes 4 rv)) (mem out);
     Some (out\<lparr>mem := m\<rparr>)
   }"

subsection \<open>Requests\<close>

record conn =
  want_read :: bool
  want_write :: bool
  want_close :: bool
  incoming :: buffer
  outgoing :: buffer

definition conn_new :: "buffer \<Rightarrow> buffer \<Rightarrow> conn" where
  "conn_new i out = \<lparr>want_read = True, want_write = False, want_close = False, incoming = i, outgoing = out\<rparr>"

definition try_one_request :: "(bytes \<Rightarrow> u64 parsed) \<Rightarrow> u64 \<Rightarrow> conn \<Rightarrow> server \<Rightarrow> ((bool \<times> conn) \<times> server) option" where
  "try_one_request stod now c s =
    (if data_length (incoming c) < 4 then Some ((False, c), s)
     else do {
       hdr \<leftarrow> Buffer_front (incoming c) 4;
       let len = (le_word hdr :: u32);
       (if unat len > MAX_MSG then Some ((False, c\<lparr>want_close := True\<rparr>), s)
        else if unat (4 + len) > data_length (incoming c) then Some ((False, c), s)
        else do {
          bytes \<leftarrow> Buffer_front (incoming c) (4 + unat len);
          (case parse_req (drop 4 bytes) of
             None \<Rightarrow> Some ((False, c\<lparr>want_close := True\<rparr>), s)
           | Some cmd \<Rightarrow> do {
               out \<leftarrow> response_begin (outgoing c);
               ((out, rv), s) \<leftarrow> do_request stod now cmd out s;
               out \<leftarrow> response_end out rv;
               Some ((True, c\<lparr>incoming := Buffer_consume (incoming c) (unat (4 + len)), outgoing := out\<rparr>), s)
             })
        })
     })"

text \<open>The loop of \<^verbatim>\<open>handle_read\<close> over the complete requests.\<close>

partial_function (option) request_loop ::
  "(bytes \<Rightarrow> u64 parsed) \<Rightarrow> (nat \<Rightarrow> u64) \<Rightarrow> nat \<Rightarrow> conn \<Rightarrow> server \<Rightarrow> (conn \<times> server) option" where
  "request_loop stod now i c s = do {
     ((again, c), s) \<leftarrow> try_one_request stod (now i) c s;
     (if again then request_loop stod now (i + 1) c s else Some (c, s))
   }"

declare request_loop.simps [code]

text \<open>\<^verbatim>\<open>handle_write\<close> also reports the bytes the system took.\<close>

type_synonym write_call = "bytes \<Rightarrow> int \<times> bool"

definition handle_write :: "write_call \<Rightarrow> conn \<Rightarrow> (bytes \<times> conn) option" where
  "handle_write wr c = do {
     data \<leftarrow> Buffer_front (outgoing c) (data_length (outgoing c));
     let (rv, eagain) = wr data;
     (if rv \<le> 0 \<and> \<not> eagain then Some ([], c)
      else if rv \<le> 0 then Some ([], c\<lparr>want_close := True\<rparr>)
      else let c = c\<lparr>outgoing := Buffer_consume (outgoing c) (nat rv)\<rparr> in
        Some (take (nat rv) data,
          if Buffer_empty (outgoing c) then c\<lparr>want_read := True, want_write := False\<rparr> else c))
   }"

definition handle_read :: "(bytes \<Rightarrow> u64 parsed) \<Rightarrow> (nat \<Rightarrow> u64) \<Rightarrow> bytes option \<Rightarrow> write_call \<Rightarrow>
    conn \<Rightarrow> server \<Rightarrow> ((bytes \<times> conn) \<times> server) option" where
  "handle_read stod now got wr c s =
    (case got of
       None \<Rightarrow> Some (([], c\<lparr>want_close := True\<rparr>), s)
     | Some d \<Rightarrow>
         if d = [] then Some (([], c\<lparr>want_close := True\<rparr>), s)
         else do {
           inc \<leftarrow> Buffer_append_bytes (incoming c) d;
           (c, s) \<leftarrow> request_loop stod now 0 (c\<lparr>incoming := inc\<rparr>) s;
           if \<not> Buffer_empty (outgoing c) then do {
             (sent, c) \<leftarrow> handle_write wr (c\<lparr>want_read := False, want_write := True\<rparr>);
             Some ((sent, c), s)
           } else Some (([], c), s)
         })"

subsection \<open>The main loop\<close>

record world =
  srv :: server
  idle :: idle_state
  conns :: "addr \<rightharpoonup> conn"

text \<open>What a poll reports for a connection, with the results of the system calls it leads to.\<close>

record readiness =
  pollin :: bool
  pollout :: bool
  pollerr :: bool
  got :: "bytes option"
  read_wr :: write_call
  poll_wr :: write_call

text \<open>The events a poll asks for: readable, writable.\<close>

definition poll_events :: "conn \<Rightarrow> bool \<times> bool" where
  "poll_events c = (want_read c, want_write c)"

definition accept_conn :: "u64 \<Rightarrow> addr \<Rightarrow> conn \<Rightarrow> world \<Rightarrow> world option" where
  "accept_conn now a c w = do {
     i \<leftarrow> idle_accept now a (idle w);
     Some (w\<lparr>idle := i, conns := (conns w)(a \<mapsto> c)\<rparr>)
   }"

definition service_conn :: "(bytes \<Rightarrow> u64 parsed) \<Rightarrow> (nat \<Rightarrow> u64) \<Rightarrow> u64 \<Rightarrow> addr \<Rightarrow> readiness \<Rightarrow> world \<Rightarrow>
    (bytes \<times> world) option" where
  "service_conn stod now t a r w = do {
     c \<leftarrow> conns w a;
     i \<leftarrow> idle_active t a (idle w);
     ((sent, c), s) \<leftarrow> (if pollin r then handle_read stod now (got r) (read_wr r) c (srv w)
                       else Some (([], c), srv w));
     (sent', c) \<leftarrow> (if pollout r then handle_write (poll_wr r) c else Some ([], c));
     (if pollerr r \<or> want_close c then do {
        i \<leftarrow> conn_destroy a i;
        Some (sent @ sent', w\<lparr>srv := s, idle := i, conns := (conns w)(a := None)\<rparr>)
      } else Some (sent @ sent', w\<lparr>srv := s, idle := i, conns := (conns w)(a \<mapsto> c)\<rparr>))
   }"

subsection \<open>Timers and the end of a run\<close>

text \<open>The second loop of \<^verbatim>\<open>process_timers\<close>, with the keys it removed; \<open>n\<close> works are left.\<close>

fun expire_entries :: "u64 \<Rightarrow> nat \<Rightarrow> server \<Rightarrow> (bytes list \<times> server) option" where
  "expire_entries now 0 s = Some ([], s)"
| "expire_entries now (Suc n) s =
    (case timer_first (ttl s) of
       None \<Rightarrow> Some ([], s)
     | Some (ent, due) \<Rightarrow>
         if due < now then do {
           e \<leftarrow> entries s ent;
           (_, m) \<leftarrow> HMap_erase (g_data s) (str_hash (ekey e)) (entry_eq s ent);
           s \<leftarrow> entry_del now ent (s\<lparr>g_data := m\<rparr>);
           (ks, s) \<leftarrow> expire_entries now n s;
           Some (ekey e # ks, s)
         } else Some ([], s))"

definition process_timers :: "u64 \<Rightarrow> world \<Rightarrow> ((addr list \<times> bytes list) \<times> world) option" where
  "process_timers now w = do {
     (closed, i) \<leftarrow> expire_idle now (idle w);
     (expired, s) \<leftarrow> expire_entries now MAX_WORKS (srv w);
     Some ((closed, expired), w\<lparr>srv := s, idle := i, conns := (conns w) |` (- set closed)\<rparr>)
   }"

text \<open>
  \<^verbatim>\<open>end_run\<close> deletes each entry when the walk has passed it, and the last one after the walk; there
  the address is null when the table is empty.
\<close>

definition end_run :: "u64 \<Rightarrow> server \<Rightarrow> server option" where
  "end_run now s = do {
     (s, last_node) \<leftarrow> HMap_foreach (\<lambda>node (s, last_node).
         (True, (case last_node of None \<Rightarrow> s | Some ent \<Rightarrow> Option.bind s (entry_del now ent), Some (item node))))
       (g_data s) (Some s, None);
     s \<leftarrow> s;
     ent \<leftarrow> last_node;
     s \<leftarrow> entry_del now ent s;
     Some (s\<lparr>g_data := HMap_clear (g_data s), ttl := ([], snd (ttl s))\<rparr>)
   }"

end
