(* ===== verification/MRD_ConnProof.thy ===== *)
theory MRD_ConnProof
  imports MRD_Conn
begin

text \<open>
  What a connection sees: framing of replies, fragmentation and pipelining of requests, bad input,
  and the expiry of entries.
\<close>

subsection \<open>Framing\<close>

lemma enc_u32_le: "le_bytes 4 (of_nat n :: u32) = enc_u32 n"
  by (simp add: enc_u32_def)

lemma enc_u32_nonempty [simp]: "enc_u32 n \<noteq> []"
  by (metis length_enc_u32 list.size(3) zero_neq_numeral)

lemma holds_end:
  assumes "holds b xs" "xs \<noteq> []"
  shows "data_end b = data_begin b + length xs" "data_end b \<le> buf_size b"
  using assms by (auto simp: holds_def buf_ok_def)

lemma response_end_ok:
  assumes out: "holds out (xs @ enc_u32 0 @ body)" and len: "length body \<le> MAX_MSG"
  obtains out' where "response_end out (of_nat (length body)) = Some out'" "holds out' (xs @ frame body)"
proof -
  have max: "MAX_MSG < 2 ^ 32" by (simp add: MAX_MSG_def)
  have u: "unat (of_nat (length body) :: u32) = length body" using len max by (intro unat_u32) simp
  obtain out' where o: "Buffer_patch out (4 + length body) (enc_u32 (length body)) = Some out'"
    "holds out' (xs @ enc_u32 (length body) @ body)"
    using buf.patch_hole [OF out, of "enc_u32 (length body)"] by auto
  have e: "data_end out = data_begin out + length (xs @ enc_u32 0 @ body)"
    by (rule holds_end(1) [OF out]) simp
  have "response_end out (of_nat (length body)) = Buffer_patch out (4 + length body) (enc_u32 (length body))"
    using len e by (simp add: response_end_def u Let_def Buffer_patch_def enc_u32_le nat_diff_distrib
        of_nat_diff nat_add_distrib algebra_simps)
  then show ?thesis using that o by (simp add: frame_def)
qed

text \<open>The error branch: only the framed error remains.\<close>

lemma frame_error_ok:
  assumes "holds out xs" "length (encode (RErr err (ascii what))) < 2 ^ 32"
  obtains out' where "error_reply err what out = Some out'" "holds out' (frame (encode (RErr err (ascii what))))"
    "data_end out' = data_begin out' + 4 + length (encode (RErr err (ascii what)))"
proof -
  let ?e = "encode (RErr err (ascii what))"
  have "holds (Buffer_consume out (data_length out)) []"
    using buf.consume_all [OF assms(1)] assms(1) by (simp add: holds_length)
  then obtain o1 where o1: "Buffer_append_u32 (Buffer_consume out (data_length out)) 0 = Some o1" "holds o1 (enc_u32 0)"
    using append_u32_holds [of _ "[]" 0] by (auto simp: enc_u32_def)
  obtain o2 where o2: "out_err o1 err (ascii what) = Some (o2, of_nat (length ?e))" "holds o2 (enc_u32 0 @ ?e)"
    using out_err_writes [OF o1(2)] unfolding writes_def by blast
  obtain o3 where o3: "Buffer_patch o2 (4 + length ?e) (enc_u32 (length ?e)) = Some o3"
    "holds o3 (enc_u32 (length ?e) @ ?e)"
    using buf.patch_hole [of o2 "[]" "enc_u32 0" ?e "enc_u32 (length ?e)"] o2(2) by auto
  define v :: u32 where "v = of_nat (length ?e)"
  have v: "unat v = length ?e" "le_bytes 4 v = enc_u32 (length ?e)"
    unfolding v_def by (rule unat_u32 [OF assms(2)]) (simp add: enc_u32_def)
  have "error_reply err what out = Buffer_patch o2 (length ?e + 4) (enc_u32 (length ?e))"
    using o1(1) o2(1) unfolding error_reply_def v_def [symmetric]
    by (simp only: Option.bind.bind_lunit prod.case v)
  then have "error_reply err what out = Some o3" using o3(1) by (simp only: add.commute)
  moreover have "holds o3 (frame ?e)" using o3(2) by (simp add: frame_def)
  moreover from this have "data_end o3 = data_begin o3 + length (frame ?e)"
    by (rule holds_end(1)) (simp add: frame_def)
  ultimately show ?thesis using that by simp
qed

lemma response_end_long:
  assumes out: "holds out xs" and rv: "unat rv > MAX_MSG"
  shows "\<exists>out2. holds out2 (frame (encode (RErr ERR_UNEXPECTED (ascii ''unexpected error in error'')))) \<and>
    (response_end out rv = None \<or>
     (\<exists>p m. write_at p (map Some (le_bytes 4 rv)) (mem out2) = Some m \<and> response_end out rv = Some (out2\<lparr>mem := m\<rparr>)))"
proof -
  let ?e1 = "encode (RErr ERR_OUT_OF_RANGE (ascii ''response is too long''))"
  have short: "length ?e1 < 2 ^ 32"
    "length (encode (RErr ERR_UNEXPECTED (ascii ''unexpected error in error''))) < 2 ^ 32"
    by (simp_all add: ascii_def)
  obtain o1 where o1: "error_reply ERR_OUT_OF_RANGE ''response is too long'' out = Some o1" "holds o1 (frame ?e1)"
    "data_end o1 = data_begin o1 + 4 + length ?e1"
    by (rule frame_error_ok [OF out short(1)])
  obtain o2 where o2: "error_reply ERR_UNEXPECTED ''unexpected error in error'' o1 = Some o2"
    "holds o2 (frame (encode (RErr ERR_UNEXPECTED (ascii ''unexpected error in error''))))"
    by (rule frame_error_ok [OF o1(2) short(2)])
  let ?p = "int (data_end o1) - int (unat rv) - 4"
  have "length ?e1 < MAX_MSG" by (simp add: ascii_def MAX_MSG_def)
  then have "?p < int (data_begin o1)" using o1(3) rv by linarith
  then have eq: "response_end out rv = do {
      oguard (buf_size o2 = buf_size o1 \<and> 0 \<le> ?p);
      m \<leftarrow> write_at (nat ?p) (map Some (le_bytes 4 rv)) (mem o2);
      Some (o2\<lparr>mem := m\<rparr>) }"
    using rv o1(1) o2(1) by (simp add: response_end_def Let_def)
  have "\<exists>p m. write_at p (map Some (le_bytes 4 rv)) (mem o2) = Some m \<and> b = o2\<lparr>mem := m\<rparr>"
    if "response_end out rv = Some b" for b
    using that unfolding eq by (auto simp: bind_simps simp del: of_nat_unat)
  then show ?thesis using o2(2) by (cases "response_end out rv") blast+
qed

text \<open>Writing to a connection.\<close>

lemma handle_write_ok:
  assumes out: "holds (outgoing c) ys" and wr: "wr ys = (rv, eagain)" "rv \<le> int (length ys)"
  shows "\<exists>c'. handle_write wr c = Some (take (nat rv) ys, c') \<and>
    holds (outgoing c') (drop (nat rv) ys) \<and> incoming c' = incoming c \<and>
    (want_close c' \<longleftrightarrow> want_close c \<or> rv \<le> 0 \<and> eagain) \<and>
    (if 0 < rv \<and> rv = int (length ys) then want_read c' \<and> \<not> want_write c'
     else want_read c' = want_read c \<and> want_write c' = want_write c)"
proof -
  have front: "Buffer_front (outgoing c) (data_length (outgoing c)) = Some ys"
    using Buffer_front_holds [OF out] holds_length [OF out] by simp
  show ?thesis
  proof (cases "rv \<le> 0")
    case True
    then show ?thesis using front wr out by (cases eagain) (simp_all add: handle_write_def)
  next
    case False
    have le: "nat rv \<le> length ys" using wr(2) by simp
    have h: "holds (Buffer_consume (outgoing c) (nat rv)) (drop (nat rv) ys)" by (rule buf.consume_law [OF out le])
    define c1 where "c1 = c\<lparr>outgoing := Buffer_consume (outgoing c) (nat rv)\<rparr>"
    have "handle_write wr c =
        Some (take (nat rv) ys, if drop (nat rv) ys = [] then c1\<lparr>want_read := True, want_write := False\<rparr> else c1)"
      using False front wr(1) Buffer_empty_holds [OF h] by (simp add: handle_write_def c1_def Let_def)
    then show ?thesis using h False le by (auto simp: c1_def)
  qed
qed

subsection \<open>Requests\<close>

definition msg_len :: "bytes \<Rightarrow> nat" where
  "msg_len bs = unat (le_word (take 4 bs) :: u32)"

text \<open>Input that is the beginning of a message that is not there yet.\<close>

definition incomplete :: "bytes \<Rightarrow> bool" where
  "incomplete bs = (length bs < 4 \<or> msg_len bs \<le> MAX_MSG \<and> length bs < 4 + msg_len bs)"

text \<open>Input that starts with a message that is too long or not a request.\<close>

definition malformed :: "bytes \<Rightarrow> bool" where
  "malformed bs = (4 \<le> length bs \<and> (msg_len bs > MAX_MSG \<or>
     4 + msg_len bs \<le> length bs \<and> parse_req (take (msg_len bs) (drop 4 bs)) = None))"

definition requestable :: "(bytes \<Rightarrow> u64 parsed) \<Rightarrow> u64 \<Rightarrow> bytes list \<Rightarrow> db \<Rightarrow> bool" where
  "requestable stod now cmd d = (cmd \<noteq> [] \<and> length cmd \<le> 500 \<and> length (enc_req cmd) \<le> MAX_MSG \<and>
     card (dom (dval d)) < no_idx \<and> answerable stod (classify cmd) d \<and>
     (\<forall>rp d'. spec stod now (classify cmd) d rp d' \<longrightarrow> length (encode rp) \<le> MAX_MSG))"

lemma msg_len_frame: "length body < 2 ^ 32 \<Longrightarrow> msg_len (frame body @ rest) = length body"
  by (simp add: msg_len_def frame_def enc_u32_def unat_u32)

lemma four_plus: "msg_len bs \<le> MAX_MSG \<Longrightarrow> unat (4 + (le_word (take 4 bs) :: u32)) = 4 + msg_len bs"
  unfolding msg_len_def MAX_MSG_def by (subst unat_add_lem [THEN iffD1]) simp_all

lemma try_one_steps:
  assumes "holds (incoming c) bs"
  shows "incomplete bs \<Longrightarrow> try_one_request stod now c s = Some ((False, c), s)"
    "malformed bs \<Longrightarrow> try_one_request stod now c s = Some ((False, c\<lparr>want_close := True\<rparr>), s)"
proof -
  have len: "data_length (incoming c) = length bs" by (rule holds_length [OF assms])
  have front: "Buffer_front (incoming c) n = Some (take n bs)" if "n \<le> length bs" for n
    by (rule Buffer_front_holds [OF assms that])
  show "try_one_request stod now c s = Some ((False, c), s)" if i: "incomplete bs"
  proof (cases "length bs < 4")
    case True
    then show ?thesis by (simp add: try_one_request_def len)
  next
    case False
    then have "msg_len bs \<le> MAX_MSG" "length bs < 4 + msg_len bs" using i by (auto simp: incomplete_def)
    then show ?thesis using False four_plus [of bs] front [of 4]
      by (simp add: try_one_request_def len Let_def msg_len_def [symmetric])
  qed
  show "try_one_request stod now c s = Some ((False, c\<lparr>want_close := True\<rparr>), s)" if m: "malformed bs"
  proof (cases "msg_len bs > MAX_MSG")
    case True
    then show ?thesis using m front [of 4]
      by (simp add: try_one_request_def len Let_def msg_len_def [symmetric] malformed_def)
  next
    case False
    then have "4 \<le> length bs" "4 + msg_len bs \<le> length bs" "parse_req (take (msg_len bs) (drop 4 bs)) = None"
      using m by (auto simp: malformed_def)
    then show ?thesis using False four_plus [of bs] front [of 4] front [of "4 + msg_len bs"]
      by (simp add: try_one_request_def len Let_def msg_len_def [symmetric] drop_take)
  qed
qed

lemma enc_req_strings: "length (enc_req cmd) \<le> MAX_MSG \<Longrightarrow> \<forall>w \<in> set cmd. length w < 2 ^ 32"
proof
  fix w assume "length (enc_req cmd) \<le> MAX_MSG" "w \<in> set cmd"
  moreover have "5 + length w \<le> (\<Sum>w\<leftarrow>cmd. 5 + length w)" by (rule member_le_sum_list) (use \<open>w \<in> set cmd\<close> in auto)
  ultimately show "length w < 2 ^ 32" by (simp add: length_enc_req MAX_MSG_def)
qed

lemma try_one_request_ok:
  assumes inc: "holds (incoming c) (frame (enc_req cmd) @ rest)" and out: "holds (outgoing c) ys"
    and r: "rep s loc d" and ok: "requestable stod now cmd d"
  obtains c' s' loc' rp d' where "try_one_request stod now c s = Some ((True, c'), s')"
    "holds (incoming c') rest" "holds (outgoing c') (ys @ frame (encode rp))" "rep s' loc' d'"
    "spec stod now (classify cmd) d rp d'" "c' = c\<lparr>incoming := incoming c', outgoing := outgoing c'\<rparr>"
proof -
  let ?bs = "frame (enc_req cmd) @ rest" and ?n = "length (enc_req cmd)"
  have max: "?n \<le> MAX_MSG" "?n < 2 ^ 32" using ok by (auto simp: requestable_def MAX_MSG_def)
  have len: "data_length (incoming c) = 4 + ?n + length rest" using holds_length [OF inc] by simp
  have ml: "msg_len ?bs = ?n" by (rule msg_len_frame [OF max(2)])
  have front: "Buffer_front (incoming c) 4 = Some (take 4 ?bs)" "Buffer_front (incoming c) (4 + ?n) = Some (frame (enc_req cmd))"
    using Buffer_front_holds [OF inc, of 4] Buffer_front_holds [OF inc, of "4 + ?n"] by simp_all
  have parse: "parse_req (drop 4 (frame (enc_req cmd))) = Some cmd"
    using parse_enc_req [OF _ enc_req_strings [OF max(1)]] ok by (simp add: frame_def requestable_def)
  obtain o1 where o1: "response_begin (outgoing c) = Some o1" "holds o1 (ys @ enc_u32 0)"
    using append_u32_holds [OF out, of 0] unfolding response_begin_def enc_u32_def by auto
  have "served (do_request stod now cmd o1 s) (ys @ enc_u32 0) (spec stod now (classify cmd) d)"
    using do_request_ok [OF r o1(2)] ok unfolding requestable_def by blast
  then obtain o2 s' loc' rp d' where q: "do_request stod now cmd o1 s = Some ((o2, of_nat (length (encode rp))), s')"
    "holds o2 ((ys @ enc_u32 0) @ encode rp)" "rep s' loc' d'" "spec stod now (classify cmd) d rp d'"
    unfolding served_def by blast
  have short: "length (encode rp) \<le> MAX_MSG" using ok q(4) by (auto simp: requestable_def)
  have "holds o2 (ys @ enc_u32 0 @ encode rp)" using q(2) by simp
  then obtain o3 where o3: "response_end o2 (of_nat (length (encode rp))) = Some o3" "holds o3 (ys @ frame (encode rp))"
    by (rule response_end_ok [OF _ short])
  let ?c = "c\<lparr>incoming := Buffer_consume (incoming c) (4 + ?n), outgoing := o3\<rparr>"
  have "try_one_request stod now c s = Some ((True, ?c), s')"
    using max(1) front parse o1(1) q(1) o3(1) four_plus [of ?bs] ml msg_len_frame [OF max(2), of "[]"]
    by (simp add: try_one_request_def len Let_def msg_len_def [symmetric])
  moreover have "holds (Buffer_consume (incoming c) (4 + ?n)) rest"
    using buf.consume_appended [OF inc] by simp
  ultimately show ?thesis using that [of ?c s' rp loc' d'] o3(2) q(3,4) by simp
qed

text \<open>Batches of requests.\<close>

fun batch :: "(bytes \<Rightarrow> u64 parsed) \<Rightarrow> (nat \<Rightarrow> u64) \<Rightarrow> nat \<Rightarrow> bytes list list \<Rightarrow> db \<Rightarrow> reply list \<Rightarrow> db \<Rightarrow> bool" where
  "batch stod now i [] d rps d' = (rps = [] \<and> d' = d)"
| "batch stod now i (cmd # cmds) d rps d' =
    (\<exists>rp rps' d1. rps = rp # rps' \<and> spec stod (now i) (classify cmd) d rp d1 \<and>
       batch stod now (Suc i) cmds d1 rps' d')"

fun batch_ok :: "(bytes \<Rightarrow> u64 parsed) \<Rightarrow> (nat \<Rightarrow> u64) \<Rightarrow> nat \<Rightarrow> bytes list list \<Rightarrow> db \<Rightarrow> bool" where
  "batch_ok stod now i [] d = True"
| "batch_ok stod now i (cmd # cmds) d = (requestable stod (now i) cmd d \<and>
     (\<forall>rp d'. spec stod (now i) (classify cmd) d rp d' \<longrightarrow> batch_ok stod now (Suc i) cmds d'))"

definition requests :: "bytes list list \<Rightarrow> bytes" where
  "requests cmds = concat (map (\<lambda>cmd. frame (enc_req cmd)) cmds)"

definition replies :: "reply list \<Rightarrow> bytes" where
  "replies rps = concat (map (\<lambda>rp. frame (encode rp)) rps)"

lemma request_loop_ok:
  assumes "holds (incoming c) (requests cmds @ rest)" "incomplete rest \<or> malformed rest" "holds (outgoing c) ys"
    "rep s loc d" "batch_ok stod now i cmds d"
  shows "\<exists>c' s' loc' rps d'. request_loop stod now i c s = Some (c', s') \<and>
    holds (incoming c') rest \<and> holds (outgoing c') (ys @ replies rps) \<and> rep s' loc' d' \<and>
    batch stod now i cmds d rps d' \<and>
    c' = c\<lparr>want_close := (malformed rest \<or> want_close c), incoming := incoming c', outgoing := outgoing c'\<rparr>"
  using assms
proof (induction cmds arbitrary: c i s loc d ys)
  case Nil
  have "\<not> malformed rest \<Longrightarrow> incomplete rest" using Nil.prems(2) by blast
  then have "request_loop stod now i c s = Some (c\<lparr>want_close := (malformed rest \<or> want_close c)\<rparr>, s)"
    using try_one_steps [of c rest stod "now i" s] Nil.prems(1)
    by (cases "malformed rest") (simp_all add: request_loop.simps [of stod now i] requests_def)
  then show ?case using Nil.prems by (auto simp: requests_def replies_def)
next
  case (Cons cmd cmds)
  have inc: "holds (incoming c) (frame (enc_req cmd) @ requests cmds @ rest)"
    using Cons.prems(1) by (simp add: requests_def)
  have ok: "requestable stod (now i) cmd d" using Cons.prems(5) by simp
  obtain c1 s1 loc1 rp d1 where 1: "try_one_request stod (now i) c s = Some ((True, c1), s1)"
    "holds (incoming c1) (requests cmds @ rest)" "holds (outgoing c1) (ys @ frame (encode rp))" "rep s1 loc1 d1"
    "spec stod (now i) (classify cmd) d rp d1" "c1 = c\<lparr>incoming := incoming c1, outgoing := outgoing c1\<rparr>"
    by (rule try_one_request_ok [OF inc Cons.prems(3,4) ok])
  have "batch_ok stod now (Suc i) cmds d1" using Cons.prems(5) 1(5) by simp
  from Cons.IH [OF 1(2) Cons.prems(2) 1(3,4) this] obtain c' s' loc' rps d' where
    2: "request_loop stod now (Suc i) c1 s1 = Some (c', s')" "holds (incoming c') rest"
      "holds (outgoing c') ((ys @ frame (encode rp)) @ replies rps)" "rep s' loc' d'"
      "batch stod now (Suc i) cmds d1 rps d'"
      "c' = c1\<lparr>want_close := (malformed rest \<or> want_close c1), incoming := incoming c', outgoing := outgoing c'\<rparr>"
    by blast
  have "request_loop stod now i c s = Some (c', s')"
    using 1(1) 2(1) by (simp add: request_loop.simps [of stod now i])
  moreover have "holds (outgoing c') (ys @ replies (rp # rps))" using 2(3) by (simp add: replies_def)
  moreover have "batch stod now i (cmd # cmds) d (rp # rps) d'" using 1(5) 2(5) by auto
  moreover have "c' = c\<lparr>want_close := (malformed rest \<or> want_close c), incoming := incoming c', outgoing := outgoing c'\<rparr>"
    by (subst 2(6), subst (1 2) 1(6)) simp
  ultimately show ?case using 2(2,4) by blast
qed

text \<open>A connection asks for input when all of its output was sent, and otherwise for room.\<close>

definition asks :: "conn \<Rightarrow> bytes \<Rightarrow> bool" where
  "asks c ys = (poll_events c = (ys = [], ys \<noteq> []))"

lemma handle_write_asks:
  assumes "if 0 < rv \<and> rv = int (length ys) then want_read c' \<and> \<not> want_write c'
     else want_read c' = want_read c \<and> want_write c' = want_write c" "rv \<le> int (length ys)" "asks c ys"
  shows "asks c' (drop (nat rv) ys)"
proof (cases "0 < rv \<and> rv = int (length ys)")
  case True
  then show ?thesis using assms(1) by (auto simp: asks_def poll_events_def)
next
  case False
  then have "0 < length ys \<Longrightarrow> nat rv < length ys" using assms(2) by arith
  then have "drop (nat rv) ys = [] \<longleftrightarrow> ys = []" by (cases ys) auto
  then show ?thesis using assms(1,3) False by (simp add: asks_def poll_events_def split: if_splits)
qed

lemma handle_read_ok:
  assumes inc: "holds (incoming c) p" and inp: "inp \<noteq> []" "p @ inp = requests cmds @ rest"
    and rest: "incomplete rest \<or> malformed rest" and out: "holds (outgoing c) ys"
    and r: "rep s loc d" and ok: "batch_ok stod now 0 cmds d"
    and wr: "\<And>data. fst (wr data) \<le> int (length data)"
  shows "\<exists>sent c' s' loc' rps d' left. handle_read stod now (Some inp) wr c s = Some ((sent, c'), s') \<and>
    batch stod now 0 cmds d rps d' \<and> rep s' loc' d' \<and> holds (incoming c') rest \<and>
    holds (outgoing c') left \<and> sent @ left = ys @ replies rps \<and> (malformed rest \<or> want_close c \<longrightarrow> want_close c') \<and>
    (want_close c' \<longrightarrow> malformed rest \<or> want_close c \<or> (\<exists>data. fst (wr data) \<le> 0 \<and> snd (wr data))) \<and>
    (asks c ys \<longrightarrow> asks c' left)"
proof -
  obtain b where b: "Buffer_append_bytes (incoming c) inp = Some b" "holds b (requests cmds @ rest)"
    using buf.append_law [OF inc, of inp] inp(2) by auto
  let ?c = "c\<lparr>incoming := b\<rparr>"
  obtain c' s' loc' rps d' where l: "request_loop stod now 0 ?c s = Some (c', s')"
    "holds (incoming c') rest" "holds (outgoing c') (ys @ replies rps)" "rep s' loc' d'"
    "batch stod now 0 cmds d rps d'"
    "c' = ?c\<lparr>want_close := (malformed rest \<or> want_close ?c), incoming := incoming c', outgoing := outgoing c'\<rparr>"
    using request_loop_ok [of ?c cmds rest ys s loc d stod now 0] b(2) rest out r ok by auto
  have mal: "want_close c' \<longleftrightarrow> malformed rest \<or> want_close c" by (subst l(6)) simp
  have ev: "poll_events c' = poll_events c" by (subst l(6)) (simp add: poll_events_def)
  show ?thesis
  proof (cases "ys @ replies rps = []")
    case True
    then have "handle_read stod now (Some inp) wr c s = Some (([], c'), s')"
      using inp(1) b(1) l(1) Buffer_empty_holds [OF l(3)] by (simp add: handle_read_def)
    moreover have "asks c ys \<longrightarrow> asks c' []" using True ev by (simp add: asks_def)
    ultimately show ?thesis using l True mal by fastforce
  next
    case False
    let ?w = "c'\<lparr>want_read := False, want_write := True\<rparr>"
    obtain rv eagain where w: "wr (ys @ replies rps) = (rv, eagain)" by fastforce
    have out': "holds (outgoing ?w) (ys @ replies rps)" using l(3) by simp
    have "rv \<le> int (length (ys @ replies rps))" using wr [of "ys @ replies rps"] w by simp
    from handle_write_ok [of ?w "ys @ replies rps" wr rv eagain, OF out' w this] obtain c2 where
      c2: "handle_write wr ?w = Some (take (nat rv) (ys @ replies rps), c2)"
        "holds (outgoing c2) (drop (nat rv) (ys @ replies rps))" "incoming c2 = incoming ?w"
        "want_close c2 \<longleftrightarrow> want_close ?w \<or> rv \<le> 0 \<and> eagain"
        "if 0 < rv \<and> rv = int (length (ys @ replies rps)) then want_read c2 \<and> \<not> want_write c2
         else want_read c2 = want_read ?w \<and> want_write c2 = want_write ?w" by blast
    have "asks ?w (ys @ replies rps)" using False by (simp add: asks_def poll_events_def)
    then have asks: "asks c2 (drop (nat rv) (ys @ replies rps))" by (rule handle_write_asks [OF c2(5) \<open>rv \<le> _\<close>])
    have "handle_read stod now (Some inp) wr c s = Some ((take (nat rv) (ys @ replies rps), c2), s')"
      using False inp(1) b(1) l(1) Buffer_empty_holds [OF l(3)] c2(1) by (simp add: handle_read_def)
    moreover have "take (nat rv) (ys @ replies rps) @ drop (nat rv) (ys @ replies rps) = ys @ replies rps"
      by (rule append_take_drop_id)
    moreover have "rv \<le> 0 \<and> eagain \<longrightarrow> (\<exists>data. fst (wr data) \<le> 0 \<and> snd (wr data))" by (metis w fst_conv snd_conv)
    moreover have "holds (incoming c2) rest" "want_close c2 \<longleftrightarrow> malformed rest \<or> want_close c \<or> rv \<le> 0 \<and> eagain"
      using l(2) c2(3,4) mal by auto
    ultimately show ?thesis using l(4,5) c2(2) asks by blast
  qed
qed

subsection \<open>Expiry\<close>

lemma entry_eq_key: "entries s a = Some e \<Longrightarrow> entry_eq s a = key_eq s (ekey e)"
  by (rule ext) (auto simp: entry_eq_def key_eq_def split: option.splits)

lemma entry_del_ttl:
  assumes "entry_del now a s = Some s'" "timers_ok (ttl s)" "timer_due (ttl s) a \<noteq> None"
  shows "ttl s' = timer_cancel (ttl s) a"
  using assms entry_set_ttl_cancel [of "ttl s" "- 1" now a]
  by (auto simp: entry_del_def set_ttl_def bind_simps)

text \<open>The loop is the drain of the timer queue, with the keys of the entries it reports.\<close>

lemma expire_entries_drain:
  assumes "rep s loc d" "drain timer_first timer_cancel now n (ttl s) = (rs, q)"
  shows "\<exists>ks s' loc'. expire_entries now n s = Some (ks, s') \<and> rep s' loc' (fold drop_key ks d) \<and>
    ttl s' = q \<and> map loc ks = map Some rs"
  using assms
proof (induction n arbitrary: s loc d rs)
  case 0
  then show ?case by auto
next
  case (Suc n)
  note p = rep_parts [OF Suc.prems(1)]
  have tok: "timers_ok (ttl s)" using p(4) by (simp add: timed_def)
  show ?case
  proof (cases "\<exists>a v. timer_first (ttl s) = Some (a, v) \<and> v < now")
    case False
    then have "rs = []" "q = ttl s" "expire_entries now (Suc n) s = Some ([], s)"
      using Suc.prems(2) by (auto split: option.splits if_splits)
    then show ?thesis using Suc.prems(1) by auto
  next
    case True
    then obtain a v where f: "timer_first (ttl s) = Some (a, v)" "v < now" by blast
    obtain rs' where rs: "drain timer_first timer_cancel now n (timer_cancel (ttl s) a) = (rs', q)" "rs = a # rs'"
      using Suc.prems(2) f by (auto split: prod.splits)
    have due: "timer_due (ttl s) a = Some v" by (rule tq.first_due [OF tok f(1)])
    then have "a \<in> dom (entries s)" using p(4) by (auto simp: timed_def)
    then obtain e where e: "entries s a = Some e" by auto
    have k: "loc (ekey e) = Some a" by (rule located_key [OF p(1) e])
    obtain m where m: "HMap_erase (g_data s) (str_hash (ekey e)) (key_eq s (ekey e)) = Some (Some (loc_node loc (ekey e)), m)"
      "hmap_ok m" "hmap_nodes m = image_mset (loc_node loc) (mset_set (dom loc - {ekey e}))"
      by (rule erase_present [OF Suc.prems(1) k])
    obtain s1 where s1: "entry_del now a (s\<lparr>g_data := m\<rparr>) = Some s1" "rep s1 (loc(ekey e := None)) (drop_key (ekey e) d)"
      by (rule entry_del_ok [OF Suc.prems(1) k m(2,3)])
    have t1: "ttl s1 = timer_cancel (ttl s) a"
      using entry_del_ttl [OF s1(1)] tok due by simp
    obtain ks s' loc' where ih: "expire_entries now n s1 = Some (ks, s')" "rep s' loc' (fold drop_key ks (drop_key (ekey e) d))"
      "ttl s' = q" "map (loc(ekey e := None)) ks = map Some rs'"
      using Suc.IH [OF s1(2), unfolded t1, OF rs(1)] by blast
    have "expire_entries now (Suc n) s = Some (ekey e # ks, s')"
      using f e m(1) s1(1) ih(1) entry_eq_key [OF e] by simp
    moreover have "map loc ks = map Some rs'"
    proof -
      have "loc x = (loc(ekey e := None)) x" if "x \<in> set ks" for x
      proof -
        have "(loc(ekey e := None)) x \<in> set (map (loc(ekey e := None)) ks)" using that by simp
        then show ?thesis unfolding ih(4) by (auto split: if_splits)
      qed
      then show ?thesis using ih(4) by (metis map_cong)
    qed
    ultimately show ?thesis using ih(2,3) rs(2) k by auto
  qed
qed

lemma drop_keys:
  "ddue (fold drop_key ks d) = ddue d |` (- set ks)" "dval (fold drop_key ks d) = dval d |` (- set ks)"
  by (induction ks arbitrary: d) (auto simp: drop_key_def restrict_map_def fun_eq_iff)

lemma expire_entries_ok:
  assumes r: "rep s loc d"
  shows "\<exists>ks s' loc'. expire_entries now n s = Some (ks, s') \<and> rep s' loc' (fold drop_key ks d) \<and>
    distinct ks \<and> length ks \<le> n \<and> (\<forall>k \<in> set ks. \<exists>v. ddue d k = Some v \<and> v < now) \<and>
    (length ks < n \<longrightarrow> (\<forall>k v. ddue d k = Some v \<longrightarrow> k \<notin> set ks \<longrightarrow> now \<le> v))"
proof -
  note p = rep_parts [OF r]
  have tok: "timers_ok (ttl s)" using p(4) by (simp add: timed_def)
  obtain rs q where dr: "drain timer_first timer_cancel now n (ttl s) = (rs, q)" by (rule prod.exhaust)
  obtain ks s' loc' where e: "expire_entries now n s = Some (ks, s')" "rep s' loc' (fold drop_key ks d)"
    "ttl s' = q" "map loc ks = map Some rs"
    using expire_entries_drain [OF r dr] by blast
  note sound = tq.drain_sound [OF tok dr]
  have len: "length ks = length rs" using arg_cong [OF e(4), of length] by simp
  have "distinct (map loc ks)" unfolding e(4) using sound by (simp add: distinct_map)
  then have "distinct ks" by (rule distinct_map [THEN iffD1, THEN conjunct1])
  moreover have "\<exists>v. ddue d k = Some v \<and> v < now" if "k \<in> set ks" for k
  proof -
    have "loc k \<in> set (map loc ks)" using that by simp
    then obtain a where "a \<in> set rs" "loc k = Some a" unfolding e(4) by auto
    then show ?thesis using sound rep_due [OF r] by auto
  qed
  moreover have "now \<le> v" if "length ks < n" "ddue d k = Some v" "k \<notin> set ks" for k v
  proof -
    have "ddue (fold drop_key ks d) k = Some v" using that(2,3) by (simp add: drop_keys restrict_map_def)
    then obtain a where a: "loc' k = Some a" "timer_due q a = Some v"
      using rep_parts(4) [OF e(2)] by (auto simp: timed_def e(3) bind_simps)
    then show ?thesis using tq.drain_complete [OF tok dr] that(1) len by (metis not_less)
  qed
  ultimately show ?thesis using e(1,2) sound len by metis
qed

subsection \<open>The end of a run\<close>

text \<open>What is left of the invariant while the entries are deleted under the index.\<close>

definition deletable :: "server \<Rightarrow> bool" where
  "deletable s = (timers_ok (ttl s) \<and> dom (timer_due (ttl s)) \<subseteq> dom (entries s) \<and>
     (\<forall>a e. entries s a = Some e \<longrightarrow> (\<exists>v. val_rep e v)))"

lemma rep_deletable: "rep s loc d \<Longrightarrow> deletable s"
proof -
  assume r: "rep s loc d"
  note p = rep_parts [OF r]
  have "\<exists>v. val_rep e v" if e: "entries s a = Some e" for a e
  proof -
    have l: "loc (ekey e) = Some a" by (rule located_key [OF p(1) e])
    then obtain v where "dval d (ekey e) = Some v" using rep_dom [OF r, of "ekey e"] by (cases "dval d (ekey e)") auto
    then show ?thesis using valued_entry [OF p(3) l _ e] by blast
  qed
  then show ?thesis using p(4) by (auto simp: deletable_def timed_def)
qed

lemma entry_del_deletable:
  assumes "deletable s" "entries s a = Some e"
  obtains s' where "entry_del now a s = Some s'" "deletable s'" "entries s' = (entries s)(a := None)"
    "g_data s' = g_data s"
proof -
  obtain t where t: "entry_set_ttl now (ttl s) a (- 1) = Some t" "timers_ok t"
    "timer_due t = (timer_due (ttl s))(a := None)"
    by (rule entry_set_ttl_due [of "ttl s" "- 1" now a]) (use assms(1) in \<open>auto simp: deletable_def\<close>)
  obtain v where v: "val_rep e v" using assms unfolding deletable_def by blast
  let ?s = "s\<lparr>entries := (entries s)(a := None), ttl := t\<rparr>"
  have "entry_del now a s = Some ?s"
    using t(1) assms(2) val_rep_destroy [OF v] by (simp add: entry_del_def set_ttl_def)
  moreover have "deletable ?s" using assms(1) t(2) by (auto simp: deletable_def t(3))
  ultimately show ?thesis using that by simp
qed

definition sweep :: "u64 \<Rightarrow> addr hnode \<Rightarrow> server option \<times> addr option \<Rightarrow> server option \<times> addr option" where
  "sweep now node = (\<lambda>(s, last_node).
     (case last_node of None \<Rightarrow> s | Some ent \<Rightarrow> Option.bind s (entry_del now ent), Some (item node)))"

lemma sweep_ok:
  assumes "deletable s" "xs = (case l of None \<Rightarrow> [] | Some a \<Rightarrow> [a]) @ map item ns" "distinct xs" "set xs \<subseteq> dom (entries s)"
  shows "\<exists>s'. fold (sweep now) ns (Some s, l) = (Some s', if xs = [] then None else Some (last xs)) \<and>
    deletable s' \<and> entries s' = entries s |` (- set (butlast xs)) \<and> g_data s' = g_data s"
  using assms
proof (induction ns arbitrary: s l xs)
  case Nil
  then show ?case by (cases l) (auto simp: restrict_map_def)
next
  case (Cons n ns)
  show ?case
  proof (cases l)
    case None
    have "fold (sweep now) (n # ns) (Some s, l) = fold (sweep now) ns (Some s, Some (item n))"
      by (simp add: sweep_def None)
    then show ?thesis using Cons.IH [OF Cons.prems(1), of xs "Some (item n)"] Cons.prems None by simp
  next
    case (Some a)
    then have xs: "xs = a # item n # map item ns" using Cons.prems(2) by simp
    then obtain e where "entries s a = Some e" using Cons.prems(4) by auto
    then obtain s1 where s1: "entry_del now a s = Some s1" "deletable s1" "entries s1 = (entries s)(a := None)"
      "g_data s1 = g_data s" by (rule entry_del_deletable [OF Cons.prems(1)])
    have f: "fold (sweep now) (n # ns) (Some s, l) = fold (sweep now) ns (Some s1, Some (item n))"
      by (simp add: sweep_def Some s1(1))
    have "\<exists>s'. fold (sweep now) ns (Some s1, Some (item n)) = (Some s', if tl xs = [] then None else Some (last (tl xs))) \<and>
      deletable s' \<and> entries s' = entries s1 |` (- set (butlast (tl xs))) \<and> g_data s' = g_data s1"
    proof (rule Cons.IH [OF s1(2)])
      have "a \<notin> set (tl xs)" "set (tl xs) \<subseteq> set xs" using Cons.prems(3) xs by auto
      then show "set (tl xs) \<subseteq> dom (entries s1)" using Cons.prems(4) unfolding s1(3) by auto
    qed (use xs Cons.prems(3) in auto)
    then show ?thesis unfolding f using xs s1(3,4) by (auto simp: restrict_map_def fun_eq_iff)
  qed
qed

lemma walk_items:
  assumes "rep s loc d"
  shows "distinct (map item (walk_order (g_data s)))" "set (map item (walk_order (g_data s))) = dom (entries s)"
proof -
  note p = rep_parts [OF assms]
  have fin: "finite (dom loc)" using p(1) by (simp add: located_def)
  have "mset (map item (walk_order (g_data s))) = image_mset item (hmap_nodes (g_data s))"
    using HMap_foreach_all(2) [of "g_data s"] p(2) by (simp add: indexed_def)
  then have m: "mset (map item (walk_order (g_data s))) = image_mset (\<lambda>k. the (loc k)) (mset_set (dom loc))"
    using p(2) by (simp add: indexed_iff loc_node_def image_mset.compositionality comp_def)
  have "inj_on (\<lambda>k. the (loc k)) (dom loc)"
    using located_inj [OF p(1)] by (intro inj_onI) (auto simp: domIff)
  then have m': "mset (map item (walk_order (g_data s))) = mset_set ((\<lambda>k. the (loc k)) ` dom loc)"
    using m by (simp add: image_mset_mset_set)
  then show "distinct (map item (walk_order (g_data s)))"
    using fin finite_distinct_list [of "(\<lambda>k. the (loc k)) ` dom loc"] mset_eq_imp_distinct_iff mset_set_set
    by (metis finite_imageI)
  have "set (map item (walk_order (g_data s))) = (\<lambda>k. the (loc k)) ` dom loc"
    using arg_cong [OF m', of set_mset] fin by simp
  also have "\<dots> = dom (entries s)"
    using located_entry [OF p(1)] located_key [OF p(1)] by (force simp: domIff image_iff)
  finally show "set (map item (walk_order (g_data s))) = dom (entries s)" .
qed

lemma end_run_ok:
  assumes r: "rep s loc d"
  shows "if dval d = Map.empty then end_run now s = None
    else \<exists>s'. end_run now s = Some s' \<and> entries s' = Map.empty \<and> fst (ttl s') = [] \<and> hmap_nodes (g_data s') = {#}"
proof -
  note p = rep_parts [OF r]
  let ?xs = "map item (walk_order (g_data s))"
  have walk: "HMap_foreach (\<lambda>node st. (True, sweep now node st)) (g_data s) (Some s, None) =
      Some (fold (sweep now) (walk_order (g_data s)) (Some s, None))"
    by (rule HMap_foreach_all(1)) (use p(2) in \<open>simp add: indexed_def\<close>)
  have body: "(\<lambda>node st. (True, sweep now node st)) = (\<lambda>node (s, last_node).
         (True, (case last_node of None \<Rightarrow> s | Some ent \<Rightarrow> Option.bind s (entry_del now ent), Some (item node))))"
    by (simp add: sweep_def fun_eq_iff)
  have "\<exists>s1. fold (sweep now) (walk_order (g_data s)) (Some s, None) =
      (Some s1, if ?xs = [] then None else Some (last ?xs)) \<and> deletable s1 \<and>
    entries s1 = entries s |` (- set (butlast ?xs)) \<and> g_data s1 = g_data s"
    by (rule sweep_ok [OF rep_deletable [OF r] _ walk_items(1) [OF r]]) (simp_all add: walk_items(2) [OF r, simplified])
  then obtain s1 where s1: "fold (sweep now) (walk_order (g_data s)) (Some s, None) =
      (Some s1, if ?xs = [] then None else Some (last ?xs))" "deletable s1"
    "entries s1 = entries s |` (- set (butlast ?xs))" "g_data s1 = g_data s"
    by (elim exE conjE)
  have empty: "?xs = [] \<longleftrightarrow> dval d = Map.empty"
  proof -
    have "?xs = [] \<longleftrightarrow> dom (entries s) = {}"
      unfolding walk_items(2) [OF r, symmetric] by simp
    also have "\<dots> \<longleftrightarrow> dom loc = {}" using located_entry [OF p(1)] located_key [OF p(1)] by (fastforce simp: domIff)
    also have "\<dots> \<longleftrightarrow> dom (dval d) = {}" using p(3) by (simp add: valued_def)
    finally show ?thesis by simp
  qed
  show ?thesis
  proof (cases "?xs = []")
    case True
    then show ?thesis using empty walk s1(1) by (simp add: end_run_def body [symmetric])
  next
    case False
    have eq: "butlast ?xs @ [last ?xs] = ?xs" by (rule append_butlast_last_id [OF False])
    have "distinct (butlast ?xs @ [last ?xs])" unfolding eq by (rule walk_items(1) [OF r])
    then have ne: "last ?xs \<notin> set (butlast ?xs)" by simp
    have split: "set ?xs = insert (last ?xs) (set (butlast ?xs))" using arg_cong [OF eq, of set] by simp
    then have "last ?xs \<in> dom (entries s)" unfolding walk_items(2) [OF r, symmetric] by simp
    then have "last ?xs \<in> dom (entries s1)" unfolding s1(3) dom_restrict using ne by simp
    then obtain e where "entries s1 (last ?xs) = Some e" by auto
    then obtain s2 where s2: "entry_del now (last ?xs) s1 = Some s2" "entries s2 = (entries s1)(last ?xs := None)"
      "g_data s2 = g_data s1" by (rule entry_del_deletable [OF s1(2)])
    have "entries s2 a = None" for a
    proof (cases "a \<in> dom (entries s)")
      case True
      then have "a = last ?xs \<or> a \<in> set (butlast ?xs)" using walk_items(2) [OF r] split by auto
      then show ?thesis by (auto simp: s2(2) s1(3) restrict_map_def)
    qed (auto simp: s2(2) s1(3) restrict_map_def domIff)
    then have "entries s2 = Map.empty" by (rule ext)
    moreover have "hmap_nodes (HMap_clear (g_data s)) = {#}" using HMap_clear_ok [of "g_data s"] by simp
    ultimately show ?thesis using False empty walk s1(1,4) s2
      by (simp add: end_run_def body [symmetric])
  qed
qed

end
