(* ===== verification/MRD_Run.thy ===== *)
theory MRD_Run
  imports MRD_ConnProof
begin

text \<open>
  The server as a state machine: its steps are the requests it answers and the expiry of entries.
  Every run is a run of the abstract database, with the same replies and the same keys removed.
\<close>

subsection \<open>Runs and simulations\<close>

inductive runs :: "('s \<Rightarrow> 'e \<Rightarrow> 'o \<Rightarrow> 's \<Rightarrow> bool) \<Rightarrow> 's \<Rightarrow> ('e \<times> 'o) list \<Rightarrow> 's \<Rightarrow> bool" for step where
  stop: "runs step s [] s"
| more: "step s e out s1 \<Longrightarrow> runs step s1 tr s' \<Longrightarrow> runs step s ((e, out) # tr) s'"

inductive_simps runs_Nil [simp]: "runs step s [] s'"
inductive_simps runs_Cons [simp]: "runs step s (x # tr) s'"

lemma runs_append: "runs step s (tr @ tr') s' \<longleftrightarrow> (\<exists>s1. runs step s tr s1 \<and> runs step s1 tr' s')"
  by (induction tr arbitrary: s) auto

text \<open>All events are admissible when they happen, whatever happened before.\<close>

fun safe :: "('s \<Rightarrow> 'e \<Rightarrow> 'o \<Rightarrow> 's \<Rightarrow> bool) \<Rightarrow> ('s \<Rightarrow> 'e \<Rightarrow> bool) \<Rightarrow> 's \<Rightarrow> 'e list \<Rightarrow> bool" where
  "safe step ok s [] = True"
| "safe step ok s (e # es) = (ok s e \<and> (\<forall>out s1. step s e out s1 \<longrightarrow> safe step ok s1 es))"

text \<open>A concrete machine that simulates an abstract one on its admissible events.\<close>

locale simulation =
  fixes rel :: "'c \<Rightarrow> 'a \<Rightarrow> bool"
    and cstep :: "'c \<Rightarrow> 'e \<Rightarrow> 'o \<Rightarrow> 'c \<Rightarrow> bool"
    and astep :: "'a \<Rightarrow> 'e \<Rightarrow> 'o \<Rightarrow> 'a \<Rightarrow> bool"
    and ok :: "'a \<Rightarrow> 'e \<Rightarrow> bool"
  assumes progress: "rel c a \<Longrightarrow> ok a e \<Longrightarrow> \<exists>out c'. cstep c e out c'"
    and simulate: "rel c a \<Longrightarrow> ok a e \<Longrightarrow> cstep c e out c' \<Longrightarrow> \<exists>a'. astep a e out a' \<and> rel c' a'"
begin

lemma runs_simulate:
  "runs cstep c tr c' \<Longrightarrow> rel c a \<Longrightarrow> safe astep ok a (map fst tr) \<Longrightarrow> \<exists>a'. runs astep a tr a' \<and> rel c' a'"
proof (induction arbitrary: a rule: runs.induct)
  case (more s e out s1 tr s')
  then obtain a1 where "astep a e out a1" "rel s1 a1" using simulate [of s a e out s1] by auto
  then show ?case using more by fastforce
qed auto

lemma runs_progress:
  "rel c a \<Longrightarrow> safe astep ok a es \<Longrightarrow> \<exists>tr c'. map fst tr = es \<and> runs cstep c tr c'"
proof (induction es arbitrary: c a)
  case (Cons e es)
  then obtain out c1 where 1: "cstep c e out c1" using progress [of c a e] by auto
  then obtain a1 where a1: "astep a e out a1" "rel c1 a1" using simulate [of c a e out c1] Cons.prems by auto
  then obtain tr c' where "map fst tr = es" "runs cstep c1 tr c'" using Cons by fastforce
  then show ?case using 1 by (intro exI [of _ "(e, out) # tr"]) auto
qed (auto intro: runs.stop)

end

subsection \<open>The server and the database\<close>

datatype event = Request u64 "bytes list" | Expire u64
datatype outcome = Reply bytes | Removed "bytes list"

text \<open>A request is answered into an empty buffer of the default size.\<close>

inductive server_step :: "(bytes \<Rightarrow> u64 parsed) \<Rightarrow> server \<Rightarrow> event \<Rightarrow> outcome \<Rightarrow> server \<Rightarrow> bool" for stod where
  request: "do_request stod now cmd (Buffer_init (64 * 1024)) s = Some ((out, rv), s') \<Longrightarrow>
    Buffer_front out (data_length out) = Some bs \<Longrightarrow> server_step stod s (Request now cmd) (Reply bs) s'"
| expire: "expire_entries now MAX_WORKS s = Some (ks, s') \<Longrightarrow> server_step stod s (Expire now) (Removed ks) s'"

inductive db_step :: "(bytes \<Rightarrow> u64 parsed) \<Rightarrow> db \<Rightarrow> event \<Rightarrow> outcome \<Rightarrow> db \<Rightarrow> bool" for stod where
  request: "spec stod now (classify cmd) d rp d' \<Longrightarrow> db_step stod d (Request now cmd) (Reply (encode rp)) d'"
| expire: "distinct ks \<Longrightarrow> length ks \<le> MAX_WORKS \<Longrightarrow> \<forall>k \<in> set ks. \<exists>v. ddue d k = Some v \<and> v < now \<Longrightarrow>
    (length ks < MAX_WORKS \<Longrightarrow> \<forall>k v. ddue d k = Some v \<longrightarrow> k \<notin> set ks \<longrightarrow> now \<le> v) \<Longrightarrow>
    db_step stod d (Expire now) (Removed ks) (fold drop_key ks d)"

inductive_simps server_step_request [simp]: "server_step stod s (Request now cmd) out s'"
inductive_simps server_step_expire [simp]: "server_step stod s (Expire now) out s'"
inductive_simps db_step_request [simp]: "db_step stod d (Request now cmd) out d'"
inductive_simps db_step_expire [simp]: "db_step stod d (Expire now) out d'"

fun event_ok :: "(bytes \<Rightarrow> u64 parsed) \<Rightarrow> db \<Rightarrow> event \<Rightarrow> bool" where
  "event_ok stod d (Request now cmd) =
     (cmd \<noteq> [] \<and> card (dom (dval d)) < no_idx \<and> answerable stod (classify cmd) d)"
| "event_ok stod d (Expire now) = True"

definition represents :: "server \<Rightarrow> db \<Rightarrow> bool" where
  "represents s d = (\<exists>loc. rep s loc d)"

lemma represents_init: "represents server_init db_empty"
proof -
  have "rep server_init Map.empty db_empty"
    by (simp add: rep_def located_def indexed_def valued_def timed_def server_init_def db_empty_def HMap_empty_ok
        timers_ok_def timer_due_def heap_ok_def cells_ok_def)
  then show ?thesis unfolding represents_def by blast
qed

interpretation srv: simulation represents "server_step stod" "db_step stod" "event_ok stod" for stod
proof (unfold_locales, goal_cases)
  case (1 s d e)
  then obtain loc where r: "rep s loc d" by (auto simp: represents_def)
  show ?case
  proof (cases e)
    case (Request now cmd)
    then have "served (do_request stod now cmd (Buffer_init (64 * 1024)) s) [] (spec stod now (classify cmd) d)"
      using do_request_ok [OF r holds_init] 1(2) by simp
    then obtain out rv s' bs where "do_request stod now cmd (Buffer_init (64 * 1024)) s = Some ((out, rv), s')" "holds out bs"
      unfolding served_def by blast
    then show ?thesis using Request Buffer_front_holds [of out bs "length bs"] holds_length [of out bs] by auto
  next
    case (Expire now)
    then show ?thesis using expire_entries_ok [OF r, of now MAX_WORKS] by auto
  qed
next
  case (2 s d e out s')
  then obtain loc where r: "rep s loc d" by (auto simp: represents_def)
  show ?case
  proof (cases e)
    case (Request now cmd)
    then obtain b rv bs where b: "do_request stod now cmd (Buffer_init (64 * 1024)) s = Some ((b, rv), s')"
      "Buffer_front b (data_length b) = Some bs" "out = Reply bs" using 2(3) by auto
    have "served (do_request stod now cmd (Buffer_init (64 * 1024)) s) [] (spec stod now (classify cmd) d)"
      using do_request_ok [OF r holds_init] 2(2) Request by simp
    then obtain loc' rp d' where q: "holds b (encode rp)" "rep s' loc' d'" "spec stod now (classify cmd) d rp d'"
      unfolding served_def b(1) by auto
    have "bs = encode rp" using Buffer_front_holds [OF q(1), of "data_length b"] holds_length [OF q(1)] b(2) by simp
    then show ?thesis using Request b(3) q by (auto simp: represents_def)
  next
    case (Expire now)
    then obtain ks where ks: "expire_entries now MAX_WORKS s = Some (ks, s')" "out = Removed ks" using 2(3) by auto
    then obtain loc' where "rep s' loc' (fold drop_key ks d)" "distinct ks" "length ks \<le> MAX_WORKS"
      "\<forall>k \<in> set ks. \<exists>v. ddue d k = Some v \<and> v < now"
      "length ks < MAX_WORKS \<longrightarrow> (\<forall>k v. ddue d k = Some v \<longrightarrow> k \<notin> set ks \<longrightarrow> now \<le> v)"
      using expire_entries_ok [OF r, of now MAX_WORKS] by auto
    then show ?thesis using Expire ks(2) by (auto simp: represents_def)
  qed
qed

subsection \<open>Keys\<close>

text \<open>The commands that change the value of a key.\<close>

fun writes_key :: "command \<Rightarrow> bytes \<Rightarrow> bool" where
  "writes_key (CSet k' v) k = (k' = k)"
| "writes_key (CDel k') k = (k' = k)"
| "writes_key (CZadd k' score name) k = (k' = k)"
| "writes_key (CZrem k' name) k = (k' = k)"
| "writes_key _ k = False"

fun untouched :: "bytes \<Rightarrow> event \<times> outcome \<Rightarrow> bool" where
  "untouched k (Request now cmd, out) = (\<not> writes_key (classify cmd) k)"
| "untouched k (Expire now, Removed ks) = (k \<notin> set ks)"
| "untouched k (Expire now, Reply bs) = False"

lemmas db_ops = put_def touch_def set_due_def drop_key_def on_set_def

lemma spec_frame: "spec stod now c d rp d' \<Longrightarrow> \<not> writes_key c k \<Longrightarrow> dval d' k = dval d k"
  by (cases c) (auto simp: db_ops split: option.splits aval.splits sum.splits if_splits)

lemma db_run_frame:
  "runs (db_step stod) d tr d' \<Longrightarrow> \<forall>x \<in> set tr. untouched k x \<Longrightarrow> dval d' k = dval d k"
proof (induction rule: runs.induct)
  case (more s e out s1 tr s')
  have "dval s1 k = dval s k"
  proof (cases e)
    case (Request now cmd)
    then show ?thesis using more.hyps(1) more.prems spec_frame [of stod now "classify cmd" s _ s1 k] by auto
  next
    case (Expire now)
    then show ?thesis using more.hyps(1) more.prems by (auto simp: drop_keys)
  qed
  then show ?case using more by simp
qed simp

lemma spec_set:
  assumes "spec stod now (CSet k v) d rp d'" "\<forall>m. dval d k \<noteq> Some (ASet m)"
  shows "rp = RNil" "d' = touch now k (put k (AStr v) d)"
proof -
  have "rp = RNil \<and> d' = touch now k (put k (AStr v) d)"
  proof (cases "dval d k")
    case (Some w)
    then show ?thesis using assms by (cases w) simp_all
  qed (use assms in simp)
  then show "rp = RNil" "d' = touch now k (put k (AStr v) d)" by simp_all
qed

lemma classify_set: "classify [ascii ''SET'', k, v] = CSet k v"
  and classify_get: "classify [ascii ''GET'', k] = CGet k"
  and classify_ttl: "classify [ascii ''TTL'', k] = CTtl k"
  by (simp_all add: classify_def ascii_def toupper_def)

lemma safe_append:
  "safe step ok s (es @ es') \<Longrightarrow> runs step s tr s' \<Longrightarrow> map fst tr = es \<Longrightarrow> safe step ok s' es'"
  by (induction es arbitrary: s tr) (auto, blast)

lemma card_within_one: "A \<subseteq> {x} \<Longrightarrow> card A \<le> 1"
  by (auto simp: subset_singleton_iff)

subsection \<open>Properties\<close>

text \<open>C3: The server refines its database: from the initial state every sequence of requests and timer
  ticks that is admissible for the database has a run, and every run of the server on it is a run of
  the database, with the same replies and the same keys removed, that ends in related states.\<close>

theorem server_runs_correct:
  assumes "safe (db_step stod) (event_ok stod) db_empty es"
  shows "(\<exists>tr s'. map fst tr = es \<and> runs (server_step stod) server_init tr s') \<and>
    (\<forall>tr s'. map fst tr = es \<longrightarrow> runs (server_step stod) server_init tr s' \<longrightarrow>
       (\<exists>d'. runs (db_step stod) db_empty tr d' \<and> represents s' d'))"
  using srv.runs_progress [OF represents_init assms] srv.runs_simulate [OF _ represents_init] assms by blast

definition sample_events :: "u64 \<Rightarrow> event list" where
  "sample_events t = [Request 1 [ascii ''SET'', [107], [118]], Expire t, Request t [ascii ''GET'', [107]]]"

lemma sample_safe: "safe (db_step stod) (event_ok stod) db_empty (sample_events t)"
  unfolding sample_events_def safe.simps
proof (intro conjI allI impI TrueI)
  show "event_ok stod db_empty (Request 1 [ascii ''SET'', [107], [118]])"
    by (simp add: classify_set db_empty_def MAX_MSG_def no_idx_def)
  fix out1 d1 assume "db_step stod db_empty (Request 1 [ascii ''SET'', [107], [118]]) out1 d1"
  then have d1: "dom (dval d1) = {[107]}" by (auto simp: classify_set db_empty_def db_ops)
  show "event_ok stod d1 (Expire t)" by simp
  fix out2 d2 assume "db_step stod d1 (Expire t) out2 d2"
  then obtain ks where "d2 = fold drop_key ks d1" by auto
  then have "dom (dval d2) = dom (dval d1) \<inter> - set ks" by (simp add: drop_keys)
  then have "dom (dval d2) \<subseteq> {[107]}" unfolding d1 by blast
  then have "card (dom (dval d2)) \<le> 1" by (rule card_within_one)
  then show "event_ok stod d2 (Request t [ascii ''GET'', [107]])"
    by (simp add: classify_get no_idx_def)
qed

lemma server_runs_correct_witness:
  "\<exists>tr s' d'. map fst tr = sample_events 5 \<and> runs (server_step (\<lambda>w. Invalid w)) server_init tr s' \<and>
     runs (db_step (\<lambda>w. Invalid w)) db_empty tr d' \<and> represents s' d'"
  using server_runs_correct [OF sample_safe] by blast

text \<open>C10: What is set is what is got: a GET answers with the value of the last SET of the key, whatever
  requests for other keys and ticks that do not remove the key come in between.\<close>

theorem set_then_get:
  assumes "represents s d"
    and "safe (db_step stod) (event_ok stod) d
      (Request t1 [ascii ''SET'', k, v] # map fst tr @ [Request t2 [ascii ''GET'', k]])"
    and "\<forall>x \<in> set tr. untouched k x" "\<forall>m. dval d k \<noteq> Some (ASet m)"
    and "runs (server_step stod) s
      ((Request t1 [ascii ''SET'', k, v], o1) # tr @ [(Request t2 [ascii ''GET'', k], o2)]) s'"
  shows "o1 = Reply (encode RNil) \<and> o2 = Reply (encode (RStr v))"
proof -
  obtain d' where d': "runs (db_step stod) d
      ((Request t1 [ascii ''SET'', k, v], o1) # tr @ [(Request t2 [ascii ''GET'', k], o2)]) d'"
    using srv.runs_simulate [OF assms(5,1)] assms(2) by auto
  then obtain d1 d2 where d1: "db_step stod d (Request t1 [ascii ''SET'', k, v]) o1 d1" "runs (db_step stod) d1 tr d2"
    "db_step stod d2 (Request t2 [ascii ''GET'', k]) o2 d'"
    by (auto simp: runs_append)
  obtain rp where rp: "spec stod t1 (CSet k v) d rp d1" "o1 = Reply (encode rp)"
    using d1(1) by (auto simp: classify_set simp del: spec.simps)
  have "o1 = Reply (encode RNil)" "dval d1 k = Some (AStr v)"
    using spec_set [OF rp(1) assms(4)] rp(2) by (simp_all add: db_ops)
  moreover have "dval d2 k = dval d1 k" by (rule db_run_frame [OF d1(2) assms(3)])
  ultimately show ?thesis using d1(3) by (auto simp: classify_get)
qed

lemma set_then_get_witness:
  "\<exists>s'. runs (server_step (\<lambda>w. Invalid w)) server_init
     [(Request 1 [ascii ''SET'', [107], [118]], Reply (encode RNil)), (Request 2 [ascii ''ECHO''], Reply (encode (RStr []))),
      (Request 3 [ascii ''GET'', [107]], Reply (encode (RStr [118])))] s'"
proof -
  let ?es = "[Request 1 [ascii ''SET'', [107], [118]], Request 2 [ascii ''ECHO''], Request 3 [ascii ''GET'', [107]]]"
  have echo: "classify [ascii ''ECHO''] = CEcho []" by (simp add: classify_def ascii_def toupper_def)
  have safe: "safe (db_step (\<lambda>w. Invalid w)) (event_ok (\<lambda>w. Invalid w)) db_empty ?es"
    by (simp add: classify_set classify_get echo db_empty_def MAX_MSG_def no_idx_def db_ops)
  obtain tr s' where tr: "map fst tr = ?es" "runs (server_step (\<lambda>w. Invalid w)) server_init tr s'"
    using srv.runs_progress [OF represents_init safe] by (elim exE conjE) (rule that)
  then obtain o1 o2 o3 where tr': "tr = [(Request 1 [ascii ''SET'', [107], [118]], o1),
      (Request 2 [ascii ''ECHO''], o2), (Request 3 [ascii ''GET'', [107]], o3)]"
    by (auto simp: map_eq_Cons_conv)
  obtain d' where "runs (db_step (\<lambda>w. Invalid w)) db_empty tr d'"
    using srv.runs_simulate [OF tr(2) represents_init] safe tr(1) by auto
  then have "o2 = Reply (encode (RStr []))" unfolding tr' by (auto simp: echo)
  moreover have "o1 = Reply (encode RNil) \<and> o3 = Reply (encode (RStr [118]))"
    by (rule set_then_get [OF represents_init, of "\<lambda>w. Invalid w" 1 "[107]" "[118]" "[(Request 2 [ascii ''ECHO''], o2)]" 3 o1 o3 s'])
      (use safe tr(2) in \<open>simp_all add: tr' echo db_empty_def\<close>)
  ultimately show ?thesis using tr(2) unfolding tr' by blast
qed

text \<open>C11: A value expires: a tick more than the default time to live after a SET, with less keys due than
  one tick removes, removes the key, and a GET does not find it.\<close>

theorem set_expires:
  assumes "represents s d"
    and "safe (db_step stod) (event_ok stod) d
      [Request t1 [ascii ''SET'', k, v], Expire t2, Request t3 [ascii ''GET'', k]]"
    and "\<forall>m. dval d k \<noteq> Some (ASet m)" "t1 + DEFAULT_TTL_MS < t2" "length ks < MAX_WORKS"
    and "runs (server_step stod) s [(Request t1 [ascii ''SET'', k, v], o1), (Expire t2, Removed ks),
      (Request t3 [ascii ''GET'', k], o3)] s'"
  shows "k \<in> set ks \<and> o3 = Reply (encode (RErr ERR_NOT_FOUND (ascii ''get'')))"
proof -
  obtain d' where d': "runs (db_step stod) d [(Request t1 [ascii ''SET'', k, v], o1), (Expire t2, Removed ks),
      (Request t3 [ascii ''GET'', k], o3)] d'"
    using srv.runs_simulate [OF assms(6,1)] assms(2) by auto
  then obtain d1 d2 where d1: "db_step stod d (Request t1 [ascii ''SET'', k, v]) o1 d1"
    "db_step stod d1 (Expire t2) (Removed ks) d2" "db_step stod d2 (Request t3 [ascii ''GET'', k]) o3 d'"
    by auto
  have "ddue d1 k = Some (t1 + DEFAULT_TTL_MS)"
  proof -
    obtain rp where "spec stod t1 (CSet k v) d rp d1"
      using d1(1) by (auto simp: classify_set simp del: spec.simps)
    from spec_set(2) [OF this assms(3)] show ?thesis by (simp add: db_ops DEFAULT_TTL_MS_def)
  qed
  moreover have "\<forall>k v. ddue d1 k = Some v \<longrightarrow> k \<notin> set ks \<longrightarrow> t2 \<le> v" using d1(2) assms(5) by simp
  ultimately have "k \<in> set ks" using assms(4) by (metis not_le)
  then show ?thesis using d1(2,3) by (auto simp: classify_get drop_keys)
qed

lemma set_expires_witness:
  "\<exists>ks s'. runs (server_step (\<lambda>w. Invalid w)) server_init
     [(Request 1 [ascii ''SET'', [107], [118]], Reply (encode RNil)), (Expire 900002, Removed ks),
      (Request 900002 [ascii ''GET'', [107]], Reply (encode (RErr ERR_NOT_FOUND (ascii ''get''))))] s' \<and> [107] \<in> set ks"
proof -
  note safe = sample_safe [of "\<lambda>w. Invalid w" 900002]
  obtain tr s' where tr: "map fst tr = sample_events 900002" "runs (server_step (\<lambda>w. Invalid w)) server_init tr s'"
    using srv.runs_progress [OF represents_init safe] by (elim exE conjE) (rule that)
  then obtain o1 o2 o3 where tr': "tr = [(Request 1 [ascii ''SET'', [107], [118]], o1),
      (Expire 900002, o2), (Request 900002 [ascii ''GET'', [107]], o3)]"
    by (auto simp: map_eq_Cons_conv sample_events_def)
  obtain d' where "runs (db_step (\<lambda>w. Invalid w)) db_empty tr d'"
    using srv.runs_simulate [OF tr(2) represents_init] safe tr(1) by (auto simp del: runs_Cons)
  then obtain d1 d2 where d: "db_step (\<lambda>w. Invalid w) db_empty (Request 1 [ascii ''SET'', [107], [118]]) o1 d1"
    "db_step (\<lambda>w. Invalid w) d1 (Expire 900002) o2 d2" unfolding tr' by auto
  obtain rp where "spec (\<lambda>w. Invalid w) 1 (CSet [107] [118]) db_empty rp d1" "o1 = Reply (encode rp)"
    using d(1) by (auto simp: classify_set simp del: spec.simps)
  from this(2) spec_set [OF this(1)] have o1: "o1 = Reply (encode RNil)" and due: "dom (ddue d1) \<subseteq> {[107]}"
    by (auto simp: db_empty_def db_ops split: if_splits)
  obtain ks where ks: "o2 = Removed ks" "distinct ks" "\<forall>k \<in> set ks. \<exists>v. ddue d1 k = Some v \<and> v < 900002"
    using d(2) by auto
  then have "set ks \<subseteq> {[107]}" using due by auto
  then have "card (set ks) \<le> 1" by (rule card_within_one)
  then have "length ks < MAX_WORKS" using ks(2) by (simp add: distinct_card MAX_WORKS_def)
  then have "[107] \<in> set ks \<and> o3 = Reply (encode (RErr ERR_NOT_FOUND (ascii ''get'')))"
    using set_expires [OF represents_init, of "\<lambda>w. Invalid w" 1 "[107]" "[118]" 900002 900002 ks o1 o3 s']
      safe tr(2) unfolding tr' ks(1) sample_events_def by (auto simp: db_empty_def DEFAULT_TTL_MS_def simp del: runs_Cons safe.simps)
  then show ?thesis using tr(2) o1 ks(1) unfolding tr' by blast
qed

end
