(* ===== verification/MRD_ServerProps.thy ===== *)
theory MRD_ServerProps
  imports MRD_Run
begin

text \<open>
  Properties of the server's requests, replies, timers and end, on the representation of the
  database, and the inputs on which the code is undefined.
\<close>

subsection \<open>Long replies\<close>

lemma append_at_end:
  assumes "data_length b = 0" "data_begin b = buf_size b" "ys \<noteq> []" "length ys \<le> buf_size b"
  obtains b' where "Buffer_append_bytes b ys = Some b'" "data_begin b' = 0" "data_end b' = length ys" "buf_size b' = buf_size b"
  using assms that
  by (simp add: Buffer_append_bytes_def Buffer_append_def read_at_def write_at_def Let_def buf_size_def)

lemma append_in_room:
  assumes "data_begin b \<le> data_end b" "data_end b + length ys \<le> buf_size b"
  obtains b' where "Buffer_append_bytes b ys = Some b'" "data_begin b' = data_begin b"
    "data_end b' = data_end b + length ys" "buf_size b' = buf_size b"
  using assms that
  by (simp add: Buffer_append_bytes_def Buffer_append_def write_at_def Let_def buf_size_def)

lemma error_reply_at_end:
  assumes full: "data_begin out + data_length out = buf_size out" and room: "length what + 10 \<le> buf_size out"
    and e: "error_reply err what out = Some out'"
  shows "data_begin out' = 0"
proof -
  let ?c = "Buffer_consume out (data_length out)"
  have c: "data_length ?c = 0" "data_begin ?c = buf_size ?c" "buf_size ?c = buf_size out"
    using full by (simp_all add: Buffer_consume_def Let_def buf_size_def)
  have l: "length (le_bytes 4 (v :: u32)) = 4" "le_bytes 4 (v :: u32) \<noteq> []" for v by (simp_all add: numeral_eq_Suc)
  obtain b1 where b1: "Buffer_append_bytes ?c (le_bytes 4 (0 :: u32)) = Some b1" "data_begin b1 = 0" "data_end b1 = 4"
    "buf_size b1 = buf_size out"
    by (rule append_at_end [OF c(1,2) l(2) [of 0]]) (use c(3) room in auto)
  obtain b2 where b2: "Buffer_append_bytes b1 [TAG_ERR] = Some b2" "data_begin b2 = 0" "data_end b2 = 5" "buf_size b2 = buf_size out"
    by (rule append_in_room [of b1 "[TAG_ERR]"]) (use b1 room in auto)
  obtain b3 where b3: "Buffer_append_bytes b2 [err] = Some b3" "data_begin b3 = 0" "data_end b3 = 6" "buf_size b3 = buf_size out"
    by (rule append_in_room [of b2 "[err]"]) (use b2 room in auto)
  obtain b4 where b4: "Buffer_append_bytes b3 (le_bytes 4 (of_nat (length (ascii what)) :: u32)) = Some b4"
    "data_begin b4 = 0" "data_end b4 = 10" "buf_size b4 = buf_size out"
    by (rule append_in_room [of b3 "le_bytes 4 (of_nat (length (ascii what)) :: u32)"]) (use b3 room in auto)
  obtain b5 where b5: "Buffer_append_bytes b4 (ascii what) = Some b5" "data_begin b5 = 0"
    by (rule append_in_room [of b4 "ascii what"]) (use b4 room in \<open>auto simp: ascii_def\<close>)
  show ?thesis
    using e b1(1) b2(1) b3(1) b4(1) b5
    by (auto simp: error_reply_def Buffer_append_u32_def Buffer_append_u8_def out_err_def bind_simps Buffer_patch_def)
qed

lemma rep_init: "rep server_init Map.empty db_empty"
proof -
  obtain loc where r: "rep server_init loc db_empty" using represents_init by (auto simp: represents_def)
  have "loc k = None" for k using rep_dom [OF r, of k] by (simp add: db_empty_def)
  then have "loc = Map.empty" by (rule ext)
  then show ?thesis using r by simp
qed

lemma classify_echo: "classify (ascii ''ECHO'' # ws) = CEcho ws"
  and classify_expire: "classify [ascii ''EXPIRE'', k, ms] = CExpire k ms"
  and classify_zcount: "classify [ascii ''ZCOUNT'', k, lo, hi] = CZcount k lo hi"
  by (simp_all add: classify_def ascii_def toupper_def)

subsection \<open>Tags and values\<close>

text \<open>The tag of an entry says which type its value has; no command breaks that, whatever its arguments.\<close>

definition tag_of :: "entry_val \<Rightarrow> u32" where
  "tag_of v = (case v of KV v \<Rightarrow> E_STR | SetV z \<Rightarrow> E_SET)"

lemma tag_of_simps [simp]: "tag_of (KV v) = E_STR" "tag_of (SetV z) = E_SET"
  by (simp_all add: tag_of_def)

definition tagged :: "(addr \<rightharpoonup> entry) \<Rightarrow> bool" where
  "tagged E = (\<forall>a e. E a = Some e \<longrightarrow> etype e = tag_of (eval e))"

lemma tagged_upd [intro!]: "tagged E \<Longrightarrow> etype e = tag_of (eval e) \<Longrightarrow> tagged (E(a \<mapsto> e))"
  by (simp add: tagged_def)

lemma tagged_drop [intro!]: "tagged E \<Longrightarrow> tagged (E(a := None))"
  by (simp add: tagged_def)

text \<open>What the steps of the commands do to the entries.\<close>

lemma set_val_entries: "set_val a v s = Some s' \<Longrightarrow> \<exists>e. entries s a = Some e \<and> entries s' = (entries s)(a \<mapsto> e\<lparr>eval := v\<rparr>)"
  by (cases "entries s a") (auto simp: set_val_def bind_simps)

lemma set_ttl_entries: "set_ttl now a ms s = Some s' \<Longrightarrow> entries s' = entries s"
  by (auto simp: set_ttl_def bind_simps)

lemma entry_del_entries: "entry_del now a s = Some s' \<Longrightarrow> entries s' = (entries s)(a := None)"
  by (clarsimp simp: entry_del_def bind_simps) (frule set_ttl_entries, auto)

text \<open>A command keeps the tags.\<close>

definition keeps :: "command_result \<Rightarrow> bool" where
  "keeps r = (\<forall>x s'. r = Some (x, s') \<longrightarrow> tagged (entries s'))"

lemma keeps_bind: "(\<And>v. m = Some v \<Longrightarrow> keeps (f v)) \<Longrightarrow> keeps (Option.bind m f)"
  by (cases m) (simp_all add: keeps_def)

lemma keeps_answer: "tagged (entries s) \<Longrightarrow> keeps (answer r s)"
  by (auto simp: keeps_def answer_def bind_simps)

lemma keeps_None: "keeps None" and keeps_Some: "tagged (entries s) \<Longrightarrow> keeps (Some (x, s))"
  by (simp_all add: keeps_def)

lemmas keeps_intros = keeps_bind keeps_answer keeps_None keeps_Some

lemma keeps_with_zset:
  assumes "tagged (entries s)" "\<And>a e z. entries s a = Some e \<Longrightarrow> etype e = E_SET \<Longrightarrow> keeps (run a z)"
  shows "keeps (with_zset key what out s run)"
  unfolding with_zset_def using assms by (auto intro!: keeps_intros split: option.split)

lemma do_set_keeps: "tagged (entries s) \<Longrightarrow> keeps (do_set now cmd out s)"
  by (auto simp: do_set_def EntryKV_def Entry_new_def split: option.split intro!: keeps_intros
      dest!: set_ttl_entries set_val_entries)

lemma do_del_keeps: "tagged (entries s) \<Longrightarrow> keeps (do_del now cmd out s)"
  by (auto simp: do_del_def Let_def split: option.split intro!: keeps_intros dest!: entry_del_entries)

lemma do_zadd_keeps: "tagged (entries s) \<Longrightarrow> keeps (do_zadd stod now cmd out s)"
  by (auto simp: do_zadd_def EntryS_def Entry_new_def split: option.split sum.split intro!: keeps_intros
      dest!: set_ttl_entries set_val_entries)

lemma set_commands_keep:
  assumes "tagged (entries s)"
  shows "keeps (do_zrem cmd out s)" "keeps (do_zqueryge stod cmd out s)" "keeps (do_zqueryle stod cmd out s)"
    "keeps (do_zrank now cmd out s)" "keeps (do_zcount stod cmd out s)"
  unfolding do_zrem_def do_zqueryge_def do_zqueryle_def do_zrank_def do_zcount_def
  by (rule keeps_with_zset [OF assms], use assms in \<open>auto split: sum.split parsed.split intro!: keeps_intros
      dest!: set_ttl_entries set_val_entries\<close>)+

lemma read_commands_keep:
  assumes "tagged (entries s)"
  shows "keeps (do_get cmd out s)" "keeps (do_ttl cmd out s)" "keeps (do_echo cmd out s)" "keeps (do_expire now cmd out s)"
  using assms by (auto simp: do_get_def do_ttl_def do_echo_def do_expire_def Let_def split: option.split sum.split
      intro!: keeps_intros dest!: set_ttl_entries)

lemma do_request_keeps: "tagged (entries s) \<Longrightarrow> keeps (do_request stod now cmd out s)"
  by (simp add: do_request_def Let_def keeps_bind keeps_answer do_set_keeps do_del_keeps do_zadd_keeps set_commands_keep
      read_commands_keep)

lemma expire_entries_tagged:
  "expire_entries now n s = Some (ks, s') \<Longrightarrow> tagged (entries s) \<Longrightarrow> tagged (entries s')"
proof (induction n arbitrary: s ks)
  case (Suc n)
  show ?case
  proof (cases "timer_first (ttl s)")
    case (Some x)
    obtain ent due where x: "x = (ent, due)" by fastforce
    show ?thesis
    proof (cases "due < now")
      case True
      then obtain s1 m ks' where 1: "entry_del now ent (s\<lparr>g_data := m\<rparr>) = Some s1" "expire_entries now n s1 = Some (ks', s')"
        using Suc.prems(1) Some x by (auto simp: bind_simps)
      show ?thesis by (rule Suc.IH [OF 1(2)]) (simp only: entry_del_entries [OF 1(1)], use Suc.prems(2) in \<open>auto simp del: fun_upd_apply\<close>)
    qed (use Suc.prems Some x in simp)
  qed (use Suc.prems in simp)
qed simp

lemma runs_tagged:
  "runs (server_step stod) s tr s' \<Longrightarrow> tagged (entries s) \<Longrightarrow> tagged (entries s')"
proof (induction rule: runs.induct)
  case (more s e out s1 tr s')
  have "tagged (entries s1)"
    using more.hyps(1)
  proof cases
    case (request now cmd b rv bs)
    then show ?thesis using do_request_keeps [OF more.prems] unfolding keeps_def by blast
  next
    case (expire now ks)
    then show ?thesis using expire_entries_tagged more.prems by blast
  qed
  then show ?case by (rule more.IH)
qed simp

subsection \<open>Properties\<close>

text \<open>C4: Every request is answered as the database specifies: on a state that represents a database,
  for a command that is admissible there, \<open>do_request\<close> returns, appends exactly one encoded reply to
  whatever the output held and returns its length, and leaves a state that represents the next
  database; reply and database are those of the specification of the command.\<close>

theorem do_request_correct:
  assumes "rep s loc d" "holds out xs" "cmd \<noteq> []" "card (dom (dval d)) < no_idx" "answerable stod (classify cmd) d"
  shows "\<exists>out' s' loc' rp d'. do_request stod now cmd out s = Some ((out', of_nat (length (encode rp))), s') \<and>
    holds out' (xs @ encode rp) \<and> rep s' loc' d' \<and> spec stod now (classify cmd) d rp d'"
  using do_request_ok [OF assms(1,2,4,3,5)] unfolding served_def .

lemma do_request_correct_witness:
  "\<exists>out s' loc. do_request (\<lambda>w. Invalid w) 7 [ascii ''SET'', [107], [118]] (Buffer_init 8) server_init = Some ((out, 1), s') \<and>
     holds out [TAG_NIL] \<and> rep s' loc (touch 7 [107] (put [107] (AStr [118]) db_empty))"
proof -
  obtain out s' loc rp d' where r: "do_request (\<lambda>w. Invalid w) 7 [ascii ''SET'', [107], [118]] (Buffer_init 8) server_init =
      Some ((out, of_nat (length (encode rp))), s')"
    "holds out ([] @ encode rp)" "rep s' loc d'" "spec (\<lambda>w. Invalid w) 7 (CSet [107] [118]) db_empty rp d'"
    using do_request_correct [OF rep_init holds_init, of "[ascii ''SET'', [107], [118]]" "\<lambda>w. Invalid w" 7 8]
    by (auto simp: classify_set db_empty_def no_idx_def MAX_MSG_def simp del: spec.simps)
  have "\<forall>m. dval db_empty [107] \<noteq> Some (ASet m)" by (simp add: db_empty_def)
  from spec_set [OF r(4) this] have "rp = RNil" "d' = touch 7 [107] (put [107] (AStr [118]) db_empty)" .
  then show ?thesis using r(1-3) by auto
qed

text \<open>C5: However the system cuts the requests of a connection into reads, each complete request in the
  input is answered once, in order, each on the database the previous one left, and the replies are sent
  or kept for sending in that order; an incomplete message stays in the input, and a message that is too
  long or not a request closes the connection after the replies to those before it.\<close>

theorem handle_read_correct:
  assumes "holds (incoming c) p" "inp \<noteq> []" "p @ inp = requests cmds @ rest" "incomplete rest \<or> malformed rest"
    and "holds (outgoing c) ys" "rep s loc d" "batch_ok stod now 0 cmds d" "\<And>data. fst (wr data) \<le> int (length data)"
  shows "\<exists>sent c' s' loc' rps d' left. handle_read stod now (Some inp) wr c s = Some ((sent, c'), s') \<and>
    batch stod now 0 cmds d rps d' \<and> rep s' loc' d' \<and> holds (incoming c') rest \<and>
    holds (outgoing c') left \<and> sent @ left = ys @ replies rps \<and> (malformed rest \<or> want_close c \<longrightarrow> want_close c') \<and>
    (want_close c' \<longrightarrow> malformed rest \<or> want_close c \<or> (\<exists>data. fst (wr data) \<le> 0 \<and> snd (wr data))) \<and>
    (asks c ys \<longrightarrow> asks c' left)"
  by (rule handle_read_ok [OF assms])

lemma handle_read_correct_witness:
  "\<exists>sent c' s' left. handle_read (\<lambda>w. Invalid w) (\<lambda>i. 7) (Some (requests [[ascii ''ECHO'', [97]]] @ [1]))
       (\<lambda>data. (int (length data), False)) (conn_new (Buffer_init 8) (Buffer_init 8)) server_init = Some ((sent, c'), s') \<and>
     sent @ left = replies [RStr [97, 32]] \<and> holds (incoming c') [1] \<and> holds (outgoing c') left"
proof -
  have ok: "batch_ok (\<lambda>w. Invalid w) (\<lambda>i. 7) 0 [[ascii ''ECHO'', [97]]] db_empty"
  proof -
    have "length (enc_req [ascii ''ECHO'', [97]]) \<le> MAX_MSG" by (simp add: length_enc_req MAX_MSG_def ascii_def)
    then show ?thesis by (simp add: requestable_def classify_echo db_empty_def no_idx_def) (simp add: MAX_MSG_def)
  qed
  have h: "holds (incoming (conn_new (Buffer_init 8) (Buffer_init 8))) []"
    "holds (outgoing (conn_new (Buffer_init 8) (Buffer_init 8))) []" by (simp_all add: conn_new_def)
  have ne: "requests [[ascii ''ECHO'', [97]]] @ [1] \<noteq> []" "incomplete [1] \<or> malformed [1]" by (simp_all add: incomplete_def)
  have wr: "fst (int (length data), False) \<le> int (length data)" for data :: bytes by simp
  from handle_read_correct [OF h(1) ne(1) append_Nil ne(2) h(2) rep_init ok wr]
  obtain sent c' s' loc' rps d' left where
    "handle_read (\<lambda>w. Invalid w) (\<lambda>i. 7) (Some (requests [[ascii ''ECHO'', [97]]] @ [1]))
       (\<lambda>data. (int (length data), False)) (conn_new (Buffer_init 8) (Buffer_init 8)) server_init = Some ((sent, c'), s')"
    "batch (\<lambda>w. Invalid w) (\<lambda>i. 7) 0 [[ascii ''ECHO'', [97]]] db_empty rps d'" "holds (incoming c') [1]"
    "holds (outgoing c') left" "sent @ left = [] @ replies rps"
    by (elim exE conjE) (rule that)
  then show ?thesis by (auto simp: classify_echo)
qed

text \<open>C27: What a connection has to send is never lost or sent twice: a write sends a prefix of the
  output and keeps the rest, and reading is resumed exactly when everything was sent; the connection is
  closed when the system says that it would block, and kept after any other error.\<close>

theorem handle_write_correct:
  assumes "holds (outgoing c) ys" "wr ys = (rv, eagain)" "rv \<le> int (length ys)"
  shows "\<exists>c'. handle_write wr c = Some (take (nat rv) ys, c') \<and>
    holds (outgoing c') (drop (nat rv) ys) \<and> incoming c' = incoming c \<and>
    (want_close c' \<longleftrightarrow> want_close c \<or> rv \<le> 0 \<and> eagain) \<and>
    (if 0 < rv \<and> rv = int (length ys) then want_read c' \<and> \<not> want_write c'
     else want_read c' = want_read c \<and> want_write c' = want_write c)"
  by (rule handle_write_ok [of c ys wr rv eagain]) (use assms in simp_all)

lemma handle_write_correct_witness:
  "\<exists>c'. handle_write (\<lambda>data. (- 1, True)) (conn_new (Buffer_init 8) (Buffer_init 8)) = Some ([], c') \<and> want_close c'"
  using handle_write_correct [of "conn_new (Buffer_init 8) (Buffer_init 8)" "[]" "\<lambda>data. (- 1, True)" "- 1" True]
  by (auto simp: conn_new_def)

text \<open>C32: A reply longer than a message in a full output buffer, which is what a buffer that has grown
  is, makes the server write its length before the allocation: after the first error has been framed
  the code goes on with the pointer of the long reply.\<close>

theorem response_end_long_crash:
  assumes "holds out (xs @ enc_u32 0 @ body)" "MAX_MSG < length body" "length body < 2 ^ 32" "data_end out = buf_size out"
  shows "response_end out (of_nat (length body)) = None"
proof -
  let ?what = "''response is too long''"
  have u: "unat (of_nat (length body) :: u32) = length body" by (rule unat_u32 [OF assms(3)])
  have len: "data_length out = length xs + 4 + length body" using holds_length [OF assms(1)] by simp
  have full: "data_begin out + data_length out = buf_size out"
    using holds_end(1) [OF assms(1)] assms(4) len by simp
  obtain o1 where o1: "error_reply ERR_OUT_OF_RANGE ?what out = Some o1"
    "data_end o1 = data_begin o1 + 4 + length (encode (RErr ERR_OUT_OF_RANGE (ascii ?what)))"
    by (rule frame_error_ok [OF assms(1), of ERR_OUT_OF_RANGE ?what]) (auto simp: ascii_def)
  have "length ?what + 10 \<le> buf_size out" using full len assms(2) by (simp add: MAX_MSG_def)
  then have "data_begin o1 = 0" by (rule error_reply_at_end [OF full _ o1(1)])
  then have "int (data_end o1) - int (length body) - 4 < 0"
    using o1(2) assms(2) by (simp add: ascii_def MAX_MSG_def)
  then show ?thesis using assms(2) o1(1) by (simp add: response_end_def u Let_def del: of_nat_unat)
qed

lemma response_end_long_crash_witness:
  "\<exists>out. response_end out (of_nat (2 ^ 20 + 1)) = None \<and> holds out (enc_u32 0 @ replicate (2 ^ 20 + 1) 7)"
proof -
  define n :: nat where "n = 2 ^ 20 + 1"
  define xs :: bytes where "xs = enc_u32 0 @ replicate n 7"
  define out where "out = \<lparr>mem = map Some xs, data_begin = 0, data_end = length xs, data_length = length xs\<rparr>"
  have h: "holds out ([] @ enc_u32 0 @ replicate n 7)"
    unfolding holds_def buf_ok_def buf_size_def by (simp add: out_def xs_def)
  have "response_end out (of_nat (length (replicate n (7 :: u8)))) = None"
    by (rule response_end_long_crash [OF h]) (simp_all add: n_def MAX_MSG_def out_def buf_size_def)
  then show ?thesis using h unfolding append_Nil length_replicate unfolding n_def by blast
qed

text \<open>C12: A tick of the timers returns and removes entries that are due: at most the given number, each
  of them once and due before the tick; when fewer are removed, none that is due is left. Nothing else
  changes in the database.\<close>

theorem expire_entries_correct:
  assumes "rep s loc d"
  shows "\<exists>ks s' loc'. expire_entries now n s = Some (ks, s') \<and> rep s' loc' (fold drop_key ks d) \<and>
    distinct ks \<and> length ks \<le> n \<and> (\<forall>k \<in> set ks. \<exists>v. ddue d k = Some v \<and> v < now) \<and>
    (length ks < n \<longrightarrow> (\<forall>k v. ddue d k = Some v \<longrightarrow> k \<notin> set ks \<longrightarrow> now \<le> v))"
  by (rule expire_entries_ok [OF assms])

lemma expire_entries_correct_witness:
  "\<exists>out s s'. do_request (\<lambda>w. Invalid w) 7 [ascii ''SET'', [107], [118]] (Buffer_init 8) server_init = Some (out, s) \<and>
     expire_entries 900008 3 s = Some ([[107]], s')"
proof -
  have none: "\<forall>m. dval db_empty [107] \<noteq> Some (ASet m)" by (simp add: db_empty_def)
  have "served (do_request (\<lambda>w. Invalid w) 7 [ascii ''SET'', [107], [118]] (Buffer_init 8) server_init) []
      (spec (\<lambda>w. Invalid w) 7 (CSet [107] [118]) db_empty)"
    using do_request_ok [OF rep_init holds_init, of "[ascii ''SET'', [107], [118]]" "\<lambda>w. Invalid w"]
    by (simp add: classify_set MAX_MSG_def db_empty_def no_idx_def del: spec.simps)
  then obtain out s loc rp d where 1: "do_request (\<lambda>w. Invalid w) 7 [ascii ''SET'', [107], [118]] (Buffer_init 8) server_init = Some (out, s)"
    "rep s loc d" "spec (\<lambda>w. Invalid w) 7 (CSet [107] [118]) db_empty rp d"
    unfolding served_def by blast
  have due: "ddue d = [[107] \<mapsto> 900007]" using spec_set(2) [OF 1(3) none] by (simp add: db_ops db_empty_def DEFAULT_TTL_MS_def)
  obtain ks s' where ks: "expire_entries 900008 3 s = Some (ks, s')" "distinct ks" "\<forall>k \<in> set ks. \<exists>v. ddue d k = Some v \<and> v < 900008"
    "length ks < 3 \<longrightarrow> (\<forall>k v. ddue d k = Some v \<longrightarrow> k \<notin> set ks \<longrightarrow> 900008 \<le> v)"
    using expire_entries_correct [OF 1(2), of 900008 3] by (elim exE conjE) (rule that)
  have sub: "set ks \<subseteq> {[107]}" using ks(3) due by (auto split: if_splits)
  then have "length ks \<le> 1" using ks(2) card_within_one [OF sub] by (simp add: distinct_card)
  moreover from this have "[107] \<in> set ks" using ks(4) [rule_format, of "[107]" 900007] due by auto
  ultimately have "ks = [[107]]" by (cases ks) auto
  then show ?thesis using 1(1) ks(1) by blast
qed

text \<open>At the end of a run every entry is deleted once, and no timer and no node of the index is
  left; but on an empty database the code takes the entry of a null node.\<close>

theorem end_run_correct:
  assumes "rep s loc d"
  shows "if dval d = Map.empty then end_run now s = None
    else \<exists>s'. end_run now s = Some s' \<and> entries s' = Map.empty \<and> fst (ttl s') = [] \<and> hmap_nodes (g_data s') = {#}"
  by (rule end_run_ok [OF assms])

lemma end_run_correct_witness: "end_run 5 server_init = None"
  using end_run_correct [OF rep_init, of 5] by (simp add: db_empty_def)

text \<open>C30: A request without any string, which \<open>parse_req\<close> accepts, ends the server: the dispatcher reads
  the first string. Eight bytes from any client on any connection suffice.\<close>

theorem empty_request_crash:
  assumes "holds (incoming c) []" "holds (outgoing c) ys"
  shows "handle_read stod now (Some (frame (enc_req []))) wr c s = None \<and> length (frame (enc_req [])) = 8"
proof -
  obtain b where b: "Buffer_append_bytes (incoming c) (frame (enc_req [])) = Some b" "holds b (frame (enc_req []))"
    using buf.append_law [OF assms(1), of "frame (enc_req [])"] by auto
  let ?c = "c\<lparr>incoming := b\<rparr>" and ?bs = "frame (enc_req [])"
  have len: "data_length b = 8" using holds_length [OF b(2)] by (simp add: enc_req_def)
  have front: "Buffer_front b 4 = Some (take 4 ?bs)" "Buffer_front b 8 = Some ?bs"
    using Buffer_front_holds [OF b(2), of 4] Buffer_front_holds [OF b(2), of 8] by (simp_all add: enc_req_def)
  have ml: "unat (le_word (take 4 ?bs) :: u32) = 4" "le_word (take 4 ?bs) = (4 :: u32)"
    by (simp_all add: frame_def enc_req_def enc_u32_def)
  have parse: "parse_req (drop 4 ?bs) = Some []"
    using parse_enc_req [of "[]"] by (simp add: frame_def)
  obtain o1 where "response_begin (outgoing c) = Some o1"
    using append_u32_holds [OF assms(2), of 0] unfolding response_begin_def by auto
  then have "try_one_request stod (now 0) ?c s = None"
    using front parse ml by (simp add: try_one_request_def len Let_def MAX_MSG_def do_request_def)
  then have "request_loop stod now 0 ?c s = None" by (simp add: request_loop.simps [of stod now 0])
  then show ?thesis using b(1) len holds_length [OF b(2)] by (auto simp: handle_read_def frame_def)
qed

lemma empty_request_crash_witness:
  "handle_read (\<lambda>w. Invalid w) (\<lambda>i. 0) (Some (frame (enc_req []))) (\<lambda>data. (0, False))
     (conn_new (Buffer_init 8) (Buffer_init 8)) server_init = None"
  using empty_request_crash [of "conn_new (Buffer_init 8) (Buffer_init 8)" "[]"] by (simp add: conn_new_def)

text \<open>C31: TTL of a key without a timer reads the heap of timers at the index that stands for none, and
  ZCOUNT with a bound that is not a number ends with an exception nobody catches.\<close>

theorem commands_crash:
  assumes "rep s loc d"
  shows "(dval d k \<noteq> None \<and> ddue d k = None \<longrightarrow> do_request stod now [ascii ''TTL'', k] out s = None) \<and>
    (\<forall>m. dval d k = Some (ASet m) \<and> (\<forall>x. stod lo \<noteq> Parsed x) \<longrightarrow>
       do_request stod now [ascii ''ZCOUNT'', k, lo, hi] out s = None)"
proof (intro conjI impI allI; elim conjE)
  assume k: "dval d k \<noteq> None" "ddue d k = None"
  then obtain a where a: "loc k = Some a" using rep_dom [OF assms, of k] by auto
  have "timer_due (ttl s) a = None" using rep_due [OF assms a] k(2) by simp
  then have "\<not> snd (ttl s) a < length (fst (ttl s))" by (auto simp: timer_due_def split: prod.splits if_splits)
  then have "do_ttl [map toupper (ascii ''TTL''), k] out s = None"
    using rep_lookup [OF assms, of k] a by (simp add: do_ttl_def Let_def)
  then show "do_request stod now [ascii ''TTL'', k] out s = None"
    by (simp add: do_request_def Let_def ascii_def toupper_def)
next
  fix m assume k: "dval d k = Some (ASet m)" "\<forall>x. stod lo \<noteq> Parsed x"
  then obtain a e where a: "loc k = Some a" "entries s a = Some e" "val_rep e (ASet m)"
    by (elim rep_entry [OF assms])
  have "do_zcount stod [c, k, lo, hi] out s = None" for c
    using rep_lookup [OF assms, of k] a k(2)
    by (cases "stod lo") (auto simp: do_zcount_def with_zset_def get_zset_def)
  then show "do_request stod now [ascii ''ZCOUNT'', k, lo, hi] out s = None"
    by (simp add: do_request_def Let_def ascii_def toupper_def)
qed

lemma commands_crash_witness:
  "\<exists>o1 s1 o2 s2. do_request (\<lambda>w. Invalid w) 7 [ascii ''SET'', [107], [118]] (Buffer_init 8) server_init = Some (o1, s1) \<and>
     do_request (\<lambda>w. Invalid w) 8 [ascii ''EXPIRE'', [107], ascii ''-1''] (Buffer_init 8) s1 = Some (o2, s2) \<and>
     do_request (\<lambda>w. Invalid w) 9 [ascii ''TTL'', [107]] (Buffer_init 8) s2 = None"
proof -
  have stoi: "stoi (ascii ''-1'') = Parsed (- 1)" by code_simp
  have none: "\<forall>m. dval db_empty [107] \<noteq> Some (ASet m)" by (simp add: db_empty_def)
  have "served (do_request (\<lambda>w. Invalid w) 7 [ascii ''SET'', [107], [118]] (Buffer_init 8) server_init) []
      (spec (\<lambda>w. Invalid w) 7 (CSet [107] [118]) db_empty)"
    using do_request_ok [OF rep_init holds_init, of "[ascii ''SET'', [107], [118]]" "\<lambda>w. Invalid w"]
    by (simp add: classify_set MAX_MSG_def db_empty_def no_idx_def del: spec.simps)
  then obtain o1 s1 loc1 rp1 d1 where 1: "do_request (\<lambda>w. Invalid w) 7 [ascii ''SET'', [107], [118]] (Buffer_init 8) server_init = Some (o1, s1)"
    "rep s1 loc1 d1" "spec (\<lambda>w. Invalid w) 7 (CSet [107] [118]) db_empty rp1 d1"
    unfolding served_def by blast
  note d1 = spec_set(2) [OF 1(3) none]
  have "served (do_request (\<lambda>w. Invalid w) 8 [ascii ''EXPIRE'', [107], ascii ''-1''] (Buffer_init 8) s1) []
      (spec (\<lambda>w. Invalid w) 8 (CExpire [107] (ascii ''-1'')) d1)"
    using do_request_ok [OF 1(2) holds_init, of "[ascii ''EXPIRE'', [107], ascii ''-1'']" "\<lambda>w. Invalid w"]
    by (simp add: classify_expire d1 db_ops db_empty_def no_idx_def del: spec.simps)
  then obtain o2 s2 loc2 rp2 d2 where 2: "do_request (\<lambda>w. Invalid w) 8 [ascii ''EXPIRE'', [107], ascii ''-1''] (Buffer_init 8) s1 = Some (o2, s2)"
    "rep s2 loc2 d2" "spec (\<lambda>w. Invalid w) 8 (CExpire [107] (ascii ''-1'')) d1 rp2 d2"
    unfolding served_def by blast
  have "dval d2 [107] \<noteq> None" "ddue d2 [107] = None"
    using 2(3) stoi unfolding d1 by (auto simp: db_ops)
  then show ?thesis
    using 1(1) 2(1) commands_crash [OF 2(2), of "[107]" "\<lambda>w. Invalid w" 9 "Buffer_init 8"] by blast
qed

text \<open>C14: In every state that requests and timer ticks lead to, whatever they are, the type tag of every
  entry agrees with its value, so that no \<^verbatim>\<open>std::get\<close> throws. If they were admissible, then moreover a
  string is no longer than a message, and a set is a well-formed sorted set.\<close>

theorem entry_types_reachable:
  assumes "runs (server_step stod) server_init tr s" "entries s a = Some e"
  shows "(etype e = E_STR \<and> (\<exists>v. get_str e = Some v) \<or> etype e = E_SET \<and> (\<exists>z. get_zset e = Some z)) \<and>
    (safe (db_step stod) (event_ok stod) db_empty (map fst tr) \<longrightarrow>
      (\<exists>v. get_str e = Some v \<and> length v \<le> MAX_MSG) \<or> (\<exists>z m. get_zset e = Some z \<and> zset_is z (card (dom m)) m))"
proof (intro conjI impI)
  have "tagged (entries s)" by (rule runs_tagged [OF assms(1)]) (simp add: server_init_def tagged_def)
  then have "etype e = tag_of (eval e)" using assms(2) by (simp add: tagged_def)
  then show "etype e = E_STR \<and> (\<exists>v. get_str e = Some v) \<or> etype e = E_SET \<and> (\<exists>z. get_zset e = Some z)"
    by (cases "eval e") (simp_all add: get_str_def get_zset_def)
next
  assume "safe (db_step stod) (event_ok stod) db_empty (map fst tr)"
  then obtain d where "represents s d" using srv.runs_simulate [OF assms(1) represents_init] by blast
  then obtain loc where "rep s loc d" by (auto simp: represents_def)
  then obtain v where "val_rep e v" using rep_deletable assms(2) unfolding deletable_def by blast
  then show "(\<exists>v. get_str e = Some v \<and> length v \<le> MAX_MSG) \<or> (\<exists>z m. get_zset e = Some z \<and> zset_is z (card (dom m)) m)"
    by (cases v) (auto simp: get_str_def get_zset_def)
qed

lemma entry_types_reachable_witness:
  "\<exists>tr s. runs (server_step (\<lambda>w. Invalid w)) server_init tr s \<and> (\<exists>a e. entries s a = Some e \<and>
     (etype e = E_STR \<or> etype e = E_SET) \<and>
     ((\<exists>v. get_str e = Some v \<and> length v \<le> MAX_MSG) \<or>
      (\<exists>z m. get_zset e = Some z \<and> zset_is z (card (dom m)) m)))"
proof -
  let ?es = "[Request 1 [ascii ''SET'', [107], [118]]]"
  have safe: "safe (db_step (\<lambda>w. Invalid w)) (event_ok (\<lambda>w. Invalid w)) db_empty ?es"
    by (simp add: classify_set db_empty_def MAX_MSG_def no_idx_def del: spec.simps)
  obtain tr s where tr: "map fst tr = ?es" "runs (server_step (\<lambda>w. Invalid w)) server_init tr s"
    using srv.runs_progress [OF represents_init safe] by (elim exE conjE) (rule that)
  obtain d where d: "runs (db_step (\<lambda>w. Invalid w)) db_empty tr d" "represents s d"
    using srv.runs_simulate [OF tr(2) represents_init] safe unfolding tr(1) by blast
  obtain b where "tr = [(Request 1 [ascii ''SET'', [107], [118]], b)]" using tr(1) by (auto simp: map_eq_Cons_conv)
  then obtain rp where "spec (\<lambda>w. Invalid w) 1 (CSet [107] [118]) db_empty rp d"
    using d(1) by (auto simp: classify_set simp del: spec.simps)
  from spec_set(2) [OF this] have v: "dval d [107] = Some (AStr [118])" by (simp add: db_empty_def db_ops)
  obtain loc where r: "rep s loc d" using d(2) by (auto simp: represents_def)
  obtain a e where e: "entries s a = Some e" by (rule rep_entry [OF r v])
  show ?thesis
    using entry_types_reachable [OF tr(2) e] safe [folded tr(1)] tr(2) e by blast
qed

end
