(* ===== verification/MRD_Links.thy ===== *)
theory MRD_Links
  imports MRD_Idle
begin

text \<open>
  The idle list as the main loop leaves it. The relinking of an active connection destroys the ring, but
  what remains has a simple shape: while connections are accepted one at a time, every connection points
  to the head and the head to at most one of them. Once two connections are accepted with no activity
  in between, all that is left is that links lead to nodes, as long as none is freed.
\<close>

subsection \<open>Links without rings\<close>

text \<open>The main loop destroys the ring of idle connections, but every link still leads to a node.\<close>

definition linked :: "dl_heap \<Rightarrow> bool" where
  "linked H = (\<forall>a n. H a = Some n \<longrightarrow> nxt n \<in> dom H \<and> prv n \<in> dom H)"

lemma linked_mem: "linked H \<Longrightarrow> H a = Some n \<Longrightarrow> nxt n \<in> dom H" "linked H \<Longrightarrow> H a = Some n \<Longrightarrow> prv n \<in> dom H"
  by (auto simp: linked_def)

lemma linked_fun_upd:
  assumes "linked H" "a \<in> dom H" "nxt n \<in> dom H" "prv n \<in> dom H"
  shows "linked (H(a \<mapsto> n))" "dom (H(a \<mapsto> n)) = dom H"
proof -
  show d: "dom (H(a \<mapsto> n)) = dom H" using assms(2) by auto
  show "linked (H(a \<mapsto> n))" unfolding linked_def d using assms by (simp add: linked_def)
qed

lemma linked_upd:
  assumes "linked H" "a \<in> dom H" "v \<in> dom H"
  obtains H' where "upd_at a (\<lambda>n. n\<lparr>nxt := v\<rparr>) H = Some H'" "linked H'" "dom H' = dom H"
proof -
  obtain n where n: "H a = Some n" using assms(2) by auto
  then show ?thesis
    using that linked_fun_upd [OF assms(1,2), of "n\<lparr>nxt := v\<rparr>"] assms(3) linked_mem [OF assms(1) n] by simp
qed

lemma linked_upd_prv:
  assumes "linked H" "a \<in> dom H" "v \<in> dom H"
  obtains H' where "upd_at a (\<lambda>n. n\<lparr>prv := v\<rparr>) H = Some H'" "linked H'" "dom H' = dom H"
proof -
  obtain n where n: "H a = Some n" using assms(2) by auto
  then show ?thesis
    using that linked_fun_upd [OF assms(1,2), of "n\<lparr>prv := v\<rparr>"] assms(3) linked_mem [OF assms(1) n] by simp
qed

lemma DList_insert_before_linked:
  assumes "linked H" "a \<in> dom H" "b \<in> dom H"
  obtains H' where "DList_insert_before a b H = Some H'" "linked H'" "dom H' = dom H"
proof -
  obtain t where t: "H b = Some t" using assms(3) by auto
  obtain H1 where H1: "upd_at a (\<lambda>n. n\<lparr>prv := prv t\<rparr>) H = Some H1" "linked H1" "dom H1 = dom H"
    by (rule linked_upd_prv [OF assms(1,2) linked_mem(2) [OF assms(1) t]])
  obtain t1 where t1: "H1 b = Some t1" using assms(3) H1(3) by auto
  obtain H2 where H2: "upd_at (prv t1) (\<lambda>n. n\<lparr>nxt := a\<rparr>) H1 = Some H2" "linked H2" "dom H2 = dom H"
    by (rule linked_upd [OF H1(2) linked_mem(2) [OF H1(2) t1], of a]) (use assms(2) H1(3) in auto)
  obtain H3 where H3: "upd_at b (\<lambda>n. n\<lparr>prv := a\<rparr>) H2 = Some H3" "linked H3" "dom H3 = dom H"
    by (rule linked_upd_prv [OF H2(2), of b a]) (use assms H2(3) in auto)
  obtain H4 where "upd_at a (\<lambda>n. n\<lparr>nxt := b\<rparr>) H3 = Some H4" "linked H4" "dom H4 = dom H"
    by (rule linked_upd [OF H3(2), of a b]) (use assms H3(3) in auto)
  then show ?thesis using that t H1(1) t1 H2(1) H3(1) by (simp add: DList_insert_before_def)
qed

lemma DList_detach_linked:
  assumes "linked H" "a \<in> dom H"
  obtains H' where "DList_detach a H = Some H'" "linked H'" "dom H' = dom H"
proof -
  obtain n where n: "H a = Some n" using assms(2) by auto
  obtain H1 where H1: "upd_at (prv n) (\<lambda>p. p\<lparr>nxt := nxt n\<rparr>) H = Some H1" "linked H1" "dom H1 = dom H"
    by (rule linked_upd [OF assms(1) linked_mem(2,1) [OF assms(1) n]]) 
  obtain m where m: "H1 a = Some m" using assms(2) H1(3) by auto
  obtain H2 where "upd_at (nxt m) (\<lambda>s. s\<lparr>prv := prv m\<rparr>) H1 = Some H2" "linked H2" "dom H2 = dom H"
    by (rule linked_upd_prv [OF H1(2) linked_mem [OF H1(2) m]]) (use H1(3) in auto)
  then show ?thesis using that n H1(1) m by (simp add: DList_detach_def)
qed

lemma idle_accept_linked:
  assumes "linked (links s)" "idle_list \<in> dom (links s)" "links s a = None"
  obtains s' where "idle_accept now a s = Some s'" "linked (links s')" "dom (links s') = insert a (dom (links s))"
    "last_active s' = (last_active s)(a := now)"
proof -
  have "linked (DList_init a (links s))" using assms(1) by (auto simp: linked_def DList_init_def)
  then obtain H where "DList_insert_before a idle_list (DList_init a (links s)) = Some H" "linked H"
    "dom H = dom (DList_init a (links s))"
    by (rule DList_insert_before_linked [of _ a idle_list]) (use assms(2) in \<open>auto simp: DList_init_def\<close>)
  then show ?thesis using that [of "\<lparr>links = H, last_active = (last_active s)(a := now)\<rparr>"] assms(3)
    by (auto simp: idle_accept_def DList_init_def)
qed

lemma idle_active_linked:
  assumes "linked (links s)" "idle_list \<in> dom (links s)" "a \<in> dom (links s)"
  obtains s' where "idle_active now a s = Some s'" "linked (links s')" "dom (links s') = dom (links s)"
    "last_active s' = (last_active s)(a := now)"
proof -
  obtain H1 where H1: "DList_detach a (links s) = Some H1" "linked H1" "dom H1 = dom (links s)"
    by (rule DList_detach_linked [OF assms(1,3)])
  obtain H2 where "DList_insert_before idle_list a H1 = Some H2" "linked H2" "dom H2 = dom (links s)"
    by (rule DList_insert_before_linked [OF H1(2), of idle_list a]) (use assms(2,3) H1(3) in auto)
  then show ?thesis using that [of "\<lparr>links = H2, last_active = (last_active s)(a := now)\<rparr>"] H1(1)
    by (simp add: idle_active_def)
qed

text \<open>The timers close nothing while every connection was active recently enough.\<close>

lemma expire_idle_none:
  assumes "linked (links s)" "idle_list \<in> dom (links s)"
    and "\<And>a. a \<in> dom (links s) \<Longrightarrow> a \<noteq> idle_list \<Longrightarrow> now \<le> last_active s a + IDLE_TIMEOUT_MS"
  shows "expire_idle now s = Some ([], s)"
proof -
  obtain n where n: "links s idle_list = Some n" using assms(2) by auto
  then have "nxt n \<noteq> idle_list \<Longrightarrow> now \<le> last_active s (nxt n) + IDLE_TIMEOUT_MS"
    using linked_mem(1) [OF assms(1) n] assms(3) by blast
  then show ?thesis using n by (subst expire_idle.simps) (simp add: DList_empty_def Let_def)
qed

subsection \<open>The shape of the idle list\<close>

text \<open>
  \<open>Settled\<close>: the head's forward link leads to the connection that was active last, if it is still there;
  \<open>Fresh\<close>: to a connection accepted after that, and the head's backward link too; \<open>Crowded\<close>: two connections
  were accepted with no activity in between.
\<close>

datatype queue = Settled "addr option" | Fresh addr | Crowded

definition star :: "dl_heap \<Rightarrow> addr set \<Rightarrow> addr \<Rightarrow> addr \<Rightarrow> bool" where
  "star H A f l = (dom H = insert idle_list A \<and> idle_list \<notin> A \<and> H idle_list = Some \<lparr>nxt = f, prv = l\<rparr> \<and>
     (\<forall>a \<in> A. H a = Some \<lparr>nxt = idle_list, prv = idle_list\<rparr>) \<and> {f, l} \<subseteq> insert idle_list A)"

fun queue_ok :: "queue \<Rightarrow> addr set \<Rightarrow> dl_heap \<Rightarrow> bool" where
  "queue_ok (Settled None) A H = star H A idle_list idle_list"
| "queue_ok (Settled (Some a)) A H = (a \<in> A \<and> star H A a idle_list)"
| "queue_ok (Fresh a) A H = (a \<in> A \<and> star H A a a)"
| "queue_ok Crowded A H = (linked H \<and> dom H = insert idle_list A \<and> idle_list \<notin> A)"

fun queue_accept :: "addr \<Rightarrow> queue \<Rightarrow> queue" where
  "queue_accept a (Settled r) = Fresh a"
| "queue_accept a _ = Crowded"

fun queue_active :: "addr \<Rightarrow> queue \<Rightarrow> queue" where
  "queue_active a Crowded = Crowded"
| "queue_active a _ = Settled (Some a)"

text \<open>The connection that the timers look at.\<close>

fun queue_front :: "queue \<Rightarrow> addr option" where
  "queue_front (Settled r) = r"
| "queue_front (Fresh a) = Some a"
| "queue_front Crowded = None"

lemma star_linked: "star H A f l \<Longrightarrow> linked H"
  unfolding linked_def
proof (intro allI impI)
  fix a n assume s: "star H A f l" and n: "H a = Some n"
  then have "a = idle_list \<or> a \<in> A" unfolding star_def by blast
  then show "nxt n \<in> dom H \<and> prv n \<in> dom H"
  proof
    assume "a = idle_list"
    then show ?thesis using s n unfolding star_def by auto
  next
    assume "a \<in> A"
    then have "n = \<lparr>nxt = idle_list, prv = idle_list\<rparr>" using s n by (auto simp: star_def)
    then show ?thesis using s by (auto simp: star_def)
  qed
qed

lemma queue_linked:
  assumes "queue_ok q A H"
  shows "linked H" "dom H = insert idle_list A" "idle_list \<notin> A"
proof -
  have "linked H \<and> dom H = insert idle_list A \<and> idle_list \<notin> A"
    using assms star_linked by (cases "(q, A, H)" rule: queue_ok.cases) (auto simp: star_def)
  then show "linked H" "dom H = insert idle_list A" "idle_list \<notin> A" by simp_all
qed

text \<open>What acceptance, activity and destruction do to the shape.\<close>

lemma star_mem:
  assumes "star H A f l" "a \<in> A"
  shows "H a = Some \<lparr>nxt = idle_list, prv = idle_list\<rparr>" "a \<noteq> idle_list"
  using assms by (auto simp: star_def)

lemma star_detach:
  assumes "star H A f l" "a \<in> A"
  obtains H' where "DList_detach a H = Some H'" "star H' A idle_list idle_list"
proof -
  let ?H = "H(idle_list \<mapsto> \<lparr>nxt = idle_list, prv = idle_list\<rparr>)"
  have "DList_detach a H = Some ?H"
    using assms star_mem [OF assms] by (simp add: DList_detach_def star_def)
  moreover have "star ?H A idle_list idle_list" using assms by (auto simp: star_def)
  ultimately show ?thesis using that by blast
qed

lemma star_accept:
  assumes "star (links s) A f idle_list" "a \<notin> A" "a \<noteq> idle_list"
  obtains s' where "idle_accept t a s = Some s'" "star (links s') (insert a A) a a"
    "last_active s' = (last_active s)(a := t)"
proof -
  let ?H = "(links s)(a \<mapsto> \<lparr>nxt = idle_list, prv = idle_list\<rparr>, idle_list \<mapsto> \<lparr>nxt = a, prv = a\<rparr>)"
  have "links s a = None" using assms by (auto simp: star_def)
  then have "idle_accept t a s = Some \<lparr>links = ?H, last_active = (last_active s)(a := t)\<rparr>"
    using assms by (simp add: idle_accept_def DList_init_def DList_insert_before_def star_def fun_upd_twist)
  moreover have "star ?H (insert a A) a a" using assms by (auto simp: star_def)
  ultimately show ?thesis using that by simp
qed

lemma star_active:
  assumes "star (links s) A f l" "a \<in> A"
  obtains s' where "idle_active t a s = Some s'" "star (links s') A a idle_list"
    "last_active s' = (last_active s)(a := t)"
proof -
  obtain H where H: "DList_detach a (links s) = Some H" "star H A idle_list idle_list"
    by (rule star_detach [OF assms])
  let ?H = "H(idle_list \<mapsto> \<lparr>nxt = a, prv = idle_list\<rparr>)"
  have same: "H(a \<mapsto> \<lparr>nxt = idle_list, prv = idle_list\<rparr>) = H" using star_mem [OF H(2) assms(2)] by (simp add: fun_upd_idem)
  have "DList_insert_before idle_list a H = Some (H(a \<mapsto> \<lparr>nxt = idle_list, prv = idle_list\<rparr>, idle_list \<mapsto> \<lparr>nxt = a, prv = idle_list\<rparr>))"
    using H(2) star_mem [OF H(2) assms(2)] by (simp add: DList_insert_before_def star_def)
  then have "idle_active t a s = Some \<lparr>links = ?H, last_active = (last_active s)(a := t)\<rparr>"
    unfolding same using H(1) by (simp add: idle_active_def)
  moreover have "star ?H A a idle_list" using H(2) assms(2) by (auto simp: star_def)
  ultimately show ?thesis using that by simp
qed

lemma star_destroy:
  assumes "star (links s) A f l" "a \<in> A"
  obtains s' where "conn_destroy a s = Some s'" "star (links s') (A - {a}) idle_list idle_list"
    "last_active s' = last_active s"
proof -
  obtain H where H: "DList_detach a (links s) = Some H" "star H A idle_list idle_list"
    by (rule star_detach [OF assms])
  have "star (H(a := None)) (A - {a}) idle_list idle_list"
    using H(2) star_mem(2) [OF H(2) assms(2)] by (auto simp: star_def)
  then show ?thesis using that [of "s\<lparr>links := H(a := None)\<rparr>"] H(1) by (simp add: conn_destroy_def)
qed

lemma queue_accept_ok:
  assumes "queue_ok q A (links s)" "a \<notin> A" "a \<noteq> idle_list"
  obtains s' where "idle_accept t a s = Some s'" "queue_ok (queue_accept a q) (insert a A) (links s')"
    "last_active s' = (last_active s)(a := t)"
proof -
  note q = queue_linked [OF assms(1)]
  have new: "links s a = None" using assms q(2) by blast
  obtain s' where s': "idle_accept t a s = Some s'" "linked (links s')" "dom (links s') = insert a (dom (links s))"
    "last_active s' = (last_active s)(a := t)"
    by (rule idle_accept_linked [OF q(1) _ new]) (use q(2) in auto)
  show ?thesis
  proof (cases q)
    case (Settled r)
    then have "\<exists>f. star (links s) A f idle_list" using assms(1) by (cases r) auto
    then show ?thesis using star_accept [OF _ assms(2,3), of s _ t] that Settled
      by (metis insertI1 queue_accept.simps(1) queue_ok.simps(3))
  qed (use that s' q assms(3) in auto)
qed

lemma queue_active_ok:
  assumes "queue_ok q A (links s)" "a \<in> A"
  obtains s' where "idle_active t a s = Some s'" "queue_ok (queue_active a q) A (links s')"
    "last_active s' = (last_active s)(a := t)"
proof (cases "q = Crowded")
  case True
  note q = queue_linked [OF assms(1)]
  obtain s' where "idle_active t a s = Some s'" "linked (links s')" "dom (links s') = dom (links s)"
    "last_active s' = (last_active s)(a := t)"
    by (rule idle_active_linked [OF q(1), where a = a and now = t]) (use q(2) assms(2) in auto)
  then show ?thesis using that True q by simp
next
  case False
  then obtain f l where "star (links s) A f l" using assms(1)
    by (cases "(q, A, links s)" rule: queue_ok.cases) auto
  then obtain s' where "idle_active t a s = Some s'" "star (links s') A a idle_list" "last_active s' = (last_active s)(a := t)"
    by (rule star_active [OF _ assms(2)])
  moreover have "queue_active a q = Settled (Some a)" using False by (cases q) auto
  ultimately show ?thesis using that assms(2) by simp
qed

lemma queue_close_ok:
  assumes "queue_ok q A (links s)" "q \<noteq> Crowded" "a \<in> A"
  obtains s' where "conn_destroy a s = Some s'" "queue_ok (Settled None) (A - {a}) (links s')"
    "last_active s' = last_active s"
proof -
  obtain f l where "star (links s) A f l" using assms(1,2)
    by (cases "(q, A, links s)" rule: queue_ok.cases) auto
  then show ?thesis by (rule star_destroy [OF _ assms(3)]) (use that in simp)
qed

text \<open>The timers look at one connection only.\<close>

definition overdue :: "u64 \<Rightarrow> queue \<Rightarrow> (addr \<Rightarrow> u64) \<Rightarrow> addr list" where
  "overdue now q la = (case queue_front q of None \<Rightarrow> [] | Some a \<Rightarrow> if la a + IDLE_TIMEOUT_MS < now then [a] else [])"

lemma queue_first:
  assumes "queue_ok q A H" "q \<noteq> Crowded"
  shows "\<exists>n. H idle_list = Some n \<and> nxt n = (case queue_front q of None \<Rightarrow> idle_list | Some a \<Rightarrow> a) \<and>
    (\<forall>a. queue_front q = Some a \<longrightarrow> a \<in> A \<and> a \<noteq> idle_list)"
  using assms by (cases "(q, A, H)" rule: queue_ok.cases) (auto simp: star_def)

lemma queue_expire_ok:
  assumes "queue_ok q A (links s)" "q \<noteq> Crowded"
  obtains s' where "expire_idle now s = Some (overdue now q (last_active s), s')" "last_active s' = last_active s"
    "queue_ok (if overdue now q (last_active s) = [] then q else Settled None) (A - set (overdue now q (last_active s))) (links s')"
proof -
  obtain n where n: "links s idle_list = Some n" "nxt n = (case queue_front q of None \<Rightarrow> idle_list | Some a \<Rightarrow> a)"
    "\<forall>a. queue_front q = Some a \<longrightarrow> a \<in> A \<and> a \<noteq> idle_list"
    using queue_first [OF assms] by blast
  show ?thesis
  proof (cases "overdue now q (last_active s)")
    case Nil
    then have "expire_idle now s = Some ([], s)"
      using n by (subst expire_idle.simps)
        (auto simp: overdue_def DList_empty_def Let_def not_less split: option.splits if_splits)
    then show ?thesis using that [of s] Nil assms(1) by simp
  next
    case (Cons a as)
    then have a: "queue_front q = Some a" "last_active s a + IDLE_TIMEOUT_MS < now" "as = []"
      by (auto simp: overdue_def split: option.splits if_splits)
    then have "a \<in> A" "a \<noteq> idle_list" using n(3) by auto
    obtain s' where s': "conn_destroy a s = Some s'" "queue_ok (Settled None) (A - {a}) (links s')"
      "last_active s' = last_active s" by (rule queue_close_ok [OF assms \<open>a \<in> A\<close>])
    have "expire_idle now s' = Some ([], s')"
      using queue_first [OF s'(2)] by (subst expire_idle.simps) (auto simp: DList_empty_def)
    then have "expire_idle now s = Some ([a], s')"
      using n(1,2) a \<open>a \<noteq> idle_list\<close> s'(1)
      by (subst expire_idle.simps) (simp add: DList_empty_def Let_def not_le [symmetric])
    then show ?thesis using that [of s'] s'(2,3) Cons a(3) by simp
  qed
qed

text \<open>
  How two such connections lead to freed memory: when the first was active and the second is destroyed
  after that, the first still points to it.
\<close>

lemma crowded_dangling:
  assumes "star (links s) A f idle_list"
    and "idle_accept t1 a s = Some s1" "idle_accept t2 b s1 = Some s2"
    and "idle_active t3 a s2 = Some s3" "idle_active t4 b s3 = Some s4" "conn_destroy b s4 = Some s5"
  shows "links s5 a = Some \<lparr>nxt = b, prv = idle_list\<rparr>" "links s5 b = None"
    "links s5 idle_list = Some \<lparr>nxt = idle_list, prv = idle_list\<rparr>" "idle_active t a s5 = None"
proof -
  have hd: "links s idle_list = Some \<lparr>nxt = f, prv = idle_list\<rparr>" using assms(1) by (simp add: star_def)
  have a: "links s a = None" "a \<noteq> idle_list" using assms(2) hd by (auto simp: idle_accept_def bind_simps)
  have 1: "links s1 = (links s)(a \<mapsto> \<lparr>nxt = idle_list, prv = idle_list\<rparr>, idle_list \<mapsto> \<lparr>nxt = a, prv = a\<rparr>)"
    using assms(2) hd a by (auto simp: idle_accept_def DList_init_def DList_insert_before_def bind_simps fun_eq_iff)
  have "links s1 b = None" using assms(3) by (auto simp: idle_accept_def bind_simps)
  then have b: "links s1 b = None" "b \<noteq> idle_list" "b \<noteq> a" using 1 a(2) by auto
  have 2: "links s2 = (links s1)(a \<mapsto> \<lparr>nxt = b, prv = idle_list\<rparr>, b \<mapsto> \<lparr>nxt = idle_list, prv = a\<rparr>,
      idle_list \<mapsto> \<lparr>nxt = a, prv = b\<rparr>)"
    using assms(3) 1 a(2) b by (auto simp: idle_accept_def DList_init_def DList_insert_before_def bind_simps fun_eq_iff)
  have 3: "links s3 = (links s2)(a \<mapsto> \<lparr>nxt = b, prv = idle_list\<rparr>, b \<mapsto> \<lparr>nxt = idle_list, prv = idle_list\<rparr>,
      idle_list \<mapsto> \<lparr>nxt = a, prv = idle_list\<rparr>)"
    using assms(4) 2 a(2) b(2,3) by (auto simp: idle_active_def DList_detach_def DList_insert_before_def bind_simps fun_eq_iff)
  have 4: "links s4 = (links s3)(idle_list \<mapsto> \<lparr>nxt = b, prv = idle_list\<rparr>)"
    using assms(5) 3 a(2) b(2,3) by (auto simp: idle_active_def DList_detach_def DList_insert_before_def bind_simps fun_eq_iff)
  have 5: "links s5 = (links s4)(b := None, idle_list \<mapsto> \<lparr>nxt = idle_list, prv = idle_list\<rparr>)"
    using assms(6) 3 4 a(2) b(2,3) by (auto simp: conn_destroy_def DList_detach_def bind_simps fun_eq_iff)
  show l: "links s5 a = Some \<lparr>nxt = b, prv = idle_list\<rparr>" "links s5 b = None"
    "links s5 idle_list = Some \<lparr>nxt = idle_list, prv = idle_list\<rparr>"
    using 3 4 5 a(2) b(2,3) by simp_all
  show "idle_active t a s5 = None" using l a(2) b(2,3) by (simp add: idle_active_def DList_detach_def)
qed

end
