(* ===== verification/MRD_World.thy ===== *)
theory MRD_World
  imports MRD_ServerProps MRD_Links
begin

text \<open>
  The main loop as a state machine over connections, the idle list, the timers and the data. It
  simulates a server that keeps for every connection the bytes that do not make a request yet and the
  bytes to send, answers requests from one database, and closes the connections that have ended, sent
  something else than requests, cannot be written to, or are idle for too long. Connections may be
  closed as long as the idle list is not crowded.
\<close>

subsection \<open>The main loop\<close>

text \<open>
  One round of the loop: what \<^verbatim>\<open>accept\<close> gave, the connections that \<^verbatim>\<open>poll\<close> found ready, in the order of
  its table, and the clock of the timers.
\<close>

record round =
  accepted :: "(u64 \<times> addr \<times> conn) option"
  ready :: "((nat \<Rightarrow> u64) \<times> u64 \<times> addr \<times> readiness) list"
  tick :: u64

fun service_all :: "(bytes \<Rightarrow> u64 parsed) \<Rightarrow> ((nat \<Rightarrow> u64) \<times> u64 \<times> addr \<times> readiness) list \<Rightarrow> world \<Rightarrow> world option" where
  "service_all stod [] w = Some w"
| "service_all stod ((now, t, a, r) # rs) w = do {
     (bs, w) \<leftarrow> service_conn stod now t a r w;
     service_all stod rs w
   }"

definition main_round :: "(bytes \<Rightarrow> u64 parsed) \<Rightarrow> round \<Rightarrow> world \<Rightarrow> world option" where
  "main_round stod i w = do {
     w \<leftarrow> (case accepted i of None \<Rightarrow> Some w | Some (t, a, c) \<Rightarrow> accept_conn t a c w);
     w \<leftarrow> service_all stod (ready i) w;
     (removed, w) \<leftarrow> process_timers (tick i) w;
     Some w
   }"

text \<open>The loop on the given rounds; it stops after them, or before when a request has ended the server.\<close>

fun main_loop :: "(bytes \<Rightarrow> u64 parsed) \<Rightarrow> round list \<Rightarrow> world \<Rightarrow> world option" where
  "main_loop stod [] w = Some w"
| "main_loop stod (i # is) w =
    (if is_running (srv w) then do { w \<leftarrow> main_round stod i w; main_loop stod is w } else Some w)"

definition world_init :: world where
  "world_init = \<lparr>srv = server_init, idle = idle_empty, conns = Map.empty\<rparr>"

subsection \<open>Steps of the main loop\<close>

datatype net_event = Accepted u64 addr conn | Ready "nat \<Rightarrow> u64" u64 addr readiness | Tick u64
text \<open>The outcomes name the connections that were closed, and the keys that were removed.\<close>

datatype net_outcome = Nothing | Sent bytes bool | Expired "addr list" "bytes list"

inductive world_step :: "(bytes \<Rightarrow> u64 parsed) \<Rightarrow> world \<Rightarrow> net_event \<Rightarrow> net_outcome \<Rightarrow> world \<Rightarrow> bool" for stod where
  accept: "accept_conn t a c w = Some w' \<Longrightarrow> world_step stod w (Accepted t a c) Nothing w'"
| service: "service_conn stod now t a r w = Some (bs, w') \<Longrightarrow> world_step stod w (Ready now t a r) (Sent bs (conns w' a = None)) w'"
| timers: "process_timers now w = Some ((closed, ks), w') \<Longrightarrow> world_step stod w (Tick now) (Expired closed ks) w'"

text \<open>
  The abstract server: its database, for every connection the bytes of the request that is not
  complete, the bytes to send, and the time of the last activity, and the shape of the idle list.
\<close>

record net =
  nd :: db
  chan :: "addr \<rightharpoonup> bytes \<times> bytes \<times> u64"
  shape :: queue

definition delivered :: "readiness \<Rightarrow> bytes" where
  "delivered r = (if pollin r then (case got r of None \<Rightarrow> [] | Some d \<Rightarrow> d) else [])"

text \<open>The peer has ended the connection, or it has failed; a write finds no room.\<close>

definition ended :: "readiness \<Rightarrow> bool" where
  "ended r = (pollerr r \<or> pollin r \<and> delivered r = [])"

definition would_block :: "write_call \<Rightarrow> bool" where
  "would_block wr = (\<exists>data. fst (wr data) \<le> 0 \<and> snd (wr data))"

definition blocks :: "readiness \<Rightarrow> bool" where
  "blocks r = (pollin r \<and> would_block (read_wr r) \<or> pollout r \<and> would_block (poll_wr r))"

definition stamp :: "net \<Rightarrow> addr \<Rightarrow> u64" where
  "stamp n a = (case chan n a of None \<Rightarrow> 0 | Some (p, ys, t) \<Rightarrow> t)"

inductive net_step :: "(bytes \<Rightarrow> u64 parsed) \<Rightarrow> net \<Rightarrow> net_event \<Rightarrow> net_outcome \<Rightarrow> net \<Rightarrow> bool" for stod where
  accept: "net_step stod n (Accepted t a c) Nothing
    (n\<lparr>chan := (chan n)(a \<mapsto> ([], [], t)), shape := queue_accept a (shape n)\<rparr>)"
| service: "chan n a = Some (p, ys, t0) \<Longrightarrow> p @ delivered r = requests cmds @ rest \<Longrightarrow> incomplete rest \<or> malformed rest \<Longrightarrow>
    batch_ok stod now 0 cmds (nd n) \<Longrightarrow> batch stod now 0 cmds (nd n) rps d' \<Longrightarrow> bs @ kept = ys @ replies rps \<Longrightarrow>
    (ended r \<or> malformed rest \<longrightarrow> closed) \<Longrightarrow> (closed \<longrightarrow> ended r \<or> malformed rest \<or> blocks r) \<Longrightarrow>
    net_step stod n (Ready now t a r) (Sent bs closed)
      (n\<lparr>nd := d', chan := (chan n)(a := if closed then None else Some (rest, kept, t)),
         shape := if closed then Settled None else queue_active a (shape n)\<rparr>)"
| timers: "db_step stod (nd n) (Expire now) (Removed ks) d' \<Longrightarrow> cs = overdue now (shape n) (stamp n) \<Longrightarrow>
    net_step stod n (Tick now) (Expired cs ks)
      (n\<lparr>nd := d', chan := chan n |` (- set cs), shape := if cs = [] then shape n else Settled None\<rparr>)"

text \<open>
  Admissible events: connections get new addresses; a ready connection delivers data that is the
  rest of some admissible requests and the beginning of another, or something else that no request
  begins with; a write takes no more than it is given. With a crowded list no connection may be closed.
\<close>

definition bounded :: "write_call \<Rightarrow> bool" where
  "bounded wr = (\<forall>data. fst (wr data) \<le> int (length data))"

fun net_ok :: "(bytes \<Rightarrow> u64 parsed) \<Rightarrow> net \<Rightarrow> net_event \<Rightarrow> bool" where
  "net_ok stod n (Accepted t a c) = (a \<noteq> idle_list \<and> chan n a = None \<and> holds (incoming c) [] \<and>
     holds (outgoing c) [] \<and> \<not> want_close c \<and> asks c [])"
| "net_ok stod n (Ready now t a r) = (bounded (read_wr r) \<and> bounded (poll_wr r) \<and>
     (\<exists>p ys t0 cmds rest. chan n a = Some (p, ys, t0) \<and> p @ delivered r = requests cmds @ rest \<and>
        (incomplete rest \<or> malformed rest) \<and> batch_ok stod now 0 cmds (nd n) \<and>
        (shape n = Crowded \<longrightarrow> incomplete rest \<and> \<not> ended r \<and> \<not> blocks r)))"
| "net_ok stod n (Tick now) = (shape n = Crowded \<longrightarrow> (\<forall>a p ys t. chan n a = Some (p, ys, t) \<longrightarrow> now \<le> t + IDLE_TIMEOUT_MS))"

text \<open>How a state of the program represents one of the abstract server.\<close>

definition conn_rep :: "world \<Rightarrow> addr \<Rightarrow> bytes \<times> bytes \<times> u64 \<Rightarrow> bool" where
  "conn_rep w a = (\<lambda>(p, ys, t). \<exists>c. conns w a = Some c \<and> holds (incoming c) p \<and> holds (outgoing c) ys \<and>
     asks c ys \<and> incomplete p \<and> \<not> want_close c \<and> last_active (idle w) a = t)"

definition world_rep :: "world \<Rightarrow> net \<Rightarrow> bool" where
  "world_rep w n = (represents (srv w) (nd n) \<and> queue_ok (shape n) (dom (chan n)) (links (idle w)) \<and>
     dom (conns w) = dom (chan n) \<and> (\<forall>a x. chan n a = Some x \<longrightarrow> conn_rep w a x))"

lemma incomplete_not_malformed: "incomplete bs \<Longrightarrow> \<not> malformed bs"
  by (auto simp: incomplete_def malformed_def)

lemma incomplete_no_request:
  assumes "incomplete (requests cmds @ rest)" "batch_ok stod now i cmds d"
  shows "cmds = []"
proof (cases cmds)
  case (Cons cmd cs)
  let ?bs = "requests cmds @ rest"
  have len: "length (enc_req cmd) \<le> MAX_MSG" using assms(2) Cons by (simp add: requestable_def)
  have bs: "?bs = frame (enc_req cmd) @ requests cs @ rest" by (simp add: requests_def Cons)
  have "msg_len ?bs = length (enc_req cmd)" unfolding bs by (rule msg_len_frame) (use len in \<open>simp add: MAX_MSG_def\<close>)
  moreover have "4 + length (enc_req cmd) \<le> length ?bs" unfolding bs by simp
  ultimately show ?thesis using assms(1) len by (simp add: incomplete_def)
qed

text \<open>
  A stream of bytes is cut into requests in one way only, so that the requests in a step of the abstract
  server are those that the data delivered.
\<close>

definition framed :: "bytes list \<Rightarrow> bool" where
  "framed cmd = (length cmd \<le> 500 \<and> length (enc_req cmd) \<le> MAX_MSG)"

lemma batch_framed:
  "batch stod now i cmds d rps d' \<Longrightarrow> batch_ok stod now i cmds d \<Longrightarrow> \<forall>cmd \<in> set cmds. framed cmd"
  by (induction stod now i cmds d rps d' rule: batch.induct) (auto simp: requestable_def framed_def)

lemma framed_parse: "framed cmd \<Longrightarrow> parse_req (enc_req cmd) = Some cmd"
  unfolding framed_def by (intro parse_enc_req enc_req_strings) simp_all

lemma framed_len: "framed cmd \<Longrightarrow> msg_len (frame (enc_req cmd) @ rest) = length (enc_req cmd)"
  by (rule msg_len_frame) (simp add: framed_def MAX_MSG_def)

lemma framed_whole: "framed cmd \<Longrightarrow> \<not> (incomplete (frame (enc_req cmd) @ rest) \<or> malformed (frame (enc_req cmd) @ rest))"
  using framed_len [of cmd rest] framed_parse [of cmd] by (auto simp: framed_def incomplete_def malformed_def frame_def)

lemma requests_unique:
  assumes "\<forall>cmd \<in> set xs. framed cmd" "\<forall>cmd \<in> set ys. framed cmd" "requests xs @ r = requests ys @ r'"
    and "incomplete r \<or> malformed r" "incomplete r' \<or> malformed r'"
  shows "xs = ys \<and> r = r'"
  using assms(1-3)
proof (induction xs arbitrary: ys)
  case Nil
  then show ?case using framed_whole assms(4) by (cases ys) (auto simp: requests_def)
next
  case (Cons x xs)
  show ?case
  proof (cases ys)
    case Nil
    then have "r' = frame (enc_req x) @ requests xs @ r" using Cons.prems(3) by (simp add: requests_def)
    then show ?thesis using framed_whole [of x "requests xs @ r"] Cons.prems(1) assms(5) by simp
  next
    case ys: (Cons y ys')
    have eq: "frame (enc_req x) @ requests xs @ r = frame (enc_req y) @ requests ys' @ r'"
      using Cons.prems(3) ys by (simp add: requests_def)
    have fr: "framed x" "framed y" "\<forall>cmd \<in> set xs. framed cmd" "\<forall>cmd \<in> set ys'. framed cmd"
      using Cons.prems(1,2) ys by simp_all
    have "length (enc_req x) = length (enc_req y)" using framed_len [OF fr(1)] framed_len [OF fr(2)] eq by metis
    then have tail: "enc_req x = enc_req y" "requests xs @ r = requests ys' @ r'" using eq by (simp_all add: frame_def)
    have "xs = ys' \<and> r = r'" by (rule Cons.IH [OF fr(3,4) tail(2)])
    moreover have "x = y" using framed_parse [OF fr(1)] framed_parse [OF fr(2)] tail(1) by (metis option.inject)
    ultimately show ?thesis using ys by simp
  qed
qed

text \<open>Reading and writing of a connection in one step of the loop.\<close>

lemma read_io:
  assumes c: "holds (incoming c) p" "holds (outgoing c) ys" "\<not> want_close c" "incomplete p" "asks c ys"
    and wr: "bounded (read_wr r)"
    and cmds: "p @ delivered r = requests cmds @ rest" "incomplete rest \<or> malformed rest" "batch_ok stod now 0 cmds d"
    and s: "represents s d"
  obtains bs c1 s' rps d' kept where
    "(if pollin r then handle_read stod now (got r) (read_wr r) c s else Some (([], c), s)) = Some ((bs, c1), s')"
    "batch stod now 0 cmds d rps d'" "represents s' d'" "bs @ kept = ys @ replies rps"
    "holds (incoming c1) rest" "holds (outgoing c1) kept"
    "pollin r \<and> delivered r = [] \<or> malformed rest \<longrightarrow> want_close c1"
    "want_close c1 \<longrightarrow> pollin r \<and> delivered r = [] \<or> malformed rest \<or> pollin r \<and> would_block (read_wr r)" "asks c1 kept"
proof (cases "delivered r = []")
  case True
  then have "incomplete (requests cmds @ rest)" using c(4) cmds(1) by simp
  then have "cmds = []" by (rule incomplete_no_request [OF _ cmds(3)])
  then have rest: "p = rest" "cmds = []" "\<not> malformed rest"
    using cmds(1) True c(4) incomplete_not_malformed by (auto simp: requests_def)
  let ?c = "c\<lparr>want_close := pollin r\<rparr>"
  have "(if pollin r then handle_read stod now (got r) (read_wr r) c s else Some (([], c), s)) = Some (([], ?c), s)"
    using True c(3) by (cases c) (auto simp: delivered_def handle_read_def split: option.splits)
  then show ?thesis
    by (rule that [of "[]" ?c s "[]" d ys]) (use c rest s True in \<open>auto simp: replies_def asks_def poll_events_def\<close>)
next
  case False
  then obtain inp where inp: "pollin r" "got r = Some inp" "delivered r = inp" "inp \<noteq> []"
    by (auto simp: delivered_def split: option.splits if_splits)
  obtain loc where rep: "rep s loc d" using s by (auto simp: represents_def)
  have wr: "fst (read_wr r data) \<le> int (length data)" for data using wr by (simp add: bounded_def)
  obtain bs c1 s' loc' rps d' kept where h: "handle_read stod now (Some inp) (read_wr r) c s = Some ((bs, c1), s')"
    "batch stod now 0 cmds d rps d'" "rep s' loc' d'" "holds (incoming c1) rest" "holds (outgoing c1) kept"
    "bs @ kept = ys @ replies rps" "malformed rest \<or> want_close c \<longrightarrow> want_close c1"
    "want_close c1 \<longrightarrow> malformed rest \<or> want_close c \<or> (\<exists>data. fst (read_wr r data) \<le> 0 \<and> snd (read_wr r data))"
    "asks c ys \<longrightarrow> asks c1 kept"
    using handle_read_ok [OF c(1) inp(4) _ cmds(2) c(2) rep cmds(3) wr] cmds(1) inp(3)
    by (elim meta_impE exE conjE) (simp, rule that)
  show ?thesis
    by (rule that [of bs c1 s' rps d' kept]) (use h c(3,5) inp in \<open>auto simp: represents_def would_block_def\<close>)
qed

lemma write_io:
  assumes "holds (outgoing c) ys" "bounded wr" "asks c ys"
  obtains bs c' kept where "(if b then handle_write wr c else Some ([], c)) = Some (bs, c')" "bs @ kept = ys"
    "holds (outgoing c') kept" "incoming c' = incoming c" "want_close c \<longrightarrow> want_close c'"
    "want_close c' \<longrightarrow> want_close c \<or> b \<and> would_block wr" "asks c' kept"
proof (cases b)
  case True
  obtain rv eagain where w: "wr ys = (rv, eagain)" by (rule prod.exhaust)
  have rv: "rv \<le> int (length ys)" using assms(2) w by (auto simp: bounded_def dest!: spec [of _ ys])
  then obtain c' where c': "handle_write wr c = Some (take (nat rv) ys, c')" "holds (outgoing c') (drop (nat rv) ys)"
    "incoming c' = incoming c" "want_close c' \<longleftrightarrow> want_close c \<or> rv \<le> 0 \<and> eagain"
    "if 0 < rv \<and> rv = int (length ys) then want_read c' \<and> \<not> want_write c'
     else want_read c' = want_read c \<and> want_write c' = want_write c"
    using handle_write_ok [of c ys wr rv eagain] assms(1) w rv by blast
  moreover have "asks c' (drop (nat rv) ys)" by (rule handle_write_asks [OF c'(5) rv assms(3)])
  moreover have "rv \<le> 0 \<and> eagain \<longrightarrow> would_block wr" using w by (metis would_block_def fst_conv snd_conv)
  ultimately show ?thesis using that [of "take (nat rv) ys" c' "drop (nat rv) ys"] True by simp
next
  case False
  then show ?thesis using that [of "[]" c ys] assms by simp
qed

inductive_simps net_accept [simp]: "net_step stod n (Accepted t a c) out n'"
inductive_simps net_tick [simp]: "net_step stod n (Tick now) out n'"
inductive_simps world_accept [simp]: "world_step stod w (Accepted t a c) out w'"
inductive_simps world_ready [simp]: "world_step stod w (Ready now t a r) out w'"
inductive_simps world_tick [simp]: "world_step stod w (Tick now) out w'"

lemma conn_rep_other:
  "conn_rep w b x \<Longrightarrow> conns w' b = conns w b \<Longrightarrow> last_active (idle w') b = last_active (idle w) b \<Longrightarrow> conn_rep w' b x"
  by (auto simp: conn_rep_def)

lemma world_conn: "world_rep w n \<Longrightarrow> chan n a = Some x \<Longrightarrow> conn_rep w a x"
  unfolding world_rep_def by blast

lemma accept_ok:
  assumes w: "world_rep w n" and e: "net_ok stod n (Accepted t a c)"
  obtains w' where "accept_conn t a c w = Some w'"
    "world_rep w' (n\<lparr>chan := (chan n)(a \<mapsto> ([], [], t)), shape := queue_accept a (shape n)\<rparr>)"
proof -
  have q: "queue_ok (shape n) (dom (chan n)) (links (idle w))" using w by (simp add: world_rep_def)
  obtain i where i: "idle_accept t a (idle w) = Some i"
    "queue_ok (queue_accept a (shape n)) (insert a (dom (chan n))) (links i)" "last_active i = (last_active (idle w))(a := t)"
    by (rule queue_accept_ok [OF q]) (use e in auto)
  let ?w = "w\<lparr>idle := i, conns := (conns w)(a \<mapsto> c)\<rparr>"
  have "conn_rep ?w b x" if "((chan n)(a \<mapsto> ([], [], t))) b = Some x" for b x
  proof (cases "b = a")
    case True
    then show ?thesis using that e i(3) by (auto simp: conn_rep_def incomplete_def)
  next
    case False
    then have "conn_rep w b x" using that by (intro world_conn [OF w]) simp
    then show ?thesis by (rule conn_rep_other) (use False i(3) in simp_all)
  qed
  then have "world_rep ?w (n\<lparr>chan := (chan n)(a \<mapsto> ([], [], t)), shape := queue_accept a (shape n)\<rparr>)"
    using w i(2) by (auto simp: world_rep_def)
  then show ?thesis using that i(1) by (simp add: accept_conn_def)
qed

lemma service_ok:
  assumes w: "world_rep w n" and e: "net_ok stod n (Ready now t a r)"
  obtains bs w' n' where "service_conn stod now t a r w = Some (bs, w')"
    "net_step stod n (Ready now t a r) (Sent bs (conns w' a = None)) n'" "world_rep w' n'"
proof -
  obtain p ys t0 cmds rest where ch: "chan n a = Some (p, ys, t0)" and cmds: "p @ delivered r = requests cmds @ rest"
    "incomplete rest \<or> malformed rest" "batch_ok stod now 0 cmds (nd n)"
    and crowd: "shape n = Crowded \<longrightarrow> incomplete rest \<and> \<not> ended r \<and> \<not> blocks r"
    and bnd: "bounded (read_wr r)" "bounded (poll_wr r)"
    using e by auto
  have "conn_rep w a (p, ys, t0)" by (rule world_conn [OF w ch])
  then obtain c where c: "conns w a = Some c" "holds (incoming c) p" "holds (outgoing c) ys" "\<not> want_close c" "incomplete p"
    "asks c ys" by (auto simp: conn_rep_def)
  have rp: "represents (srv w) (nd n)" and q: "queue_ok (shape n) (dom (chan n)) (links (idle w))"
    and dom: "dom (conns w) = dom (chan n)" using w by (simp_all add: world_rep_def)
  have mem: "a \<in> dom (chan n)" using ch by blast
  obtain i where i: "idle_active t a (idle w) = Some i" "queue_ok (queue_active a (shape n)) (dom (chan n)) (links i)"
    "last_active i = (last_active (idle w))(a := t)"
    by (rule queue_active_ok [OF q mem])
  obtain bs c1 s' rps d' kept where rd:
    "(if pollin r then handle_read stod now (got r) (read_wr r) c (srv w) else Some (([], c), srv w)) = Some ((bs, c1), s')"
    "batch stod now 0 cmds (nd n) rps d'" "represents s' d'" "bs @ kept = ys @ replies rps"
    "holds (incoming c1) rest" "holds (outgoing c1) kept"
    "pollin r \<and> delivered r = [] \<or> malformed rest \<longrightarrow> want_close c1"
    "want_close c1 \<longrightarrow> pollin r \<and> delivered r = [] \<or> malformed rest \<or> pollin r \<and> would_block (read_wr r)" "asks c1 kept"
    by (rule read_io [OF c(2-6) bnd(1) cmds rp])
  obtain bs' c2 kept' where wr: "(if pollout r then handle_write (poll_wr r) c1 else Some ([], c1)) = Some (bs', c2)"
    "bs' @ kept' = kept" "holds (outgoing c2) kept'" "incoming c2 = incoming c1" "want_close c1 \<longrightarrow> want_close c2"
    "want_close c2 \<longrightarrow> want_close c1 \<or> pollout r \<and> would_block (poll_wr r)" "asks c2 kept'"
    by (rule write_io [OF rd(6) bnd(2) rd(9)])
  define closed where "closed = (pollerr r \<or> want_close c2)"
  have cl: "ended r \<or> malformed rest \<longrightarrow> closed" "closed \<longrightarrow> ended r \<or> malformed rest \<or> blocks r"
    using rd(7,8) wr(5,6) by (auto simp: closed_def ended_def blocks_def)
  let ?n = "n\<lparr>nd := d', chan := (chan n)(a := if closed then None else Some (rest, kept', t)),
    shape := if closed then Settled None else queue_active a (shape n)\<rparr>"
  have step: "net_step stod n (Ready now t a r) (Sent (bs @ bs') closed) ?n"
    by (rule net_step.service [OF ch cmds(1,2,3) rd(2) _ cl]) (use rd(4) wr(2) in simp)
  have others: "conn_rep w' b x" if "b \<noteq> a" "chan n b = Some x" "conns w' b = conns w b"
    "last_active (idle w') = last_active i" for w' b x
    using conn_rep_other [OF world_conn [OF w that(2)]] that i(3) by simp
  show ?thesis
  proof (cases closed)
    case True
    then have "queue_active a (shape n) \<noteq> Crowded"
      using crowd cl(2) incomplete_not_malformed by (cases "shape n") auto
    then obtain j where j: "conn_destroy a i = Some j" "queue_ok (Settled None) (dom (chan n) - {a}) (links j)"
      "last_active j = last_active i" by (rule queue_close_ok [OF i(2) _ mem])
    let ?w = "w\<lparr>srv := s', idle := j, conns := (conns w)(a := None)\<rparr>"
    have "service_conn stod now t a r w = Some (bs @ bs', ?w)"
      using c(1) i(1) rd(1) wr(1) j(1) True by (simp add: service_conn_def closed_def)
    moreover have "conn_rep ?w b x" if "((chan n)(a := None)) b = Some x" for b x
      by (rule others) (use that j(3) in \<open>auto split: if_splits\<close>)
    then have "world_rep ?w ?n" using True rd(3) j(2) dom by (simp add: world_rep_def dom_fun_upd)
    ultimately show ?thesis using that [of "bs @ bs'" ?w ?n] step True by simp
  next
    case False
    let ?w = "w\<lparr>srv := s', idle := i, conns := (conns w)(a \<mapsto> c2)\<rparr>"
    have "service_conn stod now t a r w = Some (bs @ bs', ?w)"
      using c(1) i(1) rd(1) wr(1) False by (simp add: service_conn_def closed_def)
    moreover have "incomplete rest" using cl(1) cmds(2) False by blast
    then have "conn_rep ?w b x" if "((chan n)(a \<mapsto> (rest, kept', t))) b = Some x" for b x
      using that others [of b x ?w] rd(5) wr(3,4,7) i(3) False
      by (cases "b = a") (auto simp: conn_rep_def closed_def)
    then have "world_rep ?w ?n" using False rd(3) i(2) dom mem by (simp add: world_rep_def insert_absorb)
    ultimately show ?thesis using that [of "bs @ bs'" ?w ?n] step False by simp
  qed
qed

lemma tick_idle:
  assumes w: "world_rep w n" and e: "net_ok stod n (Tick now)" and cs: "cs = overdue now (shape n) (stamp n)"
  obtains i where "expire_idle now (idle w) = Some (cs, i)" "last_active i = last_active (idle w)"
    "queue_ok (if cs = [] then shape n else Settled None) (dom (chan n) - set cs) (links i)"
proof -
  have q: "queue_ok (shape n) (dom (chan n)) (links (idle w))" using w by (simp add: world_rep_def)
  have la: "last_active (idle w) a = stamp n a" if "a \<in> dom (chan n)" for a
    using that world_conn [OF w, of a] by (fastforce simp: stamp_def conn_rep_def)
  show ?thesis
  proof (cases "shape n = Crowded")
    case True
    have "expire_idle now (idle w) = Some ([], idle w)"
    proof (rule expire_idle_none)
      fix a assume "a \<in> dom (links (idle w))" "a \<noteq> idle_list"
      then have a: "a \<in> dom (chan n)" using queue_linked(2) [OF q] by blast
      then obtain p ys t where x: "chan n a = Some (p, ys, t)" by auto
      then have "now \<le> t + IDLE_TIMEOUT_MS" using e True by auto
      then show "now \<le> last_active (idle w) a + IDLE_TIMEOUT_MS" using la [OF a] x by (simp add: stamp_def)
    qed (use queue_linked [OF q] in auto)
    moreover have "cs = []" using True cs by (simp add: overdue_def)
    ultimately show ?thesis using that [of "idle w"] q by simp
  next
    case False
    have "overdue now (shape n) (last_active (idle w)) = cs"
    proof (cases "queue_front (shape n)")
      case (Some a)
      then have "last_active (idle w) a = stamp n a" using queue_first [OF q False] by (intro la) blast
      then show ?thesis using Some by (simp add: cs overdue_def)
    qed (simp add: cs overdue_def)
    then show ?thesis using queue_expire_ok [OF q False, of now] that by metis
  qed
qed

lemma tick_ok:
  assumes w: "world_rep w n" and e: "net_ok stod n (Tick now)"
  obtains cs ks w' n' where "process_timers now w = Some ((cs, ks), w')" "net_step stod n (Tick now) (Expired cs ks) n'"
    "world_rep w' n'"
proof -
  define cs where "cs = overdue now (shape n) (stamp n)"
  obtain i where i: "expire_idle now (idle w) = Some (cs, i)" "last_active i = last_active (idle w)"
    "queue_ok (if cs = [] then shape n else Settled None) (dom (chan n) - set cs) (links i)"
    by (rule tick_idle [OF w e cs_def])
  obtain loc where rp: "rep (srv w) loc (nd n)" using w by (auto simp: world_rep_def represents_def)
  obtain ks s' loc' where ks: "expire_entries now MAX_WORKS (srv w) = Some (ks, s')" "rep s' loc' (fold drop_key ks (nd n))"
    "distinct ks" "length ks \<le> MAX_WORKS" "\<forall>k \<in> set ks. \<exists>v. ddue (nd n) k = Some v \<and> v < now"
    "length ks < MAX_WORKS \<longrightarrow> (\<forall>k v. ddue (nd n) k = Some v \<longrightarrow> k \<notin> set ks \<longrightarrow> now \<le> v)"
    using expire_entries_ok [OF rp, of now MAX_WORKS] by (elim exE conjE) (rule that)
  let ?w = "w\<lparr>srv := s', idle := i, conns := (conns w) |` (- set cs)\<rparr>"
  let ?n = "n\<lparr>nd := fold drop_key ks (nd n), chan := chan n |` (- set cs), shape := if cs = [] then shape n else Settled None\<rparr>"
  have "process_timers now w = Some ((cs, ks), ?w)"
    using i(1) ks(1) by (simp add: process_timers_def)
  moreover have "net_step stod n (Tick now) (Expired cs ks) ?n"
    by (rule net_step.timers [OF _ cs_def]) (use ks(3-6) in simp)
  moreover have "conn_rep ?w b x" if "(chan n |` (- set cs)) b = Some x" for b x
    using that conn_rep_other [OF world_conn [OF w, of b x], of ?w] i(2)
    by (simp add: restrict_map_def split: if_splits)
  then have "world_rep ?w ?n"
    using w ks(2) i(3) by (auto simp: world_rep_def represents_def Diff_eq)
  ultimately show ?thesis using that by blast
qed

interpretation main: simulation world_rep "world_step stod" "net_step stod" "net_ok stod" for stod
proof (unfold_locales, goal_cases)
  case (1 w n e)
  then show ?case
    by (cases e) (auto elim: accept_ok service_ok tick_ok simp del: net_ok.simps)
next
  case (2 w n e out w')
  show ?case
  proof (cases e)
    case (Accepted t a c)
    then show ?thesis using 2 by (auto elim!: accept_ok [of w n stod t a c] intro: net_step.accept simp del: net_ok.simps)
  next
    case (Ready now t a r)
    obtain bs w1 n' where s: "service_conn stod now t a r w = Some (bs, w1)"
      "net_step stod n (Ready now t a r) (Sent bs (conns w1 a = None)) n'" "world_rep w1 n'"
      by (rule service_ok [OF 2(1,2) [unfolded Ready]])
    then show ?thesis using 2(3) Ready by auto
  next
    case (Tick now)
    obtain cs ks w1 n' where s: "process_timers now w = Some ((cs, ks), w1)" "net_step stod n (Tick now) (Expired cs ks) n'"
      "world_rep w1 n'" by (rule tick_ok [OF 2(1,2) [unfolded Tick]])
    then show ?thesis using 2(3) Tick by auto
  qed
qed

subsection \<open>What goes over a connection\<close>

definition net_init :: net where
  "net_init = \<lparr>nd = db_empty, chan = Map.empty, shape = Settled None\<rparr>"

lemma world_rep_init: "world_rep world_init net_init"
  by (simp add: world_rep_def world_init_def net_init_def represents_init idle_empty_def DList_init_def star_def)

text \<open>The bytes that the connection at an address has delivered and got, since it was accepted.\<close>

fun hear :: "addr \<Rightarrow> net_event \<times> net_outcome \<Rightarrow> bytes \<Rightarrow> bytes" where
  "hear a (Accepted t b c, out) bs = (if b = a then [] else bs)"
| "hear a (Ready now t b r, out) bs = (if b = a then bs @ delivered r else bs)"
| "hear a (Tick now, out) bs = bs"

fun tell :: "addr \<Rightarrow> net_event \<times> net_outcome \<Rightarrow> bytes \<Rightarrow> bytes" where
  "tell a (Accepted t b c, out) bs = (if b = a then [] else bs)"
| "tell a (Ready now t b r, Sent ys closed) bs = (if b = a then bs @ ys else bs)"
| "tell a (e, out) bs = bs"

definition received :: "addr \<Rightarrow> (net_event \<times> net_outcome) list \<Rightarrow> bytes" where
  "received a tr = fold (hear a) tr []"

definition sent_on :: "addr \<Rightarrow> (net_event \<times> net_outcome) list \<Rightarrow> bytes" where
  "sent_on a tr = fold (tell a) tr []"

lemma batch_length: "batch stod now i cmds d rps d' \<Longrightarrow> length rps = length cmds"
  by (induction stod now i cmds d rps d' rule: batch.induct) auto

lemma requests_append: "requests (xs @ ys) = requests xs @ requests ys"
  by (simp add: requests_def)

lemma replies_append: "replies (xs @ ys) = replies xs @ replies ys"
  by (simp add: replies_def)

text \<open>The dialogue on a connection is requests and as many replies, up to what is buffered.\<close>

definition dialogue :: "net \<Rightarrow> addr \<Rightarrow> bytes \<Rightarrow> bytes \<Rightarrow> bool" where
  "dialogue n a ins outs = (\<exists>cmds rps rest kept. ins = requests cmds @ rest \<and> outs @ kept = replies rps \<and>
     length rps = length cmds \<and> (\<forall>p ys t. chan n a = Some (p, ys, t) \<longrightarrow> rest = p \<and> kept = ys))"

lemma dialogueI:
  "ins = requests cmds @ rest \<Longrightarrow> outs @ kept = replies rps \<Longrightarrow> length rps = length cmds \<Longrightarrow>
    (\<And>p ys t. chan n a = Some (p, ys, t) \<Longrightarrow> rest = p \<and> kept = ys) \<Longrightarrow> dialogue n a ins outs"
  unfolding dialogue_def by blast

lemma dialogue_other:
  "dialogue n a ins outs \<Longrightarrow> (\<And>x. chan n' a = Some x \<Longrightarrow> chan n a = Some x) \<Longrightarrow> dialogue n' a ins outs"
  unfolding dialogue_def by (elim exE conjE) ((rule exI)+, intro conjI, assumption+, blast)

lemma dialogue_start: "(\<And>p ys t. chan n a = Some (p, ys, t) \<Longrightarrow> p = [] \<and> ys = []) \<Longrightarrow> dialogue n a [] []"
  by (rule dialogueI [of _ "[]" "[]" _ "[]" "[]"]) (auto simp: requests_def replies_def)

lemma dialogue_step:
  assumes "net_step stod n e out n'" "dialogue n a ins outs"
  shows "dialogue n' a (hear a (e, out) ins) (tell a (e, out) outs)"
  using assms(1)
proof cases
  case (accept t b c)
  show ?thesis
  proof (cases "b = a")
    case True
    have "dialogue n' a [] []" by (rule dialogue_start) (simp add: accept True)
    then show ?thesis using accept True by simp
  next
    case False
    have "dialogue n' a ins outs" by (rule dialogue_other [OF assms(2)]) (use accept False in auto)
    then show ?thesis using accept False by simp
  qed
next
  case (service b p ys t0 r cmds rest now rps d' bs kept closed t)
  show ?thesis
  proof (cases "b = a")
    case True
    obtain cmds0 rps0 where d: "ins = requests cmds0 @ p" "outs @ ys = replies rps0" "length rps0 = length cmds0"
      using assms(2) service(4) True unfolding dialogue_def by blast
    have "dialogue n' a (ins @ delivered r) (outs @ bs)"
    proof (rule dialogueI)
      show "ins @ delivered r = requests (cmds0 @ cmds) @ rest" using d(1) service(5) by (simp add: requests_append)
      show "(outs @ bs) @ kept = replies (rps0 @ rps)"
        unfolding replies_append by (metis d(2) service(9) append_assoc)
      show "length (rps0 @ rps) = length (cmds0 @ cmds)" using d(3) batch_length [OF service(8)] by simp
    qed (use service True in \<open>auto split: if_splits\<close>)
    then show ?thesis using service(1,2) True by simp
  next
    case False
    have "dialogue n' a ins outs" by (rule dialogue_other [OF assms(2)]) (use service False in auto)
    then show ?thesis using service False by simp
  qed
next
  case (timers now ks d' cs)
  have "dialogue n' a ins outs"
    by (rule dialogue_other [OF assms(2)]) (use timers in \<open>auto simp: restrict_map_def split: if_splits\<close>)
  then show ?thesis using timers by simp
qed

lemma dialogue_runs:
  "runs (net_step stod) n tr n' \<Longrightarrow> dialogue n a ins outs \<Longrightarrow> dialogue n' a (fold (hear a) tr ins) (fold (tell a) tr outs)"
proof (induction arbitrary: ins outs rule: runs.induct)
  case (more n e out n1 tr n')
  show ?case using more.IH [OF dialogue_step [OF more.hyps(1) more.prems]] by simp
qed simp

end
