(* ===== verification/MRD_Loop.thy ===== *)
theory MRD_Loop
  imports MRD_World
begin

text \<open>
  The rounds of the main loop as sequences of steps, the properties of the program as a whole, and the
  runs in which the idle list leads to freed memory.
\<close>

subsection \<open>Loops over simulated steps\<close>

text \<open>
  A loop whose body does the steps of a machine that simulates another one, until the machine stops
  running: it returns, with what its result says of the run it did, and that run is one of the abstract
  machine, too.
\<close>

lemma safe_runs:
  "safe step ok s (es @ es') \<Longrightarrow> safe step ok s es"
  by (induction es arbitrary: s) auto

locale event_loop = simulation rel cstep astep ok
  for rel :: "'c \<Rightarrow> 'a \<Rightarrow> bool" and cstep :: "'c \<Rightarrow> 'e \<Rightarrow> 'o \<Rightarrow> 'c \<Rightarrow> bool" and astep :: "'a \<Rightarrow> 'e \<Rightarrow> 'o \<Rightarrow> 'a \<Rightarrow> bool"
    and ok :: "'a \<Rightarrow> 'e \<Rightarrow> bool" +
  fixes running :: "'c \<Rightarrow> bool"
    and live :: "'a \<Rightarrow> bool"
    and steps :: "'i \<Rightarrow> 'e list"
    and loop :: "'i list \<Rightarrow> 'c \<Rightarrow> 'r option"
    and result :: "('e \<times> 'o) list \<Rightarrow> 'c \<Rightarrow> 'r"
  assumes running_law: "rel c a \<Longrightarrow> running c = live a"
    and loop_nil: "loop [] c = Some (result [] c)"
    and loop_stop: "\<not> running c \<Longrightarrow> loop (i # is) c = Some (result [] c)"
    and loop_step: "running c \<Longrightarrow> runs cstep c tr c1 \<Longrightarrow> map fst tr = steps i \<Longrightarrow>
      loop is c1 = Some (result tr' c') \<Longrightarrow> loop (i # is) c = Some (result (tr @ tr') c')"
begin

lemma loop_runs:
  assumes "rel c a" "safe astep ok a (concat (map steps is))"
  shows "\<exists>tr c' a' k. loop is c = Some (result tr c') \<and> map fst tr = concat (map steps (take k is)) \<and>
    runs cstep c tr c' \<and> runs astep a tr a' \<and> rel c' a' \<and> (k < length is \<longrightarrow> \<not> live a')"
  using assms
proof (induction "is" arbitrary: c a)
  case Nil
  then show ?case by (intro exI [of _ "[]"] exI [of _ c] exI [of _ a]) (simp add: loop_nil)
next
  case (Cons i "is")
  show ?case
  proof (cases "running c")
    case False
    then have "loop (i # is) c = Some (result [] c) \<and> map fst [] = concat (map steps (take 0 (i # is))) \<and>
        runs cstep c [] c \<and> runs astep a [] a \<and> rel c a \<and> (0 < length (i # is) \<longrightarrow> \<not> live a)"
      using Cons.prems(1) running_law by (simp add: loop_stop)
    then show ?thesis by blast
  next
    case True
    have now: "safe astep ok a (steps i)" by (rule safe_runs) (use Cons.prems(2) in simp)
    then obtain tr c1 where tr: "map fst tr = steps i" "runs cstep c tr c1"
      using runs_progress [OF Cons.prems(1)] by blast
    then obtain a1 where a1: "runs astep a tr a1" "rel c1 a1"
      using runs_simulate [OF tr(2) Cons.prems(1)] now by auto
    have "safe astep ok a1 (concat (map steps is))"
      by (rule safe_append [OF _ a1(1) tr(1)]) (use Cons.prems(2) in simp)
    then obtain tr' c' a' k where ih: "loop is c1 = Some (result tr' c')" "map fst tr' = concat (map steps (take k is))"
      "runs cstep c1 tr' c'" "runs astep a1 tr' a'" "rel c' a'" "k < length is \<longrightarrow> \<not> live a'"
      using Cons.IH [OF a1(2)] by blast
    have "loop (i # is) c = Some (result (tr @ tr') c')" by (rule loop_step [OF True tr(2,1) ih(1)])
    moreover have "map fst (tr @ tr') = concat (map steps (take (Suc k) (i # is)))" using tr(1) ih(2) by simp
    moreover have "runs cstep c (tr @ tr') c'" using tr(2) ih(3) by (auto simp: runs_append)
    moreover have "runs astep a (tr @ tr') a'" using a1(1) ih(4) by (auto simp: runs_append)
    moreover have "Suc k < length (i # is) \<longrightarrow> \<not> live a'" using ih(6) by simp
    ultimately show ?thesis using ih(5) by blast
  qed
qed

end

subsection \<open>Rounds as steps\<close>

definition events :: "round \<Rightarrow> net_event list" where
  "events i = (case accepted i of None \<Rightarrow> [] | Some (t, a, c) \<Rightarrow> [Accepted t a c]) @
     map (\<lambda>(now, t, a, r). Ready now t a r) (ready i) @ [Tick (tick i)]"

lemma map_append_split: "map f xs = ys @ zs \<Longrightarrow> \<exists>us vs. xs = us @ vs \<and> map f us = ys \<and> map f vs = zs"
  by (auto simp: map_eq_append_conv)

lemma service_all_runs:
  "runs (world_step stod) w tr w' \<Longrightarrow> map fst tr = map (\<lambda>(now, t, a, r). Ready now t a r) rs \<Longrightarrow> service_all stod rs w = Some w'"
proof (induction rs arbitrary: w tr)
  case (Cons x rs)
  obtain now t a r where x: "x = (now, t, a, r)" by (rule prod_cases4)
  obtain y tr' where tr: "tr = y # tr'" "fst y = Ready now t a r" "map fst tr' = map (\<lambda>(now, t, a, r). Ready now t a r) rs"
    using Cons.prems(2) unfolding x by (auto simp: map_eq_Cons_conv)
  then obtain w1 where "world_step stod w (Ready now t a r) (snd y) w1" "runs (world_step stod) w1 tr' w'"
    using Cons.prems(1) by (cases y) auto
  then show ?case using Cons.IH tr(3) by (auto simp: x)
qed simp

text \<open>The three parts of a round, and the steps before its timers.\<close>

lemma round_split:
  assumes "runs (world_step stod) w tr w'" "map fst tr = events i"
  obtains w1 w2 tr' x where
    "(case accepted i of None \<Rightarrow> Some w | Some (t, a, c) \<Rightarrow> accept_conn t a c w) = Some w1"
    "service_all stod (ready i) w1 = Some w2" "process_timers (tick i) w2 = Some (x, w')"
    "runs (world_step stod) w tr' w2" "events i = map fst tr' @ [Tick (tick i)]"
proof -
  define acc where "acc = (case accepted i of None \<Rightarrow> [] | Some (t, a, c) \<Rightarrow> [Accepted t a c])"
  obtain tr1 tr2 tr3 where tr: "tr = tr1 @ tr2 @ tr3" "map fst tr1 = acc"
    "map fst tr2 = map (\<lambda>(now, t, a, r). Ready now t a r) (ready i)" "map fst tr3 = [Tick (tick i)]"
  proof -
    have "map fst tr = acc @ map (\<lambda>(now, t, a, r). Ready now t a r) (ready i) @ [Tick (tick i)]"
      using assms(2) by (simp add: events_def acc_def)
    from map_append_split [OF this] obtain tr1 vs where 1: "tr = tr1 @ vs" "map fst tr1 = acc"
      "map fst vs = map (\<lambda>(now, t, a, r). Ready now t a r) (ready i) @ [Tick (tick i)]" by (elim exE conjE)
    from map_append_split [OF 1(3)] obtain tr2 tr3 where "vs = tr2 @ tr3"
      "map fst tr2 = map (\<lambda>(now, t, a, r). Ready now t a r) (ready i)" "map fst tr3 = [Tick (tick i)]" by (elim exE conjE)
    with 1 show ?thesis by (intro that) simp_all
  qed
  then obtain w1 w2 where r: "runs (world_step stod) w tr1 w1" "runs (world_step stod) w1 tr2 w2" "runs (world_step stod) w2 tr3 w'"
    using assms(1) by (auto simp: runs_append)
  have "(case accepted i of None \<Rightarrow> Some w | Some (t, a, c) \<Rightarrow> accept_conn t a c w) = Some w1"
    using r(1) tr(2) by (cases "accepted i") (auto simp: acc_def map_eq_Cons_conv)
  moreover have "service_all stod (ready i) w1 = Some w2" by (rule service_all_runs [OF r(2) tr(3)])
  moreover obtain x where "process_timers (tick i) w2 = Some (x, w')"
    using r(3) tr(4) by (auto simp: map_eq_Cons_conv)
  moreover have "runs (world_step stod) w (tr1 @ tr2) w2" using r(1,2) by (auto simp: runs_append)
  moreover have "events i = map fst (tr1 @ tr2) @ [Tick (tick i)]" using assms(2) tr by simp
  ultimately show ?thesis using that by blast
qed

lemma main_round_runs:
  "runs (world_step stod) w tr w' \<Longrightarrow> map fst tr = events i \<Longrightarrow> main_round stod i w = Some w'"
  by (erule (1) round_split) (simp add: main_round_def)

lemma world_running: "world_rep w n \<Longrightarrow> is_running (srv w) = alive (nd n)"
  by (auto simp: world_rep_def represents_def rep_def valued_def)

interpretation rounds: event_loop world_rep "world_step stod" "net_step stod" "net_ok stod"
  "\<lambda>w. is_running (srv w)" "\<lambda>n. alive (nd n)" events "main_loop stod" "\<lambda>tr w. w" for stod
  by unfold_locales (simp_all add: world_running main_round_runs)

subsection \<open>Properties\<close>

text \<open>C1: The main loop refines the abstract server: on every sequence of rounds whose new connections,
  ready connections and timer ticks are admissible it returns, in a state that represents the one the
  abstract server reaches on the events of the rounds it ran, and it has left out rounds only when a
  request ended the server. In particular every step is defined, the closing of connections included,
  as long as no connection is closed after two were accepted with no activity in between.\<close>

theorem main_loop_correct:
  assumes "safe (net_step stod) (net_ok stod) net_init (concat (map events is))"
  shows "\<exists>w tr n k. main_loop stod is world_init = Some w \<and> map fst tr = concat (map events (take k is)) \<and>
    runs (net_step stod) net_init tr n \<and> world_rep w n \<and> (k < length is \<longrightarrow> \<not> alive (nd n))"
  using rounds.loop_runs [OF world_rep_init assms] by blast

definition sample_conn :: conn where
  "sample_conn = conn_new (Buffer_init 8) (Buffer_init 8)"

definition sample_ready :: "bytes \<Rightarrow> readiness" where
  "sample_ready d = \<lparr>pollin = True, pollout = False, pollerr = False, got = Some d,
     read_wr = \<lambda>data. (0, False), poll_wr = \<lambda>data. (0, False)\<rparr>"

definition sample_round :: round where
  "sample_round = \<lparr>accepted = Some (1, 5, sample_conn), ready = [], tick = 2\<rparr>"

text \<open>A connection is accepted; later its peer ends it.\<close>

definition sample_rounds :: "round list" where
  "sample_rounds = [sample_round, \<lparr>accepted = None, ready = [(\<lambda>i. 3, 3, 5, sample_ready [])], tick = 4\<rparr>]"

lemma sample_ready_simps [simp]:
  "delivered (sample_ready d) = d" "pollin (sample_ready d)" "ended (sample_ready d) \<longleftrightarrow> d = []"
  "bounded (read_wr (sample_ready d))" "bounded (poll_wr (sample_ready d))" "\<not> blocks (sample_ready d)"
  by (auto simp: delivered_def sample_ready_def ended_def bounded_def blocks_def would_block_def)

lemma sample_round_events: "events sample_round = [Accepted 1 5 sample_conn, Tick 2]"
  by (simp add: events_def sample_round_def)

lemma sample_accept_ok: "net_ok stod net_init (Accepted 1 5 sample_conn)"
  by (simp add: net_init_def idle_list_def sample_conn_def conn_new_def asks_def poll_events_def)

lemma sample_accepted:
  assumes "net_step stod net_init (Accepted 1 5 sample_conn) out n"
  shows "nd n = db_empty" "chan n 5 = Some ([], [], 1)" "shape n = Fresh 5"
  using assms by (simp_all add: net_init_def)

lemma sample_ticked:
  assumes "net_step stod n (Tick now) out n'" "overdue now (shape n) (stamp n) = []"
  shows "chan n' = chan n" "shape n' = shape n"
  using assms by auto

lemma sample_rounds_safe: "safe (net_step stod) (net_ok stod) net_init (concat (map events sample_rounds))"
proof -
  have ev: "concat (map events sample_rounds) =
      [Accepted 1 5 sample_conn, Tick 2, Ready (\<lambda>i. 3) 3 5 (sample_ready []), Tick 4]"
    by (simp add: sample_rounds_def sample_round_events) (simp add: events_def)
  show ?thesis unfolding ev safe.simps
  proof (intro conjI allI impI TrueI)
    show "net_ok stod net_init (Accepted 1 5 sample_conn)" by (rule sample_accept_ok)
    fix out1 n1 assume "net_step stod net_init (Accepted 1 5 sample_conn) out1 n1"
    note n1 = sample_accepted [OF this]
    show "net_ok stod n1 (Tick 2)" by (simp add: n1)
    fix out2 n2 assume "net_step stod n1 (Tick 2) out2 n2"
    from sample_ticked [OF this] have n2: "chan n2 5 = Some ([], [], 1)" "shape n2 = Fresh 5"
      by (simp_all add: n1 overdue_def stamp_def IDLE_TIMEOUT_MS_def)
    have "[] @ delivered (sample_ready []) = requests [] @ []" "incomplete ([] :: bytes)"
      by (simp_all add: requests_def incomplete_def)
    then show "net_ok stod n2 (Ready (\<lambda>i. 3) 3 5 (sample_ready []))"
      using n2 batch_ok.simps(1) unfolding net_ok.simps
      by (intro conjI sample_ready_simps exI [of _ "[]"] exI [of _ 1]) simp_all
    fix out3 n3 assume "net_step stod n2 (Ready (\<lambda>i. 3) 3 5 (sample_ready [])) out3 n3"
    then have "shape n3 \<noteq> Crowded" by cases (auto simp: n2)
    then show "net_ok stod n3 (Tick 4)" by simp
  qed
qed

lemma main_loop_correct_witness:
  "\<exists>w n. main_loop (\<lambda>w. Invalid w) sample_rounds world_init = Some w \<and> world_rep w n \<and> conns w 5 = None"
proof -
  have "map_option (\<lambda>w. Option.is_none (conns w 5)) (main_loop (\<lambda>w. Invalid w) sample_rounds world_init) = Some True"
    by code_simp
  then show ?thesis
    using main_loop_correct [OF sample_rounds_safe, of "\<lambda>w. Invalid w"] by (auto simp: Option.is_none_def)
qed

text \<open>C6: Nothing is lost, repeated or mixed up between connections: in every run, whatever connections
  come and go, the bytes that a connection has delivered since it was accepted are the frames of some
  requests and a rest, the bytes sent to it are the frames of as many replies, up to a part that is
  not sent yet; as long as the connection is open that rest and that part are its buffers.\<close>

theorem channel_correct:
  assumes "safe (net_step stod) (net_ok stod) net_init (map fst tr)" "runs (world_step stod) world_init tr w"
  shows "\<exists>cmds rps rest kept. received a tr = requests cmds @ rest \<and> sent_on a tr @ kept = replies rps \<and>
    length rps = length cmds \<and>
    (\<forall>c. conns w a = Some c \<longrightarrow> incomplete rest \<and> holds (incoming c) rest \<and> holds (outgoing c) kept)"
proof -
  obtain n where n: "runs (net_step stod) net_init tr n" "world_rep w n"
    using main.runs_simulate [OF assms(2) world_rep_init assms(1)] by blast
  have "dialogue net_init a [] []" by (rule dialogue_start) (simp add: net_init_def)
  from dialogue_runs [OF n(1) this] obtain cmds rps rest kept where
    d: "received a tr = requests cmds @ rest" "sent_on a tr @ kept = replies rps" "length rps = length cmds"
      "\<forall>p ys t. chan n a = Some (p, ys, t) \<longrightarrow> rest = p \<and> kept = ys"
    unfolding dialogue_def received_def sent_on_def by blast
  have "incomplete rest \<and> holds (incoming c) rest \<and> holds (outgoing c) kept" if c: "conns w a = Some c" for c
  proof -
    have "a \<in> dom (chan n)" using n(2) c unfolding world_rep_def by blast
    then obtain p ys t where "chan n a = Some (p, ys, t)" by auto
    then show ?thesis using world_conn [OF n(2), of a] c d(4) by (auto simp: conn_rep_def)
  qed
  then show ?thesis using d(1-3) by blast
qed

lemma channel_correct_witness:
  "\<exists>tr w cmds rps rest kept. runs (world_step (\<lambda>w. Invalid w)) world_init tr w \<and> received 5 tr = [3] \<and>
     [3] = requests cmds @ rest \<and> sent_on 5 tr @ kept = replies rps \<and> length rps = length cmds \<and>
     (\<forall>c. conns w 5 = Some c \<longrightarrow> holds (incoming c) rest)"
proof -
  let ?es = "[Accepted 1 5 sample_conn, Ready (\<lambda>i. 3) 3 5 (sample_ready [3])]"
  have safe: "safe (net_step (\<lambda>w. Invalid w)) (net_ok (\<lambda>w. Invalid w)) net_init ?es"
    unfolding safe.simps
  proof (intro conjI allI impI TrueI)
    show "net_ok (\<lambda>w. Invalid w) net_init (Accepted 1 5 sample_conn)" by (rule sample_accept_ok)
    fix out n assume "net_step (\<lambda>w. Invalid w) net_init (Accepted 1 5 sample_conn) out n"
    note n = sample_accepted [OF this]
    have "[] @ delivered (sample_ready [3]) = requests [] @ [3]" "incomplete ([3] :: bytes)"
      by (simp_all add: requests_def incomplete_def)
    then show "net_ok (\<lambda>w. Invalid w) n (Ready (\<lambda>i. 3) 3 5 (sample_ready [3]))"
      using n batch_ok.simps(1) unfolding net_ok.simps
      by (intro conjI sample_ready_simps exI [of _ "[]"] exI [of _ 1] exI [of _ "[3]"]) simp_all
  qed
  obtain tr w where tr: "map fst tr = ?es" "runs (world_step (\<lambda>w. Invalid w)) world_init tr w"
    using main.runs_progress [OF world_rep_init safe] by (elim exE conjE) (rule that)
  then have "received 5 tr = [3]" by (auto simp: received_def map_eq_Cons_conv)
  moreover obtain cmds rps rest kept where "received 5 tr = requests cmds @ rest" "sent_on 5 tr @ kept = replies rps"
    "length rps = length cmds" "\<forall>c. conns w 5 = Some c \<longrightarrow> incomplete rest \<and> holds (incoming c) rest \<and> holds (outgoing c) kept"
    using channel_correct [OF safe [folded tr(1)] tr(2), of 5] by (elim exE conjE) (rule that)
  ultimately show ?thesis using tr(2) by metis
qed

text \<open>C36: In every state in which the idle list is settled, as it is in the beginning and after any
  activity: two connections are accepted with no activity in between, then there is activity on the first,
  and the second is closed. Then the first connection still points to the second, which is freed, so that
  the next activity on the first one, whatever it is, cannot relink it without a write to freed memory,
  and the round does not return.\<close>

theorem main_loop_use_after_free:
  assumes "world_rep w n" "shape n = Settled r"
    and "accept_conn t1 a c1 w = Some w1" "accept_conn t2 b c2 w1 = Some w2"
    and "service_conn stod now3 t3 a r3 w2 = Some (bs3, w3)" "conns w3 a \<noteq> None"
    and "service_conn stod now4 t4 b r4 w3 = Some (bs4, w4)" "conns w4 b = None"
  shows "conns w4 a \<noteq> None \<and> links (idle w4) a = Some \<lparr>nxt = b, prv = idle_list\<rparr> \<and> links (idle w4) b = None \<and>
    idle_active t a (idle w4) = None \<and>
    main_round stod \<lparr>accepted = None, ready = (now, t, a, ev) # rs, tick = t'\<rparr> w4 = None"
proof -
  obtain f where star: "star (links (idle w)) (dom (chan n)) f idle_list"
    using assms(1,2) by (cases r) (auto simp: world_rep_def)
  have 1: "idle_accept t1 a (idle w) = Some (idle w1)" and 2: "idle_accept t2 b (idle w1) = Some (idle w2)"
    using assms(3,4) by (auto simp: accept_conn_def bind_simps)
  have 3: "idle_active t3 a (idle w2) = Some (idle w3)"
    using assms(5,6) by (auto simp: service_conn_def bind_simps split: if_splits)
  obtain s where 4: "idle_active t4 b (idle w3) = Some s" "conn_destroy b s = Some (idle w4)" "conns w4 = (conns w3)(b := None)"
    using assms(7,8) by (auto simp: service_conn_def bind_simps split: if_splits)
  note d = crowded_dangling [OF star 1 2 3 4(1,2)]
  have "conns w4 a \<noteq> None" using d(1,2) assms(6) 4(3) by auto
  then show ?thesis using d(1,2,4) by (simp add: main_round_def service_conn_def)
qed

lemma main_loop_use_after_free_witness:
  "\<exists>w4. do {
      w1 \<leftarrow> accept_conn 1 5 sample_conn world_init; w2 \<leftarrow> accept_conn 3 6 sample_conn w1;
      (bs3, w3) \<leftarrow> service_conn (\<lambda>w. Invalid w) (\<lambda>i. 4) 4 5 (sample_ready [1]) w2;
      (bs4, w4) \<leftarrow> service_conn (\<lambda>w. Invalid w) (\<lambda>i. 5) 5 6 (sample_ready []) w3;
      Some w4 } = Some w4 \<and> conns w4 5 \<noteq> None \<and>
    main_round (\<lambda>w. Invalid w) \<lparr>accepted = None, ready = [(\<lambda>i. 6, 6, 5, sample_ready [1])], tick = 6\<rparr> w4 = None"
proof -
  have "do {
      w1 \<leftarrow> accept_conn 1 5 sample_conn world_init; w2 \<leftarrow> accept_conn 3 6 sample_conn w1;
      (bs3, w3) \<leftarrow> service_conn (\<lambda>w. Invalid w) (\<lambda>i. 4) 4 5 (sample_ready [1]) w2;
      (bs4, w4) \<leftarrow> service_conn (\<lambda>w. Invalid w) (\<lambda>i. 5) 5 6 (sample_ready []) w3;
      Some (Option.is_none (conns w3 5), Option.is_none (conns w4 6)) } = Some (False, True)" by code_simp
  then obtain w1 w2 bs3 w3 bs4 w4 where w: "accept_conn 1 5 sample_conn world_init = Some w1" "accept_conn 3 6 sample_conn w1 = Some w2"
    "service_conn (\<lambda>w. Invalid w) (\<lambda>i. 4) 4 5 (sample_ready [1]) w2 = Some (bs3, w3)" "conns w3 5 \<noteq> None"
    "service_conn (\<lambda>w. Invalid w) (\<lambda>i. 5) 5 6 (sample_ready []) w3 = Some (bs4, w4)" "conns w4 6 = None"
    by (auto simp: bind_simps Option.is_none_def)
  have "shape net_init = Settled None" by (simp add: net_init_def)
  from main_loop_use_after_free [OF world_rep_init this w] show ?thesis using w by auto
qed

end
