(* ===== verification/MRD_Setup.thy ===== *)
theory MRD_Setup
  imports MRD_Request
begin

text \<open>
  The set-up of the sockets: \<^verbatim>\<open>Server::init\<close> and the first part of the client's \<^verbatim>\<open>main\<close>. The results of the
  system calls are arguments, as functions of the port and the address where they get one; a port is the
  first argument of the server and the second of the client. Every failure ends the program.
\<close>

subsection \<open>Addresses\<close>

text \<open>On the machine of the model, \<^verbatim>\<open>ntohs\<close> and \<^verbatim>\<open>ntohl\<close> reverse the bytes.\<close>

definition ntohs :: "16 word \<Rightarrow> 16 word" where
  "ntohs v = le_word (rev (le_bytes 2 v))"

definition ntohl :: "32 word \<Rightarrow> 32 word" where
  "ntohl v = le_word (rev (le_bytes 4 v))"

text \<open>The exceptions of \<^verbatim>\<open>std::stoi\<close> are not caught, and its result is cut to 16 bits.\<close>

definition port_of :: "bytes option \<Rightarrow> 16 word option" where
  "port_of arg = (case arg of None \<Rightarrow> Some (ntohs 1234)
     | Some s \<Rightarrow> (case stoi s of Parsed v \<Rightarrow> Some (ntohs (ucast v)) | _ \<Rightarrow> None))"

subsection \<open>Server and client\<close>

definition Server_init :: "bytes option \<Rightarrow> int \<Rightarrow> (16 word \<Rightarrow> 32 word \<Rightarrow> int) \<Rightarrow> int \<Rightarrow> int option" where
  "Server_init arg fd bind_rv listen_rv = do {
     oguard (0 \<le> fd);
     port \<leftarrow> port_of arg;
     oguard (bind_rv port (ntohl 0) = 0);
     oguard (listen_rv = 0);
     Some fd
   }"

definition client_connect ::
  "bytes list \<Rightarrow> int \<Rightarrow> (bytes \<Rightarrow> 32 word option) \<Rightarrow> (16 word \<Rightarrow> 32 word \<Rightarrow> int) \<Rightarrow> int option" where
  "client_connect args fd inet_pton connect_rv = do {
     oguard (0 \<le> fd);
     port \<leftarrow> port_of (if length args > 1 then Some (args ! 1) else None);
     ip \<leftarrow> (if length args > 0 then inet_pton (args ! 0) else Some (ntohl 0x7F000001));
     oguard (connect_rv port ip = 0);
     Some fd
   }"

subsection \<open>The port\<close>

lemma ntohs_bytes: "le_bytes 2 (ntohs v) = rev (le_bytes 2 v)"
  unfolding ntohs_def by (rule le_bytes_word) simp_all

text \<open>In memory the port is the number of the argument modulo 2^16, the high byte first.\<close>

lemma port_of_bytes:
  assumes "strtol_value s = Some v" "- (2 ^ 31) \<le> v" "v < 2 ^ 31"
  shows "\<exists>p. port_of (Some s) = Some p \<and> le_bytes 2 p = rev (le_bytes 2 (word_of_int v :: 16 word))"
proof -
  have "stoi s = Parsed (word_of_int v)" using assms by (simp add: stoi_def sto_int_def)
  moreover have "(ucast (word_of_int v :: 64 word) :: 16 word) = word_of_int v"
    by (rule bit_word_eqI) (simp add: bit_simps)
  ultimately show ?thesis by (simp add: port_of_def ntohs_bytes)
qed

lemma Server_init_Some:
  "Server_init arg fd bind_rv listen_rv = Some lfd \<longleftrightarrow>
    lfd = fd \<and> 0 \<le> fd \<and> listen_rv = 0 \<and> (\<exists>port. port_of arg = Some port \<and> bind_rv port 0 = 0)"
proof -
  have "ntohl 0 = 0" by code_simp
  then show ?thesis by (auto simp: Server_init_def bind_simps)
qed

lemma Server_init_port:
  assumes "Server_init arg fd bind_rv listen_rv = Some lfd"
  obtains v port where "case arg of None \<Rightarrow> v = 1234 | Some str \<Rightarrow> strtol_value str = Some v"
    "le_bytes 2 port = rev (le_bytes 2 (word_of_int v :: 16 word))" "bind_rv port 0 = 0"
proof -
  obtain port where port: "port_of arg = Some port" "bind_rv port 0 = 0" using assms by (auto simp: Server_init_Some)
  show ?thesis
  proof (cases arg)
    case None
    then show ?thesis using that [of 1234 port] port by (auto simp: port_of_def ntohs_bytes)
  next
    case (Some str)
    obtain v where v: "strtol_value str = Some v" "- (2 ^ 31) \<le> v" "v < 2 ^ 31"
      using port(1) Some by (auto simp: port_of_def stoi_def sto_int_def split: option.splits if_splits)
    obtain p where "port_of (Some str) = Some p" "le_bytes 2 p = rev (le_bytes 2 (word_of_int v :: 16 word))"
      using port_of_bytes [OF v] by blast
    then show ?thesis using that [of v port] port Some v(1) by auto
  qed
qed

end
