(* ===== verification/MRD_Poll.thy ===== *)
theory MRD_Poll
  imports MRD_Loop MRD_Setup "HOL-Library.Stream"
begin

text \<open>
  The main loop with descriptors: the table \<^verbatim>\<open>fd2conn\<close>, the arguments and the timeout of \<^verbatim>\<open>poll\<close>, its
  errors, the acceptance of a connection, and \<^verbatim>\<open>errno\<close>, which the server tests without having set it.
  Each round does what a round of the loop over connections does, for the connections whose descriptors
  \<^verbatim>\<open>poll\<close> reports. What the system calls answer is an argument: a
  stream of answers for the loop, of which a property may constrain a first part only.
\<close>

subsection \<open>Descriptors\<close>

record loop_state =
  lw :: world
  fd2conn :: "addr option list"
  conn_fd :: "addr \<Rightarrow> nat"
  errno :: int

definition EINTR :: int where "EINTR = 4"

text \<open>The events asked for: a descriptor, readable, writable. The listening descriptor comes first.\<close>

fun poll_conns :: "world \<Rightarrow> (addr \<Rightarrow> nat) \<Rightarrow> addr option list \<Rightarrow> (nat \<times> bool \<times> bool) list option" where
  "poll_conns w fd [] = Some []"
| "poll_conns w fd (None # cs) = poll_conns w fd cs"
| "poll_conns w fd (Some a # cs) = do {
     c \<leftarrow> conns w a;
     ps \<leftarrow> poll_conns w fd cs;
     Some ((fd a, poll_events c) # ps)
   }"

definition poll_args :: "nat \<Rightarrow> loop_state \<Rightarrow> (nat \<times> bool \<times> bool) list option" where
  "poll_args fd s = do {
     ps \<leftarrow> poll_conns (lw s) (conn_fd s) (fd2conn s);
     Some ((fd, True, False) # ps)
   }"

text \<open>The timeout is cut to 32 bits; a negative one is no timeout.\<close>

definition poll_timeout :: "u64 \<Rightarrow> loop_state \<Rightarrow> int option" where
  "poll_timeout now s = do {
     ms \<leftarrow> next_timer_ms now (map_option snd (timer_first (ttl (srv (lw s))))) (idle (lw s));
     Some (sint (ucast ms :: 32 word))
   }"

subsection \<open>Acceptance\<close>

text \<open>\<open>failed\<close> is the error of a call of \<^verbatim>\<open>fcntl\<close>; a call that succeeds leaves \<^verbatim>\<open>errno\<close> as it is.\<close>

definition fd_set_nb :: "int option \<Rightarrow> loop_state \<Rightarrow> loop_state option" where
  "fd_set_nb failed s = do {
     let s = (case failed of None \<Rightarrow> s | Some e \<Rightarrow> s\<lparr>errno := e\<rparr>);
     oguard (errno s = 0);
     Some s
   }"

text \<open>
  What \<^verbatim>\<open>accept\<close> gives: an error, or a descriptor, with the clock, the address of the new connection and
  the error of \<^verbatim>\<open>fcntl\<close>.
\<close>

datatype accept_result = Refused int | Client nat u64 addr "int option"

definition new_conn :: conn where
  "new_conn = conn_new (Buffer_init (64 * 1024)) (Buffer_init (64 * 1024))"

definition handle_accept :: "accept_result \<Rightarrow> loop_state \<Rightarrow> (addr option \<times> loop_state) option" where
  "handle_accept res s =
    (case res of
       Refused e \<Rightarrow> Some (None, s\<lparr>errno := e\<rparr>)
     | Client fd now a failed \<Rightarrow> do {
         s \<leftarrow> fd_set_nb failed s;
         w \<leftarrow> accept_conn now a new_conn (lw s);
         Some (Some a, s\<lparr>lw := w, conn_fd := (conn_fd s)(a := fd)\<rparr>)
       })"

definition register_conn :: "addr \<Rightarrow> loop_state \<Rightarrow> loop_state" where
  "register_conn a s =
    (let fds = fd2conn s; fd = conn_fd s a;
         fds = (if length fds \<le> fd then fds @ replicate (fd + 1 - length fds) None else fds)
     in s\<lparr>fd2conn := fds[fd := Some a]\<rparr>)"

text \<open>The part of \<^verbatim>\<open>conn_destroy\<close> that clears the table.\<close>

definition release_fd :: "addr \<Rightarrow> loop_state \<Rightarrow> loop_state option" where
  "release_fd a s = do {
     oguard (conn_fd s a < length (fd2conn s));
     Some (s\<lparr>fd2conn := (fd2conn s)[conn_fd s a := None]\<rparr>)
   }"

fun release_fds :: "addr list \<Rightarrow> loop_state \<Rightarrow> loop_state option" where
  "release_fds [] s = Some s"
| "release_fds (a # as) s = Option.bind (release_fd a s) (release_fds as)"

subsection \<open>Rounds\<close>

text \<open>
  What happens on a ready connection: the clock of its requests and of its activity, what its poll and
  system calls give, and the error that they leave in \<^verbatim>\<open>errno\<close>.
\<close>

type_synonym activity = "(nat \<Rightarrow> u64) \<times> u64 \<times> readiness \<times> int option"

definition service_fd :: "(bytes \<Rightarrow> u64 parsed) \<Rightarrow> nat \<Rightarrow> activity \<Rightarrow> loop_state \<Rightarrow> loop_state option" where
  "service_fd stod fd = (\<lambda>(now, t, r, e) s. do {
     oguard (fd < length (fd2conn s));
     a \<leftarrow> fd2conn s ! fd;
     (sent, w) \<leftarrow> service_conn stod now t a r (lw s);
     let s = s\<lparr>lw := w, errno := (case e of None \<Rightarrow> errno s | Some x \<Rightarrow> x)\<rparr>;
     (if conns w a = None then release_fd a s else Some s)
   })"

fun service_fds :: "(bytes \<Rightarrow> u64 parsed) \<Rightarrow> (nat \<Rightarrow> activity option) \<Rightarrow> nat list \<Rightarrow> loop_state \<Rightarrow> loop_state option" where
  "service_fds stod ev [] s = Some s"
| "service_fds stod ev (fd # fds) s =
    (case ev fd of
       None \<Rightarrow> service_fds stod ev fds s
     | Some x \<Rightarrow> Option.bind (service_fd stod fd x s) (service_fds stod ev fds))"

definition timers_fds :: "u64 \<Rightarrow> loop_state \<Rightarrow> loop_state option" where
  "timers_fds now s = do {
     ((closed, removed), w) \<leftarrow> process_timers now (lw s);
     release_fds closed (s\<lparr>lw := w\<rparr>)
   }"

text \<open>The answer of \<^verbatim>\<open>poll\<close>: an error, or whether a client waits, and what it reports per descriptor.\<close>

datatype poll_answer = Failed int | Answered "accept_result option" "nat \<Rightarrow> activity option"

record poll_input =
  clock :: u64
  answer :: poll_answer
  timer_clock :: u64

text \<open>A round also returns what it asked \<^verbatim>\<open>poll\<close> for.\<close>

definition poll_round :: "(bytes \<Rightarrow> u64 parsed) \<Rightarrow> nat \<Rightarrow> poll_input \<Rightarrow> loop_state \<Rightarrow>
    (((nat \<times> bool \<times> bool) list \<times> int) \<times> loop_state) option" where
  "poll_round stod fd i s = do {
     args \<leftarrow> poll_args fd s;
     timeout \<leftarrow> poll_timeout (clock i) s;
     (case answer i of
        Failed e \<Rightarrow> if e = EINTR then Some ((args, timeout), s\<lparr>errno := e\<rparr>) else None
      | Answered client ev \<Rightarrow> do {
          s \<leftarrow> (case client of
                 None \<Rightarrow> Some s
               | Some res \<Rightarrow> do {
                   (new, s) \<leftarrow> handle_accept res s;
                   Some (case new of None \<Rightarrow> s | Some a \<Rightarrow> register_conn a s)
                 });
          s \<leftarrow> service_fds stod ev (map fst (tl args)) s;
          s \<leftarrow> timers_fds (timer_clock i) s;
          Some ((args, timeout), s)
        })
   }"

text \<open>
  The loop reads the answers of the system from a stream, since nothing but a request ends it; when none
  does, it does not return.
\<close>

partial_function (option) poll_loop ::
  "(bytes \<Rightarrow> u64 parsed) \<Rightarrow> nat \<Rightarrow> poll_input stream \<Rightarrow> loop_state \<Rightarrow> loop_state option" where
  "poll_loop stod fd is s =
    (if is_running (srv (lw s)) then do {
       (asked, s) \<leftarrow> poll_round stod fd (shd is) s;
       poll_loop stod fd (stl is) s
     } else Some s)"

text \<open>
  The first rounds of the loop, one for each of the given answers unless it ends before: what each of them
  asked for, and the state after them.
\<close>

fun poll_rounds :: "(bytes \<Rightarrow> u64 parsed) \<Rightarrow> nat \<Rightarrow> poll_input list \<Rightarrow> loop_state \<Rightarrow>
    (((nat \<times> bool \<times> bool) list \<times> int) list \<times> loop_state) option" where
  "poll_rounds stod fd [] s = Some ([], s)"
| "poll_rounds stod fd (i # is) s =
    (if is_running (srv (lw s)) then do {
       (asked, s) \<leftarrow> poll_round stod fd i s;
       (outs, s) \<leftarrow> poll_rounds stod fd is s;
       Some (asked # outs, s)
     } else Some ([], s))"

definition loop_init :: loop_state where
  "loop_init = \<lparr>lw = world_init, fd2conn = [], conn_fd = \<lambda>_. 0, errno = 0\<rparr>"

text \<open>The rest of \<^verbatim>\<open>end_run\<close> deletes the connections in the table.\<close>

fun delete_conns :: "addr option list \<Rightarrow> world \<Rightarrow> world option" where
  "delete_conns [] w = Some w"
| "delete_conns (None # cs) w = delete_conns cs w"
| "delete_conns (Some a # cs) w = do {
     c \<leftarrow> conns w a;
     let i = idle w;
     delete_conns cs (w\<lparr>conns := (conns w)(a := None), idle := i\<lparr>links := (links i)(a := None)\<rparr>\<rparr>)
   }"

text \<open>The program, after the set-up of its socket; \<open>now\<close> is the clock at its end.\<close>

definition server_main :: "(bytes \<Rightarrow> u64 parsed) \<Rightarrow> int option \<Rightarrow> u64 \<Rightarrow> poll_input stream \<Rightarrow> world option" where
  "server_main stod started now is = do {
     lfd \<leftarrow> started;
     s \<leftarrow> poll_loop stod (nat lfd) is loop_init;
     srv' \<leftarrow> end_run now (srv (lw s));
     delete_conns (fd2conn s) ((lw s)\<lparr>srv := srv'\<rparr>)
   }"

subsection \<open>The table of descriptors\<close>

definition fd_map :: "addr option list \<Rightarrow> nat \<rightharpoonup> addr" where
  "fd_map fds fd = (if fd < length fds then fds ! fd else None)"

lemma fd_map_simps [simp]:
  "fd_map [] = Map.empty" "fd_map (x # fds) 0 = x" "fd_map (x # fds) (Suc i) = fd_map fds i"
  by (auto simp: fd_map_def fun_eq_iff)

lemma dom_fd_map_Cons: "dom (fd_map (x # fds)) = (if x = None then {} else {0}) \<union> Suc ` dom (fd_map fds)"
proof -
  have "i \<in> dom (fd_map (x # fds)) \<longleftrightarrow> i \<in> (if x = None then {} else {0}) \<union> Suc ` dom (fd_map fds)" for i
    by (cases i) auto
  then show ?thesis by blast
qed

lemma ran_fd_map_Cons: "ran (fd_map (x # fds)) = set_option x \<union> ran (fd_map fds)"
proof -
  have "a \<in> ran (fd_map (x # fds)) \<longleftrightarrow> a \<in> set_option x \<union> ran (fd_map fds)" for a
  proof -
    have "(\<exists>i. fd_map (x # fds) i = Some a) \<longleftrightarrow> x = Some a \<or> (\<exists>i. fd_map fds i = Some a)"
      by (metis fd_map_simps(2,3) not0_implies_Suc)
    then show ?thesis by (auto simp: ran_def)
  qed
  then show ?thesis by blast
qed

lemma fd_map_release: "fd < length fds \<Longrightarrow> fd_map (fds[fd := None]) = (fd_map fds)(fd := None)"
  by (auto simp: fd_map_def fun_eq_iff nth_list_update)

lemma fd_map_register:
  "fd_map ((if length fds \<le> fd then fds @ replicate (fd + 1 - length fds) None else fds)[fd := x]) = (fd_map fds)(fd := x)"
  by (auto simp: fd_map_def fun_eq_iff nth_list_update nth_append)

lemma finite_dom_fd_map: "finite (dom (fd_map fds))"
  by (rule finite_subset [of _ "{..<length fds}"]) (auto simp: fd_map_def split: if_splits)

text \<open>Every open connection is in the table at its descriptor, and nothing else is.\<close>

definition fds_ok :: "loop_state \<Rightarrow> bool" where
  "fds_ok s = ((\<forall>fd a. fd_map (fd2conn s) fd = Some a \<longrightarrow> conn_fd s a = fd) \<and>
     ran (fd_map (fd2conn s)) = dom (conns (lw s)))"

lemma poll_conns_ok:
  assumes "\<forall>i a. fd_map fds i = Some a \<longrightarrow> fd a = k + i \<and> a \<in> dom (conns w)"
  shows "\<exists>ps. poll_conns w fd fds = Some ps \<and> sorted_wrt (<) (map fst ps) \<and>
    set (map fst ps) = (\<lambda>i. k + i) ` dom (fd_map fds) \<and>
    set ps = {(fd a, poll_events c) | a c. a \<in> ran (fd_map fds) \<and> conns w a = Some c}"
  using assms
proof (induction fds arbitrary: k)
  case (Cons x fds)
  have "\<forall>i a. fd_map fds i = Some a \<longrightarrow> fd a = Suc k + i \<and> a \<in> dom (conns w)"
    using Cons.prems [rule_format, of "Suc _"] by simp
  from Cons.IH [OF this] obtain ps where ps: "poll_conns w fd fds = Some ps" "sorted_wrt (<) (map fst ps)"
    "set (map fst ps) = (\<lambda>i. Suc k + i) ` dom (fd_map fds)"
    "set ps = {(fd a, poll_events c) | a c. a \<in> ran (fd_map fds) \<and> conns w a = Some c}" by blast
  have img: "(\<lambda>i. k + i) ` Suc ` A = (\<lambda>i. Suc k + i) ` A" for A by auto
  show ?case
  proof (cases x)
    case None
    then show ?thesis
      using ps by (intro exI [of _ ps]) (simp add: dom_fd_map_Cons ran_fd_map_Cons img del: set_map)
  next
    case (Some a)
    then have a: "fd a = k" "a \<in> dom (conns w)" using Cons.prems [rule_format, of 0 a] by auto
    then obtain c where c: "conns w a = Some c" by blast
    let ?ps = "(k, poll_events c) # ps"
    have "poll_conns w fd (x # fds) = Some ?ps" using Some a(1) c ps(1) by simp
    moreover have "sorted_wrt (<) (map fst ?ps)" using ps(2,3) by (auto simp del: set_map)
    moreover have "set (map fst ?ps) = (\<lambda>i. k + i) ` dom (fd_map (x # fds))"
      using ps(3) Some by (simp add: dom_fd_map_Cons image_Un img del: set_map)
    moreover have "set ?ps = {(fd a, poll_events c) | a c. a \<in> ran (fd_map (x # fds)) \<and> conns w a = Some c}"
      using ps(4) Some a(1) c by (auto simp: ran_fd_map_Cons)
    ultimately show ?thesis by blast
  qed
qed simp

lemma poll_args_ok:
  assumes "fds_ok s"
  obtains ps where "poll_args lfd s = Some ((lfd, True, False) # ps)"
    "map fst ps = sorted_list_of_set (dom (fd_map (fd2conn s)))"
    "set ps = {(conn_fd s a, poll_events c) | a c. conns (lw s) a = Some c}"
proof -
  have ok: "\<forall>i a. fd_map (fd2conn s) i = Some a \<longrightarrow> conn_fd s a = 0 + i \<and> a \<in> dom (conns (lw s))"
    using assms unfolding fds_ok_def by (metis add_0 ranI)
  have ran: "a \<in> ran (fd_map (fd2conn s)) \<longleftrightarrow> a \<in> dom (conns (lw s))" for a
    using assms by (simp add: fds_ok_def)
  obtain ps where ps: "poll_conns (lw s) (conn_fd s) (fd2conn s) = Some ps" "sorted_wrt (<) (map fst ps)"
    "set (map fst ps) = (\<lambda>i. 0 + i) ` dom (fd_map (fd2conn s))"
    "set ps = {(conn_fd s a, poll_events c) | a c. a \<in> ran (fd_map (fd2conn s)) \<and> conns (lw s) a = Some c}"
    using poll_conns_ok [OF ok] by blast
  have "sorted_list_of_set (set (map fst ps)) = map fst ps"
    using ps(2) by (intro sorted_list_of_set.idem_if_sorted_distinct) (simp_all add: strict_sorted_iff)
  then have "map fst ps = sorted_list_of_set (dom (fd_map (fd2conn s)))" using ps(3) by simp
  moreover have "set ps = {(conn_fd s a, poll_events c) | a c. conns (lw s) a = Some c}"
    unfolding ps(4) ran by blast
  ultimately show ?thesis using that ps(1) by (simp add: poll_args_def)
qed

subsection \<open>Rounds with descriptors and rounds over connections\<close>

lemma service_conn_conns:
  "service_conn stod now t a r w = Some (bs, w') \<Longrightarrow> a \<in> dom (conns w) \<and> (\<exists>x. conns w' = (conns w)(a := x))"
  by (auto simp: service_conn_def bind_simps split: if_splits)

lemma service_all_conns: "service_all stod rs w = Some w' \<Longrightarrow> dom (conns w') \<subseteq> dom (conns w)"
proof (induction rs arbitrary: w)
  case (Cons x rs)
  obtain now t a r where x: "x = (now, t, a, r)" by (rule prod_cases4)
  obtain bs w1 where w1: "service_conn stod now t a r w = Some (bs, w1)" "service_all stod rs w1 = Some w'"
    using Cons.prems by (auto simp: x bind_simps)
  have "dom (conns w1) \<subseteq> dom (conns w)" using service_conn_conns [OF w1(1)] by (auto split: if_splits)
  then show ?case using Cons.IH [OF w1(2)] by blast
qed simp

text \<open>The descriptors of the connections that are still open.\<close>

definition open_fds :: "addr set \<Rightarrow> (nat \<rightharpoonup> addr) \<Rightarrow> nat \<rightharpoonup> addr" where
  "open_fds A m fd = (case m fd of None \<Rightarrow> None | Some a \<Rightarrow> if a \<in> A then Some a else None)"

text \<open>The ready connections of a round, in the order of the table.\<close>

definition readies :: "(nat \<Rightarrow> activity option) \<Rightarrow> (nat \<rightharpoonup> addr) \<Rightarrow> nat list \<Rightarrow> ((nat \<Rightarrow> u64) \<times> u64 \<times> addr \<times> readiness) list" where
  "readies ev m fds = concat (map (\<lambda>fd. case ev fd of None \<Rightarrow> [] | Some (now, t, r, e) \<Rightarrow> [(now, t, the (m fd), r)]) fds)"

fun last_error :: "(nat \<Rightarrow> activity option) \<Rightarrow> nat list \<Rightarrow> int \<Rightarrow> int" where
  "last_error ev [] e = e"
| "last_error ev (fd # fds) e = last_error ev fds (case ev fd of Some (now, t, r, Some x) \<Rightarrow> x | _ \<Rightarrow> e)"

lemma readies_cong: "(\<And>fd. fd \<in> set fds \<Longrightarrow> m fd = m' fd) \<Longrightarrow> readies ev m fds = readies ev m' fds"
  by (auto simp: readies_def intro!: arg_cong [where f = concat] split: option.splits)

lemma fd_map_lookup: "fd_map fds fd = Some a \<Longrightarrow> fd < length fds \<and> fds ! fd = Some a"
  by (auto simp: fd_map_def split: if_splits)

lemma fds_ok_inj: "fds_ok s \<Longrightarrow> fd_map (fd2conn s) fd = Some a \<Longrightarrow> fd_map (fd2conn s) fd' = Some a \<Longrightarrow> fd = fd'"
  unfolding fds_ok_def by metis

lemma fds_ok_mem: "fds_ok s \<Longrightarrow> fd_map (fd2conn s) fd = Some a \<Longrightarrow> a \<in> dom (conns (lw s))"
  unfolding fds_ok_def by (metis ranI)

lemma fds_ok_at: "fds_ok s \<Longrightarrow> a \<in> dom (conns (lw s)) \<Longrightarrow> fd_map (fd2conn s) (conn_fd s a) = Some a"
proof -
  assume s: "fds_ok s" and "a \<in> dom (conns (lw s))"
  then have "a \<in> ran (fd_map (fd2conn s))" by (simp add: fds_ok_def)
  then obtain fd where fd: "fd_map (fd2conn s) fd = Some a" by (auto simp: ran_def)
  then have "conn_fd s a = fd" using s by (simp add: fds_ok_def)
  then show ?thesis using fd by simp
qed

lemma open_fds_all: "fds_ok s \<Longrightarrow> open_fds (dom (conns (lw s))) (fd_map (fd2conn s)) = fd_map (fd2conn s)"
  using fds_ok_mem [of s] by (fastforce simp: open_fds_def fun_eq_iff split: option.splits)

lemma open_fds_open_fds: "A \<subseteq> B \<Longrightarrow> open_fds A (open_fds B m) = open_fds A m"
  by (auto simp: open_fds_def fun_eq_iff split: option.splits)

lemma ran_open_fds: "ran (open_fds A m) = ran m \<inter> A"
  by (auto simp: ran_def open_fds_def split: option.splits if_splits)

lemma service_fd_ok:
  assumes s: "fds_ok s" and a: "fd_map (fd2conn s) fd = Some a"
    and w: "service_conn stod now t a r (lw s) = Some (bs, w')"
  obtains s' where "service_fd stod fd (now, t, r, e) s = Some s'" "lw s' = w'" "fds_ok s'"
    "fd_map (fd2conn s') = open_fds (dom (conns w')) (fd_map (fd2conn s))" "errno s' = (case e of None \<Rightarrow> errno s | Some x \<Rightarrow> x)"
proof -
  let ?s = "s\<lparr>lw := w', errno := (case e of None \<Rightarrow> errno s | Some x \<Rightarrow> x)\<rparr>"
  let ?m = "fd_map (fd2conn s)"
  have fd: "fd < length (fd2conn s)" "fd2conn s ! fd = Some a" "conn_fd s a = fd"
    using fd_map_lookup [OF a] s a by (auto simp: fds_ok_def)
  obtain x where x: "conns w' = (conns (lw s))(a := x)" using service_conn_conns [OF w] by blast
  have ran: "ran ?m = dom (conns (lw s))" using s by (simp add: fds_ok_def)
  have others: "conns w' b \<noteq> None" if "?m fd' = Some b" "fd' \<noteq> fd" for fd' b
  proof -
    have "b \<noteq> a" using fds_ok_inj [OF s] a that by metis
    moreover have "b \<in> dom (conns (lw s))" using that(1) ran by (metis ranI)
    ultimately show ?thesis using x by auto
  qed
  have m: "open_fds (dom (conns w')) ?m = (if conns w' a = None then ?m(fd := None) else ?m)"
  proof (rule ext)
    fix fd'
    show "open_fds (dom (conns w')) ?m fd' = (if conns w' a = None then ?m(fd := None) else ?m) fd'"
      using a others [of fd'] by (cases "fd' = fd") (auto simp: open_fds_def split: option.splits)
  qed
  define s' where "s' = (if conns w' a = None then ?s\<lparr>fd2conn := (fd2conn s)[fd := None]\<rparr> else ?s)"
  have eq: "fd_map (fd2conn s') = open_fds (dom (conns w')) ?m" unfolding m s'_def using fd(1) by (simp add: fd_map_release)
  have "service_fd stod fd (now, t, r, e) s = Some s'"
    using fd w by (simp add: service_fd_def release_fd_def s'_def Let_def)
  moreover have lw: "lw s' = w'" "conn_fd s' = conn_fd s" "errno s' = (case e of None \<Rightarrow> errno s | Some x \<Rightarrow> x)"
    by (simp_all add: s'_def)
  moreover have "fds_ok s'"
  proof -
    have "conn_fd s b = fd'" if "open_fds (dom (conns w')) ?m fd' = Some b" for fd' b
      using that s by (auto simp: open_fds_def fds_ok_def split: option.splits if_splits)
    moreover have "ran (open_fds (dom (conns w')) ?m) = dom (conns w')"
    proof -
      have "a \<in> dom (conns (lw s))" using a ran by (metis ranI)
      then have "dom (conns w') \<subseteq> dom (conns (lw s))" using x by auto
      then show ?thesis unfolding ran_open_fds ran by blast
    qed
    ultimately show ?thesis unfolding fds_ok_def eq lw by blast
  qed
  ultimately show ?thesis using that eq by blast
qed

lemma service_fds_ok:
  assumes "fds_ok s" "distinct fds" "\<forall>fd \<in> set fds. fd \<in> dom (fd_map (fd2conn s))"
    and "service_all stod (readies ev (fd_map (fd2conn s)) fds) (lw s) = Some w'"
  shows "\<exists>s'. service_fds stod ev fds s = Some s' \<and> lw s' = w' \<and> fds_ok s' \<and>
    fd_map (fd2conn s') = open_fds (dom (conns w')) (fd_map (fd2conn s)) \<and> errno s' = last_error ev fds (errno s)"
  using assms
proof (induction fds arbitrary: s)
  case Nil
  then show ?case using open_fds_all [OF Nil.prems(1)] by (auto simp: readies_def)
next
  case (Cons fd fds)
  let ?m = "fd_map (fd2conn s)"
  show ?case
  proof (cases "ev fd")
    case None
    then show ?thesis using Cons by (simp add: readies_def)
  next
    case (Some y)
    obtain now t r e where y: "y = (now, t, r, e)" by (rule prod_cases4)
    obtain a where a: "?m fd = Some a" using Cons.prems(3) by auto
    obtain bs w1 where w1: "service_conn stod now t a r (lw s) = Some (bs, w1)"
      "service_all stod (readies ev ?m fds) w1 = Some w'"
      using Cons.prems(4) Some y a by (auto simp: readies_def bind_simps)
    obtain s1 where s1: "service_fd stod fd (now, t, r, e) s = Some s1" "lw s1 = w1" "fds_ok s1"
      "fd_map (fd2conn s1) = open_fds (dom (conns w1)) ?m" "errno s1 = (case e of None \<Rightarrow> errno s | Some x \<Rightarrow> x)"
      by (rule service_fd_ok [OF Cons.prems(1) a w1(1)])
    obtain x where x: "conns w1 = (conns (lw s))(a := x)" using service_conn_conns [OF w1(1)] by blast
    have same: "open_fds (dom (conns w1)) ?m fd' = ?m fd'" if "fd' \<in> set fds" for fd'
    proof -
      have "fd' \<in> dom ?m" using Cons.prems(3) that by simp
      then obtain b where b: "?m fd' = Some b" by blast
      have "fd' \<noteq> fd" using Cons.prems(2) that by auto
      then have "b \<noteq> a" using fds_ok_inj [OF Cons.prems(1)] a b by metis
      moreover have "b \<in> dom (conns (lw s))" using b Cons.prems(1) by (metis fds_ok_def ranI)
      ultimately show ?thesis using b x by (auto simp: open_fds_def)
    qed
    have "readies ev (fd_map (fd2conn s1)) fds = readies ev ?m fds"
      by (rule readies_cong) (simp add: s1(4) same)
    then have "service_all stod (readies ev (fd_map (fd2conn s1)) fds) (lw s1) = Some w'" using w1(2) s1(2) by simp
    moreover have "\<forall>fd \<in> set fds. fd \<in> dom (fd_map (fd2conn s1))"
      using Cons.prems(3) same unfolding s1(4) by (auto simp: domIff)
    ultimately obtain s' where s': "service_fds stod ev fds s1 = Some s'" "lw s' = w'" "fds_ok s'"
      "fd_map (fd2conn s') = open_fds (dom (conns w')) (open_fds (dom (conns w1)) ?m)" "errno s' = last_error ev fds (errno s1)"
      using Cons.IH [OF s1(3)] Cons.prems(2) s1(4) by auto
    have shrink: "open_fds (dom (conns w')) (open_fds (dom (conns w1)) ?m) = open_fds (dom (conns w')) ?m"
      by (rule open_fds_open_fds [OF service_all_conns [OF w1(2)]])
    have "service_fds stod ev (fd # fds) s = Some s'" using Some y s1(1) s'(1) by simp
    moreover have "errno s' = last_error ev (fd # fds) (errno s)" using s'(5) s1(5) Some y by (auto split: option.splits)
    ultimately show ?thesis using s'(2,3,4) shrink by auto
  qed
qed

lemma accept_fds_ok:
  assumes s: "fds_ok s" and w: "accept_conn t a new_conn (lw s) = Some w"
    and new: "conns (lw s) a = None" "fd_map (fd2conn s) fd = None" "errno s = 0"
  obtains s1 where "handle_accept (Client fd t a None) s = Some (Some a, s1)" "lw (register_conn a s1) = w"
    "fds_ok (register_conn a s1)" "fd_map (fd2conn (register_conn a s1)) = (fd_map (fd2conn s))(fd \<mapsto> a)"
    "errno (register_conn a s1) = 0"
proof -
  let ?s = "s\<lparr>lw := w, conn_fd := (conn_fd s)(a := fd)\<rparr>"
  have cs: "conns w = (conns (lw s))(a \<mapsto> new_conn)" using w by (auto simp: accept_conn_def bind_simps)
  have m: "fd_map (fd2conn (register_conn a ?s)) = (fd_map (fd2conn s))(fd \<mapsto> a)"
    by (simp add: register_conn_def Let_def fd_map_register [simplified])
  have "conn_fd ?s b = fd'" if "((fd_map (fd2conn s))(fd \<mapsto> a)) fd' = Some b" for fd' b
  proof (cases "fd' = fd")
    case False
    then have b: "fd_map (fd2conn s) fd' = Some b" using that by simp
    then have "b \<noteq> a" using fds_ok_mem [OF s b] new(1) by auto
    then show ?thesis using b s by (simp add: fds_ok_def)
  qed (use that in simp)
  moreover have "ran ((fd_map (fd2conn s))(fd \<mapsto> a)) = dom (conns w)"
    using s new(2) by (simp add: cs fds_ok_def ran_map_upd)
  ultimately have "fds_ok (register_conn a ?s)"
    unfolding fds_ok_def m by (simp add: register_conn_def Let_def)
  moreover have "handle_accept (Client fd t a None) s = Some (Some a, ?s)"
    using w new(3) by (simp add: handle_accept_def fd_set_nb_def)
  ultimately show ?thesis using that [of ?s] m new(3) by (simp add: register_conn_def Let_def)
qed

lemma release_fds_ok:
  assumes "\<forall>a \<in> set as. conn_fd s a < length (fd2conn s)"
  shows "\<exists>s'. release_fds as s = Some s' \<and> lw s' = lw s \<and> conn_fd s' = conn_fd s \<and> errno s' = errno s \<and>
    fd_map (fd2conn s') = fd_map (fd2conn s) |` (- conn_fd s ` set as)"
  using assms
proof (induction as arbitrary: s)
  case (Cons a as)
  let ?s = "s\<lparr>fd2conn := (fd2conn s)[conn_fd s a := None]\<rparr>"
  obtain s' where s': "release_fds as ?s = Some s'" "lw s' = lw s" "conn_fd s' = conn_fd s" "errno s' = errno s"
    "fd_map (fd2conn s') = fd_map (fd2conn ?s) |` (- conn_fd s ` set as)"
    using Cons.IH [of ?s] Cons.prems by auto
  have "fd_map (fd2conn ?s) |` (- conn_fd s ` set as) = fd_map (fd2conn s) |` (- conn_fd s ` set (a # as))"
    using Cons.prems by (auto simp: fd_map_release restrict_map_def fun_eq_iff)
  then show ?case using s' Cons.prems by (auto simp: release_fd_def)
qed (simp add: restrict_map_def)

lemma timers_fds_ok:
  assumes s: "fds_ok s" and w: "process_timers now (lw s) = Some ((cs, ks), w')" and cs: "set cs \<subseteq> dom (conns (lw s))"
  obtains s' where "timers_fds now s = Some s'" "lw s' = w'" "fds_ok s'"
    "fd_map (fd2conn s') = open_fds (dom (conns w')) (fd_map (fd2conn s))" "errno s' = errno s"
proof -
  let ?m = "fd_map (fd2conn s)"
  have cw: "conns w' = conns (lw s) |` (- set cs)" using w by (auto simp: process_timers_def bind_simps)
  have at: "?m (conn_fd s a) = Some a" if "a \<in> set cs" for a
    by (rule fds_ok_at [OF s]) (use cs that in blast)
  then have "\<forall>a \<in> set cs. conn_fd s a < length (fd2conn s)" using fd_map_lookup by blast
  then have "\<forall>a \<in> set cs. conn_fd (s\<lparr>lw := w'\<rparr>) a < length (fd2conn (s\<lparr>lw := w'\<rparr>))" by simp
  from release_fds_ok [OF this] obtain s' where s': "release_fds cs (s\<lparr>lw := w'\<rparr>) = Some s'" "lw s' = w'" "conn_fd s' = conn_fd s"
    "errno s' = errno s" "fd_map (fd2conn s') = ?m |` (- conn_fd s ` set cs)" by auto
  have m: "?m |` (- conn_fd s ` set cs) = open_fds (dom (conns w')) ?m"
  proof (rule ext)
    fix fd
    show "(?m |` (- conn_fd s ` set cs)) fd = open_fds (dom (conns w')) ?m fd"
    proof (cases "?m fd")
      case (Some b)
      then have "b \<in> dom (conns (lw s))" "conn_fd s b = fd" using fds_ok_mem [OF s] s by (auto simp: fds_ok_def)
      moreover have "fd \<in> conn_fd s ` set cs \<longleftrightarrow> b \<in> set cs"
      proof
        assume "fd \<in> conn_fd s ` set cs"
        then obtain a where "a \<in> set cs" "fd = conn_fd s a" by blast
        then show "b \<in> set cs" using at [of a] Some by simp
      next
        assume "b \<in> set cs"
        then show "fd \<in> conn_fd s ` set cs" using calculation(2) by (metis imageI)
      qed
      moreover have "b \<in> dom (conns w') \<longleftrightarrow> b \<notin> set cs" unfolding cw using calculation(1) by simp
      ultimately show ?thesis using Some by (simp add: open_fds_def restrict_map_def)
    qed (simp add: open_fds_def restrict_map_def)
  qed
  have "fds_ok s'" unfolding fds_ok_def s'(2,3,5) m
  proof (intro conjI allI impI)
    fix fd a assume "open_fds (dom (conns w')) ?m fd = Some a"
    then show "conn_fd s a = fd" using s by (auto simp: open_fds_def fds_ok_def split: option.splits if_splits)
  next
    have "ran ?m = dom (conns (lw s))" using s by (simp add: fds_ok_def)
    then show "ran (open_fds (dom (conns w')) ?m) = dom (conns w')" unfolding ran_open_fds cw by auto
  qed
  then show ?thesis using that s' w m by (simp add: timers_fds_def)
qed

subsection \<open>The timeout\<close>

definition first_due :: "db \<Rightarrow> u64 option \<Rightarrow> bool" where
  "first_due d first = (case first of None \<Rightarrow> ddue d = Map.empty
     | Some v \<Rightarrow> v \<in> ran (ddue d) \<and> (\<forall>k v'. ddue d k = Some v' \<longrightarrow> v \<le> v'))"

text \<open>The time to the earlier of the deadlines of one connection and of the first key; -1 without connections.\<close>

definition wait_ms :: "u64 \<Rightarrow> u64 option \<Rightarrow> net \<Rightarrow> u64" where
  "wait_ms now first n = (case queue_front (shape n) of None \<Rightarrow> - 1
     | Some a \<Rightarrow> let idle = stamp n a + IDLE_TIMEOUT_MS; d = (case first of None \<Rightarrow> idle | Some v \<Rightarrow> min v idle)
                in if d = - 1 then - 1 else if d \<le> now then 0 else d - now)"

definition waits :: "u64 \<Rightarrow> net \<Rightarrow> int \<Rightarrow> bool" where
  "waits now n timeout = (shape n \<noteq> Crowded \<longrightarrow>
     (\<exists>first. first_due (nd n) first \<and> timeout = sint (ucast (wait_ms now first n) :: 32 word)))"

lemma rep_first_due:
  assumes "rep s loc d"
  shows "first_due d (map_option snd (timer_first (ttl s)))"
proof -
  note p = rep_parts [OF assms]
  have tok: "timers_ok (ttl s)" using p(4) by (simp add: timed_def)
  show ?thesis
  proof (cases "timer_first (ttl s)")
    case None
    then have "ddue d k = None" for k
      using timer_first_ok(1) [OF tok] p(4) by (cases "loc k") (auto simp: timed_def)
    then show ?thesis using None by (auto simp: first_due_def)
  next
    case (Some x)
    then obtain a v where f: "timer_first (ttl s) = Some (a, v)" by (cases x) auto
    have due: "timer_due (ttl s) a = Some v" by (rule timer_first_ok(2) [OF tok f])
    then have "a \<in> dom (entries s)" using p(4) by (auto simp: timed_def)
    then obtain e where "entries s a = Some e" by auto
    then have "loc (ekey e) = Some a" by (rule located_key [OF p(1)])
    then have "ddue d (ekey e) = Some v" using rep_due [OF assms] due by simp
    moreover have "v \<le> v'" if "ddue d k = Some v'" for k v'
      using that p(4) timer_first_ok(3) [OF tok f] by (auto simp: timed_def bind_simps)
    ultimately show ?thesis using f by (auto simp: first_due_def ran_def)
  qed
qed

lemma world_stamp: "world_rep w n \<Longrightarrow> a \<in> dom (chan n) \<Longrightarrow> last_active (idle w) a = stamp n a"
  using world_conn [of w n a] by (fastforce simp: stamp_def conn_rep_def)

lemma poll_timeout_ok:
  assumes w: "world_rep (lw s) n"
  obtains timeout where "poll_timeout now s = Some timeout" "waits now n timeout"
proof -
  define first where "first = map_option snd (timer_first (ttl (srv (lw s))))"
  obtain loc where "rep (srv (lw s)) loc (nd n)" using w by (auto simp: world_rep_def represents_def)
  then have fd: "first_due (nd n) first" unfolding first_def by (rule rep_first_due)
  have q: "queue_ok (shape n) (dom (chan n)) (links (idle (lw s)))" using w by (simp add: world_rep_def)
  obtain m where m: "links (idle (lw s)) idle_list = Some m" using queue_linked(2) [OF q] by blast
  then have "\<exists>ms. next_timer_ms now first (idle (lw s)) = Some ms"
    by (simp add: next_timer_ms_def DList_empty_def Let_def)
  then obtain ms where ms: "next_timer_ms now first (idle (lw s)) = Some ms" ..
  have "ms = wait_ms now first n" if "shape n \<noteq> Crowded"
  proof -
    have nx: "nxt m = (case queue_front (shape n) of None \<Rightarrow> idle_list | Some a \<Rightarrow> a)"
      "\<forall>a. queue_front (shape n) = Some a \<longrightarrow> a \<in> dom (chan n) \<and> a \<noteq> idle_list"
      using queue_first [OF q that] m by auto
    have min: "(if v < d then v else d) = min v d" for v d :: u64 by (auto simp: min_def)
    show ?thesis
    proof (cases "queue_front (shape n)")
      case None
      then show ?thesis using ms m nx by (simp add: next_timer_ms_def DList_empty_def wait_ms_def)
    next
      case (Some a)
      then have "last_active (idle (lw s)) a = stamp n a" using nx(2) world_stamp [OF w] by blast
      then show ?thesis using ms m nx Some
        by (cases first) (auto simp: next_timer_ms_def DList_empty_def wait_ms_def Let_def min)
    qed
  qed
  then have "waits now n (sint (ucast ms :: 32 word))" using fd unfolding waits_def by blast
  moreover have "poll_timeout now s = Some (sint (ucast ms :: 32 word))" using ms by (simp add: poll_timeout_def first_def)
  ultimately show ?thesis using that by blast
qed

subsection \<open>The abstract server with descriptors\<close>

record fnet =
  net_of :: net
  fdm :: "nat \<rightharpoonup> addr"
  err :: int

definition round_of :: "accept_result option \<Rightarrow> (nat \<Rightarrow> activity option) \<Rightarrow> u64 \<Rightarrow> fnet \<Rightarrow> round" where
  "round_of client ev now m =
    \<lparr>accepted = (case client of Some (Client fd t a failed) \<Rightarrow> Some (t, a, new_conn) | _ \<Rightarrow> None),
     ready = readies ev (fdm m) (sorted_list_of_set (dom (fdm m))), tick = now\<rparr>"

definition accept_fdm :: "accept_result option \<Rightarrow> fnet \<Rightarrow> nat \<rightharpoonup> addr" where
  "accept_fdm client m = (case client of Some (Client fd t a failed) \<Rightarrow> (fdm m)(fd \<mapsto> a) | _ \<Rightarrow> fdm m)"

definition accept_err :: "accept_result option \<Rightarrow> int \<Rightarrow> int" where
  "accept_err client e = (case client of Some (Refused x) \<Rightarrow> x | _ \<Rightarrow> e)"

text \<open>
  What \<^verbatim>\<open>poll\<close> is asked: for input on the listening descriptor, then on every open one, in order, for input
  when nothing is to be sent and for room when something is, and the time to wait.
\<close>

definition wants :: "net \<Rightarrow> addr \<Rightarrow> bool \<times> bool" where
  "wants n a = (case chan n a of None \<Rightarrow> (False, False) | Some (p, ys, t) \<Rightarrow> (ys = [], ys \<noteq> []))"

definition asked :: "nat \<Rightarrow> fnet \<Rightarrow> u64 \<Rightarrow> (nat \<times> bool \<times> bool) list \<times> int \<Rightarrow> bool" where
  "asked lfd m now = (\<lambda>(args, timeout). waits now (net_of m) timeout \<and>
     args = (lfd, True, False) # map (\<lambda>fd. (fd, wants (net_of m) (the (fdm m fd)))) (sorted_list_of_set (dom (fdm m))))"

inductive fnet_step :: "(bytes \<Rightarrow> u64 parsed) \<Rightarrow> nat \<Rightarrow> fnet \<Rightarrow> poll_input \<Rightarrow> (nat \<times> bool \<times> bool) list \<times> int \<Rightarrow> fnet \<Rightarrow> bool"
  for stod lfd where
  failed: "answer i = Failed e \<Longrightarrow> asked lfd m (clock i) out \<Longrightarrow> fnet_step stod lfd m i out (m\<lparr>err := e\<rparr>)"
| answered: "answer i = Answered client ev \<Longrightarrow> asked lfd m (clock i) out \<Longrightarrow>
    map fst tr = events (round_of client ev (timer_clock i) m) \<Longrightarrow> runs (net_step stod) (net_of m) tr n \<Longrightarrow>
    fnet_step stod lfd m i out
      \<lparr>net_of = n, fdm = open_fds (dom (chan n)) (accept_fdm client m),
       err = last_error ev (sorted_list_of_set (dom (fdm m))) (accept_err client (err m))\<rparr>"

text \<open>
  Admissible answers: \<^verbatim>\<open>poll\<close> fails only when it is interrupted; a new connection gets a descriptor that is
  not in use, while \<^verbatim>\<open>errno\<close> is clear; and the round that results is admissible.
\<close>

definition fnet_ok :: "(bytes \<Rightarrow> u64 parsed) \<Rightarrow> fnet \<Rightarrow> poll_input \<Rightarrow> bool" where
  "fnet_ok stod m i = (case answer i of
     Failed e \<Rightarrow> e = EINTR
   | Answered client ev \<Rightarrow>
       (\<forall>fd t a failed. client = Some (Client fd t a failed) \<longrightarrow> failed = None \<and> err m = 0 \<and> fdm m fd = None) \<and>
       safe (net_step stod) (net_ok stod) (net_of m) (events (round_of client ev (timer_clock i) m)))"

definition loop_rep :: "loop_state \<Rightarrow> fnet \<Rightarrow> bool" where
  "loop_rep s m = (world_rep (lw s) (net_of m) \<and> fds_ok s \<and> fdm m = fd_map (fd2conn s) \<and> err m = errno s)"

lemma tick_closed:
  assumes w: "world_rep w n" and e: "net_ok stod n (Tick now)" and p: "process_timers now w = Some ((cs, ks), w')"
  shows "set cs \<subseteq> dom (conns w)" "dom (conns w') \<subseteq> dom (conns w)"
proof -
  have q: "queue_ok (shape n) (dom (chan n)) (links (idle w))" and d: "dom (conns w) = dom (chan n)"
    using w by (simp_all add: world_rep_def)
  obtain i where "expire_idle now (idle w) = Some (overdue now (shape n) (stamp n), i)"
    by (rule tick_idle [OF w e refl])
  then have cs: "cs = overdue now (shape n) (stamp n)" using p by (auto simp: process_timers_def bind_simps)
  show "set cs \<subseteq> dom (conns w)"
  proof (cases "queue_front (shape n)")
    case (Some a)
    then have "shape n \<noteq> Crowded" by auto
    then have "a \<in> dom (chan n)" using queue_first [OF q] Some by blast
    then show ?thesis using Some by (auto simp: cs overdue_def d)
  qed (simp add: cs overdue_def)
  have "conns w' = conns w |` (- set cs)" using p by (auto simp: process_timers_def bind_simps)
  then show "dom (conns w') \<subseteq> dom (conns w)" by simp
qed

lemma accept_client_ok:
  assumes s: "loop_rep s m" and ok: "fnet_ok stod m i" and i: "answer i = Answered client ev"
    and w: "(case accepted (round_of client ev now m) of None \<Rightarrow> Some (lw s) | Some (t, a, c) \<Rightarrow> accept_conn t a c (lw s)) = Some w"
  obtains s1 where "(case client of None \<Rightarrow> Some s | Some res \<Rightarrow> do {
      (new, s) \<leftarrow> handle_accept res s;
      Some (case new of None \<Rightarrow> s | Some a \<Rightarrow> register_conn a s) }) = Some s1"
    "lw s1 = w" "fds_ok s1" "fd_map (fd2conn s1) = accept_fdm client m" "errno s1 = accept_err client (err m)"
proof (cases "\<exists>fd t a failed. client = Some (Client fd t a failed)")
  case True
  then obtain fd t a failed where c: "client = Some (Client fd t a failed)" by blast
  have ok': "failed = None" "errno s = 0" "fd_map (fd2conn s) fd = None"
    "net_ok stod (net_of m) (Accepted t a new_conn)"
    using ok s c i by (auto simp: fnet_ok_def loop_rep_def round_of_def events_def)
  then have "a \<notin> dom (conns (lw s))" using s by (auto simp: loop_rep_def world_rep_def)
  then have new: "conns (lw s) a = None" by (simp add: domIff)
  have w': "accept_conn t a new_conn (lw s) = Some w" using w c by (simp add: round_of_def)
  have f: "fds_ok s" using s by (simp add: loop_rep_def)
  obtain s1 where "handle_accept (Client fd t a None) s = Some (Some a, s1)" "lw (register_conn a s1) = w"
    "fds_ok (register_conn a s1)" "fd_map (fd2conn (register_conn a s1)) = (fd_map (fd2conn s))(fd \<mapsto> a)"
    "errno (register_conn a s1) = 0" by (rule accept_fds_ok [OF f w' new ok'(3,2)])
  then show ?thesis using that [of "register_conn a s1"] c ok' s by (simp add: accept_fdm_def accept_err_def loop_rep_def)
next
  case False
  then have c: "client = None \<or> (\<exists>e. client = Some (Refused e))" by (metis accept_result.exhaust not_None_eq)
  have wl: "w = lw s" using w c by (auto simp: round_of_def)
  have f: "fds_ok s" "err m = errno s" "fdm m = fd_map (fd2conn s)" using s by (simp_all add: loop_rep_def)
  show ?thesis
  proof (cases client)
    case None
    then show ?thesis using that [of s] wl f by (simp add: accept_err_def accept_fdm_def)
  next
    case (Some res)
    then obtain e where "client = Some (Refused e)" using c by auto
    then show ?thesis using that [of "s\<lparr>errno := e\<rparr>"] wl f
      by (simp add: handle_accept_def accept_err_def accept_fdm_def fds_ok_def)
  qed
qed

lemma poll_asked:
  assumes "loop_rep s m"
  obtains ps timeout where "poll_args lfd s = Some ((lfd, True, False) # ps)" "poll_timeout now s = Some timeout"
    "map fst ps = sorted_list_of_set (dom (fdm m))" "asked lfd m now ((lfd, True, False) # ps, timeout)"
proof -
  have s: "fds_ok s" "fdm m = fd_map (fd2conn s)" "world_rep (lw s) (net_of m)" using assms by (simp_all add: loop_rep_def)
  obtain ps where ps: "poll_args lfd s = Some ((lfd, True, False) # ps)"
    "map fst ps = sorted_list_of_set (dom (fd_map (fd2conn s)))"
    "set ps = {(conn_fd s a, poll_events c) | a c. conns (lw s) a = Some c}" by (rule poll_args_ok [OF s(1)])
  have "x = (fst x, wants (net_of m) (the (fdm m (fst x))))" if mem: "x \<in> set ps" for x
  proof -
    obtain a c where x: "x = (conn_fd s a, poll_events c)" "conns (lw s) a = Some c" using mem unfolding ps(3) by blast
    then have fd: "fdm m (conn_fd s a) = Some a" unfolding s(2) by (intro fds_ok_at [OF s(1)]) blast
    have "a \<in> dom (chan (net_of m))" using s(3) x(2) unfolding world_rep_def by blast
    then obtain p ys t where ch: "chan (net_of m) a = Some (p, ys, t)" by auto
    have "asks c ys" using world_conn [OF s(3) ch] x(2) by (simp add: conn_rep_def)
    then show ?thesis using x(1) fd ch by (simp add: asks_def wants_def)
  qed
  then have "ps = map (\<lambda>x. (fst x, wants (net_of m) (the (fdm m (fst x))))) ps" by (simp add: map_idI)
  then have all: "ps = map (\<lambda>fd. (fd, wants (net_of m) (the (fdm m fd)))) (map fst ps)" by (simp add: comp_def)
  obtain timeout where "poll_timeout now s = Some timeout" "waits now (net_of m) timeout"
    by (rule poll_timeout_ok [OF s(3)])
  then show ?thesis using that ps(1,2) all s(2) by (simp add: asked_def)
qed

lemma poll_round_ok:
  assumes s: "loop_rep s m" and ok: "fnet_ok stod m i"
  shows "\<exists>out s' m'. poll_round stod lfd i s = Some (out, s') \<and> fnet_step stod lfd m i out m' \<and> loop_rep s' m'"
proof -
  obtain ps timeout where ask: "poll_args lfd s = Some ((lfd, True, False) # ps)" "poll_timeout (clock i) s = Some timeout"
    "map fst ps = sorted_list_of_set (dom (fdm m))" "asked lfd m (clock i) ((lfd, True, False) # ps, timeout)"
    by (rule poll_asked [OF s])
  let ?out = "((lfd, True, False) # ps, timeout)"
  have r: "world_rep (lw s) (net_of m)" "fds_ok s" "fdm m = fd_map (fd2conn s)" "err m = errno s"
    using s by (simp_all add: loop_rep_def)
  show ?thesis
  proof (cases "answer i")
    case (Failed e)
    then have "poll_round stod lfd i s = Some (?out, s\<lparr>errno := e\<rparr>)"
      using ok ask(1,2) by (simp add: poll_round_def fnet_ok_def)
    moreover have "loop_rep (s\<lparr>errno := e\<rparr>) (m\<lparr>err := e\<rparr>)" using r by (simp add: loop_rep_def fds_ok_def)
    ultimately show ?thesis using fnet_step.failed [OF Failed ask(4)] by blast
  next
    case (Answered client ev)
    let ?i = "round_of client ev (timer_clock i) m"
    have safe: "safe (net_step stod) (net_ok stod) (net_of m) (events ?i)" using ok Answered by (simp add: fnet_ok_def)
    obtain tr w' where tr: "map fst tr = events ?i" "runs (world_step stod) (lw s) tr w'"
      using main.runs_progress [OF r(1) safe] by blast
    obtain n where n: "runs (net_step stod) (net_of m) tr n" "world_rep w' n"
      using main.runs_simulate [OF tr(2) r(1)] safe unfolding tr(1) by blast
    obtain w1 w2 tr' cs ks where
      w1: "(case accepted ?i of None \<Rightarrow> Some (lw s) | Some (t, a, c) \<Rightarrow> accept_conn t a c (lw s)) = Some w1"
      and w2: "service_all stod (ready ?i) w1 = Some w2"
      and w3: "process_timers (tick ?i) w2 = Some ((cs, ks), w')"
      and tr': "runs (world_step stod) (lw s) tr' w2" "events ?i = map fst tr' @ [Tick (tick ?i)]"
      using round_split [OF tr(2,1)] by (metis surj_pair)
    have "safe (net_step stod) (net_ok stod) (net_of m) (map fst tr')" by (rule safe_runs) (use safe tr'(2) in simp)
    then obtain n2 where n2: "runs (net_step stod) (net_of m) tr' n2" "world_rep w2 n2"
      using main.runs_simulate [OF tr'(1) r(1)] by blast
    have "safe (net_step stod) (net_ok stod) n2 [Tick (tick ?i)]"
      by (rule safe_append [OF _ n2(1) refl]) (use safe tr'(2) in simp)
    then have tok: "net_ok stod n2 (Tick (tick ?i))" by (simp del: net_ok.simps)
    note closed = tick_closed [OF n2(2) tok w3]
    obtain s1 where s1: "(case client of None \<Rightarrow> Some s | Some res \<Rightarrow> do {
        (new, s) \<leftarrow> handle_accept res s;
        Some (case new of None \<Rightarrow> s | Some a \<Rightarrow> register_conn a s) }) = Some s1"
      "lw s1 = w1" "fds_ok s1" "fd_map (fd2conn s1) = accept_fdm client m" "errno s1 = accept_err client (err m)"
      by (rule accept_client_ok [OF s ok Answered w1])
    let ?fds = "sorted_list_of_set (dom (fdm m))"
    have fin: "finite (dom (fdm m))" unfolding r(3) by (rule finite_dom_fd_map)
    have old: "accept_fdm client m fd = fdm m fd" if "fd \<in> set ?fds" for fd
      using that fin ok Answered by (auto simp: accept_fdm_def fnet_ok_def split: option.splits accept_result.splits)
    have "readies ev (fd_map (fd2conn s1)) ?fds = ready ?i"
      unfolding s1(4) round_of_def by (simp add: readies_cong [OF old])
    then have srv: "service_all stod (readies ev (fd_map (fd2conn s1)) ?fds) (lw s1) = Some w2" using w2 s1(2) by simp
    have mem: "\<forall>fd \<in> set ?fds. fd \<in> dom (fd_map (fd2conn s1))"
      unfolding s1(4) using old fin by (auto simp: domIff)
    obtain s2 where s2: "service_fds stod ev ?fds s1 = Some s2" "lw s2 = w2" "fds_ok s2"
      "fd_map (fd2conn s2) = open_fds (dom (conns w2)) (accept_fdm client m)"
      "errno s2 = last_error ev ?fds (accept_err client (err m))"
      using service_fds_ok [OF s1(3) _ mem srv] unfolding s1(4,5) by auto
    have tick: "tick ?i = timer_clock i" by (simp add: round_of_def)
    obtain s3 where s3: "timers_fds (timer_clock i) s2 = Some s3" "lw s3 = w'" "fds_ok s3"
      "fd_map (fd2conn s3) = open_fds (dom (conns w')) (fd_map (fd2conn s2))" "errno s3 = errno s2"
      by (rule timers_fds_ok [OF s2(3), of "timer_clock i" cs ks w']) (use w3 closed(1) s2(2) tick in simp_all)
    have "dom (conns w') = dom (chan n)" using n(2) by (simp add: world_rep_def)
    then have fd3: "fd_map (fd2conn s3) = open_fds (dom (chan n)) (accept_fdm client m)"
      unfolding s3(4) s2(4) using open_fds_open_fds [OF closed(2)] by simp
    let ?m = "\<lparr>net_of = n, fdm = open_fds (dom (chan n)) (accept_fdm client m),
      err = last_error ev ?fds (accept_err client (err m))\<rparr>"
    have "poll_round stod lfd i s = Some (?out, s3)"
      using ask(1,2,3) Answered s1(1) s2(1) s3(1) by (simp add: poll_round_def)
    moreover have "loop_rep s3 ?m" using n(2) s3(2,3,5) fd3 s2(5) by (simp add: loop_rep_def)
    ultimately show ?thesis using fnet_step.answered [OF Answered ask(4) tr(1) n(1)] by blast
  qed
qed

interpretation polls: event_loop loop_rep "\<lambda>s i out s'. poll_round stod lfd i s = Some (out, s')" "fnet_step stod lfd" "fnet_ok stod"
  "\<lambda>s. is_running (srv (lw s))" "\<lambda>m. alive (nd (net_of m))" "\<lambda>i. [i]" "poll_rounds stod lfd" "\<lambda>tr s. (map snd tr, s)"
  for stod lfd
proof (unfold_locales, goal_cases)
  case (1 c a e)
  then show ?case using poll_round_ok [of c a stod e lfd] by blast
next
  case (2 c a e out c')
  then show ?case using poll_round_ok [of c a stod e lfd] by auto
next
  case (3 c a)
  then show ?case using world_running by (auto simp: loop_rep_def)
next
  case (6 c tr c1 i "is" tr' c')
  then show ?case by (auto simp: map_eq_Cons_conv)
qed simp_all

text \<open>The loop itself, from its rounds: it returns when one of them has ended it, and only then.\<close>

lemma poll_loop_ends:
  "poll_rounds stod fd is s = Some (outs, s') \<Longrightarrow> \<not> is_running (srv (lw s')) \<Longrightarrow> poll_loop stod fd (is @- rest) s = Some s'"
proof (induction "is" arbitrary: s outs)
  case (Cons i "is")
  show ?case
  proof (cases "is_running (srv (lw s))")
    case True
    then obtain asked s1 outs' where "poll_round stod fd i s = Some (asked, s1)" "poll_rounds stod fd is s1 = Some (outs', s')"
      using Cons.prems(1) by (auto simp: bind_simps)
    then show ?thesis using True Cons.IH Cons.prems(2) by (subst poll_loop.simps) simp
  qed (use Cons.prems in \<open>subst poll_loop.simps, simp\<close>)
qed (subst poll_loop.simps, simp)

lemma poll_loop_returned:
  assumes "poll_loop stod fd is s = Some s'"
  shows "\<exists>n outs. poll_rounds stod fd (stake n is) s = Some (outs, s') \<and> \<not> is_running (srv (lw s'))"
proof (rule poll_loop.raw_induct [where P = "\<lambda>stod fd is s s'. \<exists>n outs. poll_rounds stod fd (stake n is) s = Some (outs, s') \<and>
    \<not> is_running (srv (lw s'))", OF _ assms])
  fix f stod fd "is" s s'
  assume IH: "\<And>stod fd is s s'. f stod fd is s = Some s' \<Longrightarrow>
      \<exists>n outs. poll_rounds stod fd (stake n is) s = Some (outs, s') \<and> \<not> is_running (srv (lw s'))"
    and eq: "(if is_running (srv (lw s)) then do { (asked, s) \<leftarrow> poll_round stod fd (shd is) s; f stod fd (stl is) s } else Some s) = Some s'"
  show "\<exists>n outs. poll_rounds stod fd (stake n is) s = Some (outs, s') \<and> \<not> is_running (srv (lw s'))"
  proof (cases "is_running (srv (lw s))")
    case True
    then obtain asked s1 where 1: "poll_round stod fd (shd is) s = Some (asked, s1)" "f stod fd (stl is) s1 = Some s'"
      using eq by (auto simp: bind_simps)
    then obtain n outs where "poll_rounds stod fd (stake n (stl is)) s1 = Some (outs, s')" "\<not> is_running (srv (lw s'))"
      using IH by blast
    then show ?thesis using True 1(1) by (intro exI [of _ "Suc n"] exI [of _ "asked # outs"]) simp
  next
    case False
    then show ?thesis using eq by (intro exI [of _ 0]) simp
  qed
qed

lemma delete_conns_ok:
  assumes "\<forall>i j a. fd_map fds i = Some a \<longrightarrow> fd_map fds j = Some a \<longrightarrow> i = j" "ran (fd_map fds) \<subseteq> dom (conns w)"
  shows "\<exists>w'. delete_conns fds w = Some w' \<and> srv w' = srv w \<and> conns w' = conns w |` (- ran (fd_map fds)) \<and>
    links (idle w') = links (idle w) |` (- ran (fd_map fds))"
  using assms
proof (induction fds w rule: delete_conns.induct)
  case (1 w)
  then show ?case by (simp add: restrict_map_def)
next
  case (2 cs w)
  have "\<forall>i j a. fd_map cs i = Some a \<longrightarrow> fd_map cs j = Some a \<longrightarrow> i = j"
    using "2.prems"(1) [rule_format, of "Suc _" _ "Suc _"] by simp
  then show ?case using 2 by (simp add: ran_fd_map_Cons)
next
  case (3 a cs w)
  have inj: "\<forall>i j a. fd_map cs i = Some a \<longrightarrow> fd_map cs j = Some a \<longrightarrow> i = j"
    using "3.prems"(1) [rule_format, of "Suc _" _ "Suc _"] by simp
  have a: "a \<notin> ran (fd_map cs)"
    using "3.prems"(1) [rule_format, of 0 a "Suc _"] by (auto simp: ran_def)
  obtain c where c: "conns w a = Some c" using "3.prems"(2) by (auto simp: ran_fd_map_Cons)
  let ?w = "w\<lparr>conns := (conns w)(a := None), idle := (idle w)\<lparr>links := (links (idle w))(a := None)\<rparr>\<rparr>"
  have "ran (fd_map cs) \<subseteq> dom (conns ?w)" using "3.prems"(2) a by (auto simp: ran_fd_map_Cons)
  from "3.IH" [OF c refl inj this] obtain w' where w': "delete_conns cs ?w = Some w'" "srv w' = srv ?w"
    "conns w' = conns ?w |` (- ran (fd_map cs))" "links (idle w') = links (idle ?w) |` (- ran (fd_map cs))" by blast
  have drop: "f(a := None) |` (- ran (fd_map cs)) = f |` (- ran (fd_map (Some a # cs)))" for f :: "addr \<rightharpoonup> 'x"
    by (auto simp: restrict_map_def fun_eq_iff ran_fd_map_Cons)
  have "delete_conns (Some a # cs) w = Some w'" using c w'(1) by (simp add: Let_def)
  moreover have "conns w' = conns w |` (- ran (fd_map (Some a # cs)))" unfolding w'(3) drop [symmetric] by simp
  moreover have "links (idle w') = links (idle w) |` (- ran (fd_map (Some a # cs)))" unfolding w'(4) drop [symmetric] by simp
  ultimately show ?case using w'(2) by simp
qed

lemma delete_all:
  assumes "loop_rep s m"
  shows "\<exists>w. delete_conns (fd2conn s) ((lw s)\<lparr>srv := x\<rparr>) = Some w \<and> srv w = x \<and> conns w = Map.empty \<and>
    dom (links (idle w)) = {idle_list}"
proof -
  let ?w = "(lw s)\<lparr>srv := x\<rparr>"
  have f: "fds_ok s" and dom: "dom (conns (lw s)) = dom (chan (net_of m))"
    and q: "queue_ok (shape (net_of m)) (dom (chan (net_of m))) (links (idle (lw s)))"
    using assms by (simp_all add: loop_rep_def world_rep_def)
  have ran: "ran (fd_map (fd2conn s)) = dom (conns (lw s))" using f by (simp add: fds_ok_def)
  have "\<forall>i j a. fd_map (fd2conn s) i = Some a \<longrightarrow> fd_map (fd2conn s) j = Some a \<longrightarrow> i = j"
    using fds_ok_inj [OF f] by blast
  from delete_conns_ok [OF this, of ?w] obtain w where w: "delete_conns (fd2conn s) ?w = Some w" "srv w = x"
    "conns w = conns (lw s) |` (- dom (conns (lw s)))" "links (idle w) = links (idle (lw s)) |` (- dom (conns (lw s)))"
    unfolding ran by auto
  moreover have "dom (links (idle w)) = {idle_list}" unfolding w(4) dom using queue_linked(2,3) [OF q] by auto
  moreover have "conns w = Map.empty" unfolding w(3) by (auto simp: restrict_map_def fun_eq_iff domIff)
  ultimately show ?thesis by blast
qed

lemma poll_loop_forever:
  assumes "\<forall>k. \<exists>outs s'. poll_rounds stod fd (stake k is) s = Some (outs, s') \<and> is_running (srv (lw s'))"
  shows "poll_loop stod fd is s = None"
proof (rule ccontr)
  assume "poll_loop stod fd is s \<noteq> None"
  then obtain s' where "poll_loop stod fd is s = Some s'" by blast
  then obtain n outs where "poll_rounds stod fd (stake n is) s = Some (outs, s')" "\<not> is_running (srv (lw s'))"
    using poll_loop_returned by blast
  then show False using assms [rule_format, of n] by auto
qed

subsection \<open>Properties\<close>

definition fnet_init :: fnet where
  "fnet_init = \<lparr>net_of = net_init, fdm = Map.empty, err = 0\<rparr>"

lemma fnet_init_simps [simp]: "net_of fnet_init = net_init" "fdm fnet_init = Map.empty" "err fnet_init = 0"
  by (simp_all add: fnet_init_def)

lemma loop_rep_init: "loop_rep loop_init fnet_init"
  using world_rep_init by (simp add: loop_rep_def loop_init_def fnet_init_def fds_ok_def world_init_def)

lemma poll_rounds_ok:
  assumes "safe (fnet_step stod lfd) (fnet_ok stod) fnet_init is"
  obtains tr s m k where "poll_rounds stod lfd is loop_init = Some (map snd tr, s)" "map fst tr = take k is"
    "runs (fnet_step stod lfd) fnet_init tr m" "loop_rep s m" "k < length is \<longrightarrow> \<not> alive (nd (net_of m))"
proof -
  have one: "concat (map (\<lambda>i. [i]) xs) = xs" for xs :: "poll_input list" by (induction xs) auto
  have "safe (fnet_step stod lfd) (fnet_ok stod) fnet_init (concat (map (\<lambda>i. [i]) is))" using assms by (simp add: one)
  from polls.loop_runs [OF loop_rep_init this] show ?thesis unfolding one using that by blast
qed

text \<open>C2: The loop over descriptors refines the abstract server: on every sequence of answers of the system
  that is admissible its rounds are defined, and what they ask \<^verbatim>\<open>poll\<close> for is what the abstract server asks for
  in the same rounds. That is, in each round, the listening descriptor and every open connection once, in
  the order of the descriptors, for input when all output of the connection was sent and for room
  otherwise; and a timeout that is the time to the earlier of the first deadline of a key and the deadline
  of the connection at the head of the idle list (unless that list is crowded), or none without such a
  connection. The reported descriptors are served, the table holds the open connections and nothing else,
  and the loop returns when a request has ended the server.\<close>

theorem poll_loop_correct:
  assumes "safe (fnet_step stod lfd) (fnet_ok stod) fnet_init is"
  shows "\<exists>tr s m k. poll_rounds stod lfd is loop_init = Some (map snd tr, s) \<and> map fst tr = take k is \<and>
    runs (fnet_step stod lfd) fnet_init tr m \<and> world_rep (lw s) (net_of m) \<and> fds_ok s \<and> fdm m = fd_map (fd2conn s) \<and>
    (k < length is \<longrightarrow> \<not> alive (nd (net_of m))) \<and>
    (\<not> alive (nd (net_of m)) \<longrightarrow> poll_loop stod lfd (is @- rest) loop_init = Some s)"
proof -
  obtain tr s m k where r: "poll_rounds stod lfd is loop_init = Some (map snd tr, s)" "map fst tr = take k is"
    "runs (fnet_step stod lfd) fnet_init tr m" "loop_rep s m" "k < length is \<longrightarrow> \<not> alive (nd (net_of m))"
    by (rule poll_rounds_ok [OF assms])
  moreover have "is_running (srv (lw s)) = alive (nd (net_of m))" using r(4) world_running by (auto simp: loop_rep_def)
  then have "\<not> alive (nd (net_of m)) \<longrightarrow> poll_loop stod lfd (is @- rest) loop_init = Some s" using poll_loop_ends [OF r(1)] by simp
  ultimately show ?thesis unfolding loop_rep_def by blast
qed

definition sample_input :: poll_input where
  "sample_input = \<lparr>clock = 1, answer = Answered (Some (Client 4 1 5 None)) (\<lambda>fd. None), timer_clock = 2\<rparr>"

lemma sample_input_round: "events (round_of (Some (Client 4 1 5 None)) (\<lambda>fd. None) 2 fnet_init) = [Accepted 1 5 new_conn, Tick 2]"
  by (simp add: events_def round_of_def readies_def fnet_init_def)

lemma sample_input_safe: "fnet_ok stod fnet_init sample_input"
proof -
  have "safe (net_step stod) (net_ok stod) net_init [Accepted 1 5 new_conn, Tick 2]"
    by (simp add: net_init_def idle_list_def new_conn_def conn_new_def asks_def poll_events_def)
  then show ?thesis by (simp add: fnet_ok_def sample_input_def sample_input_round del: safe.simps)
qed

text \<open>What the abstract server does in the round of that input, and asks in the next one.\<close>

lemma sample_input_next:
  assumes "fnet_step stod lfd fnet_init sample_input out m"
  shows "out = ([(lfd, True, False)], - 1)" "fdm m = [4 \<mapsto> 5]" "nd (net_of m) = db_empty"
    "chan (net_of m) = [5 \<mapsto> ([], [], 1)]" "shape (net_of m) = Fresh 5"
proof -
  obtain tr where tr: "asked lfd fnet_init 1 out" "map fst tr = [Accepted 1 5 new_conn, Tick 2]" "runs (net_step stod) net_init tr (net_of m)"
    "fdm m = open_fds (dom (chan (net_of m))) [4 \<mapsto> 5]"
    using assms
  proof cases
    case (answered client ev tr n)
    then have "client = Some (Client 4 1 5 None)" "ev = (\<lambda>fd. None)" by (auto simp: sample_input_def)
    then show ?thesis using answered that [of tr] by (simp add: sample_input_def sample_input_round accept_fdm_def)
  qed (simp add: sample_input_def)
  show "out = ([(lfd, True, False)], - 1)"
  proof -
    have "sint (ucast (- 1 :: u64) :: 32 word) = - 1" by code_simp
    then show ?thesis using tr(1) by (cases out) (simp add: asked_def waits_def wait_ms_def net_init_def)
  qed
  show n: "nd (net_of m) = db_empty" "chan (net_of m) = [5 \<mapsto> ([], [], 1)]" "shape (net_of m) = Fresh 5"
    using tr(2,3) by (auto simp: map_eq_Cons_conv net_init_def overdue_def stamp_def IDLE_TIMEOUT_MS_def db_empty_def)
  show "fdm m = [4 \<mapsto> 5]" unfolding tr(4) n(2) by (auto simp: open_fds_def fun_eq_iff)
qed

lemma sample_asked:
  assumes "asked lfd m 1 out" "fdm m = [4 \<mapsto> 5]" "nd (net_of m) = db_empty" "chan (net_of m) = [5 \<mapsto> ([], [], 1)]"
    "shape (net_of m) = Fresh 5"
  shows "out = ([(lfd, True, False), (4, True, False)], 300000)"
proof -
  have "first_due db_empty first \<longleftrightarrow> first = None" for first by (cases first) (simp_all add: first_due_def db_empty_def)
  moreover have "sint (ucast (if (300001 :: u64) \<le> 1 then 0 else 300001 - 1 :: u64) :: 32 word) = 300000" by code_simp
  ultimately show ?thesis using assms
    by (cases out) (simp add: asked_def wants_def waits_def wait_ms_def stamp_def IDLE_TIMEOUT_MS_def)
qed

definition idle_input :: poll_input where
  "idle_input = \<lparr>clock = 1, answer = Answered None (\<lambda>fd. None), timer_clock = 2\<rparr>"

lemma idle_input_round: "events (round_of None (\<lambda>fd. None) 2 m) = [Tick 2]"
  by (simp add: events_def round_of_def readies_def)

lemma idle_input_ok: "shape (net_of m) \<noteq> Crowded \<Longrightarrow> fnet_ok stod m idle_input"
  by (simp add: fnet_ok_def idle_input_def idle_input_round)

lemma poll_loop_correct_witness:
  "\<exists>s. poll_rounds (\<lambda>w. Invalid w) 3 [sample_input, idle_input] loop_init =
     Some ([([(3, True, False)], - 1), ([(3, True, False), (4, True, False)], 300000)], s) \<and> fd_map (fd2conn s) = [4 \<mapsto> 5]"
proof -
  let ?stod = "\<lambda>w. Invalid w"
  have safe: "safe (fnet_step ?stod 3) (fnet_ok ?stod) fnet_init [sample_input, idle_input]"
    using sample_input_safe sample_input_next(5) idle_input_ok by fastforce
  obtain tr s m k where r: "poll_rounds ?stod 3 [sample_input, idle_input] loop_init = Some (map snd tr, s)"
    "map fst tr = take k [sample_input, idle_input]" "runs (fnet_step ?stod 3) fnet_init tr m" "fdm m = fd_map (fd2conn s)"
    "k < length [sample_input, idle_input] \<longrightarrow> \<not> alive (nd (net_of m))"
    using poll_loop_correct [OF safe, of undefined] by (elim exE conjE) (rule that)
  have "k \<noteq> 0"
  proof
    assume "k = 0"
    then show False using r(2,3,5) by (simp add: net_init_def db_empty_def)
  qed
  then obtain out m1 tr' where 1: "tr = (sample_input, out) # tr'" "fnet_step ?stod 3 fnet_init sample_input out m1"
    "runs (fnet_step ?stod 3) m1 tr' m" "map fst tr' = take (k - 1) [idle_input]"
    using r(2,3) by (cases k) (auto simp: map_eq_Cons_conv)
  note m1 = sample_input_next [OF 1(2)]
  have "k - 1 \<noteq> 0"
  proof
    assume "k - 1 = 0"
    then show False using r(5) 1(3,4) \<open>k \<noteq> 0\<close> m1(3) by (simp add: db_empty_def)
  qed
  then obtain out' where 2: "tr' = [(idle_input, out')]" "fnet_step ?stod 3 m1 idle_input out' m"
    using 1(3,4) by (cases "k - 1") (auto simp: map_eq_Cons_conv)
  have "asked 3 m1 1 out' \<and> fdm m = [4 \<mapsto> 5]"
    using 2(2)
  proof cases
    case (answered client ev tr n)
    then have i: "client = None" "ev = (\<lambda>fd. None)" by (auto simp: idle_input_def)
    obtain x where "net_step ?stod (net_of m1) (Tick 2) x n" using answered(4,5) unfolding i
      by (auto simp: idle_input_def idle_input_round map_eq_Cons_conv simp del: net_tick)
    then have "chan n = [5 \<mapsto> ([], [], 1)]"
      using m1(4,5) by (auto simp: overdue_def stamp_def IDLE_TIMEOUT_MS_def)
    then show ?thesis using answered m1(2) i(1) by (auto simp: idle_input_def accept_fdm_def open_fds_def fun_eq_iff)
  qed (simp add: idle_input_def)
  then show ?thesis using r(1,4) 1(1) 2(1) m1(1) sample_asked [OF _ m1(2-5)] by auto
qed

text \<open>C37: A signal ends the server, later: when a poll is interrupted, the loop goes on with \<^verbatim>\<open>errno\<close> set, and a
  client that is accepted in the next round ends the program, although all of its calls succeed, because
  \<^verbatim>\<open>fd_set_nb\<close> tests \<^verbatim>\<open>errno\<close> and not their results.\<close>

theorem interrupted_accept_ends:
  assumes "loop_rep s m" "is_running (srv (lw s))" "answer i = Failed EINTR"
    and "answer j = Answered (Some (Client fd t a None)) ev"
  shows "\<exists>out s'. poll_rounds stod lfd [i] s = Some ([out], s') \<and> loop_rep s' (m\<lparr>err := EINTR\<rparr>) \<and>
    poll_round stod lfd j s' = None \<and> poll_loop stod lfd (i ## j ## is) s = None"
proof -
  obtain ps timeout where ask: "poll_args lfd s = Some ((lfd, True, False) # ps)" "poll_timeout (clock i) s = Some timeout"
    by (rule poll_asked [OF assms(1)])
  let ?s = "s\<lparr>errno := EINTR\<rparr>"
  have 1: "poll_round stod lfd i s = Some (((lfd, True, False) # ps, timeout), ?s)"
    using ask assms(3) by (simp add: poll_round_def)
  have rep: "loop_rep ?s (m\<lparr>err := EINTR\<rparr>)" using assms(1) by (simp add: loop_rep_def fds_ok_def)
  obtain ps' timeout' where "poll_args lfd ?s = Some ((lfd, True, False) # ps')" "poll_timeout (clock j) ?s = Some timeout'"
    by (rule poll_asked [OF rep])
  then have 2: "poll_round stod lfd j ?s = None"
    using assms(4) by (simp add: poll_round_def handle_accept_def fd_set_nb_def EINTR_def)
  then have "poll_loop stod lfd (i ## j ## is) s = None"
    using 1 assms(2) by (simp add: poll_loop.simps [of stod lfd _ s] poll_loop.simps [of stod lfd _ ?s])
  then show ?thesis using 1 2 rep assms(2) by simp
qed

lemma interrupted_accept_ends_witness:
  "poll_loop (\<lambda>w. Invalid w) 3 (\<lparr>clock = 1, answer = Failed EINTR, timer_clock = 1\<rparr> ## sample_input ## sconst idle_input) loop_init = None"
proof -
  have "is_running (srv (lw loop_init))" by (simp add: loop_init_def world_init_def server_init_def)
  moreover have "answer sample_input = Answered (Some (Client 4 1 5 None)) (\<lambda>fd. None)" by (simp add: sample_input_def)
  ultimately show ?thesis
    using interrupted_accept_ends [OF loop_rep_init, of "\<lparr>clock = 1, answer = Failed EINTR, timer_clock = 1\<rparr>" sample_input]
    by fastforce
qed

text \<open>C28: When the socket is set up, the program has bound it to the port of its argument, the high byte
  first, and enters its loop, whose first rounds are defined for every admissible sequence of answers.
  If a request ends the server in one of them, the program returns: it deletes every entry and every
  connection once and leaves no timer and no node of the index; but with an empty database it takes the
  entry of a null node. As long as no request ends it, it goes on, and it does not return when none ever does.\<close>

theorem server_main_correct:
  assumes "Server_init arg fd bind_rv listen_rv = Some lfd"
    and "safe (fnet_step stod (nat lfd)) (fnet_ok stod) fnet_init (stake n is)"
  shows "(\<exists>v port. (case arg of None \<Rightarrow> v = 1234 | Some str \<Rightarrow> strtol_value str = Some v) \<and>
      le_bytes 2 port = rev (le_bytes 2 (word_of_int v :: 16 word)) \<and> bind_rv port 0 = 0) \<and>
    (\<exists>tr s m. poll_rounds stod (nat lfd) (stake n is) loop_init = Some (map snd tr, s) \<and> map fst tr = take (length tr) (stake n is) \<and>
      runs (fnet_step stod (nat lfd)) fnet_init tr m \<and> loop_rep s m \<and>
      (if alive (nd (net_of m)) then length tr = n
       else if dval (nd (net_of m)) = Map.empty then server_main stod (Server_init arg fd bind_rv listen_rv) now is = None
       else \<exists>w. server_main stod (Server_init arg fd bind_rv listen_rv) now is = Some w \<and> entries (srv w) = Map.empty \<and>
         fst (ttl (srv w)) = [] \<and> hmap_nodes (g_data (srv w)) = {#} \<and> conns w = Map.empty \<and> dom (links (idle w)) = {idle_list})) \<and>
    ((\<forall>k. \<exists>outs s. poll_rounds stod (nat lfd) (stake k is) loop_init = Some (outs, s) \<and> is_running (srv (lw s))) \<longrightarrow>
      server_main stod (Server_init arg fd bind_rv listen_rv) now is = None)"
proof (intro conjI impI)
  show "\<exists>v port. (case arg of None \<Rightarrow> v = 1234 | Some str \<Rightarrow> strtol_value str = Some v) \<and>
      le_bytes 2 port = rev (le_bytes 2 (word_of_int v :: 16 word)) \<and> bind_rv port 0 = 0"
    by (rule Server_init_port [OF assms(1)]) blast
next
  obtain tr s m k where r: "poll_rounds stod (nat lfd) (stake n is) loop_init = Some (map snd tr, s)" "map fst tr = take k (stake n is)"
    "runs (fnet_step stod (nat lfd)) fnet_init tr m" "loop_rep s m" "k < length (stake n is) \<longrightarrow> \<not> alive (nd (net_of m))"
    by (rule poll_rounds_ok [OF assms(2)])
  have run: "is_running (srv (lw s)) = alive (nd (net_of m))" using r(4) world_running by (auto simp: loop_rep_def)
  have main: "server_main stod (Some lfd) now is = do { srv' \<leftarrow> end_run now (srv (lw s)); delete_conns (fd2conn s) ((lw s)\<lparr>srv := srv'\<rparr>) }"
    if "\<not> alive (nd (net_of m))"
    using poll_loop_ends [OF r(1), of "sdrop n is"] that run by (simp add: server_main_def stake_sdrop)
  have "length tr = min k n" using arg_cong [OF r(2), of length] by simp
  then have len: "map fst tr = take (length tr) (stake n is)" "alive (nd (net_of m)) \<longrightarrow> length tr = n"
    using r(2,5) by (auto simp: take_stake min_def)
  obtain loc where rep: "rep (srv (lw s)) loc (nd (net_of m))" using r(4) by (auto simp: loop_rep_def world_rep_def represents_def)
  have "if alive (nd (net_of m)) then length tr = n
       else if dval (nd (net_of m)) = Map.empty then server_main stod (Some lfd) now is = None
       else \<exists>w. server_main stod (Some lfd) now is = Some w \<and> entries (srv w) = Map.empty \<and>
         fst (ttl (srv w)) = [] \<and> hmap_nodes (g_data (srv w)) = {#} \<and> conns w = Map.empty \<and> dom (links (idle w)) = {idle_list}"
    using end_run_ok [OF rep, of now] delete_all [OF r(4)] main len(2) by fastforce
  then show "\<exists>tr s m. poll_rounds stod (nat lfd) (stake n is) loop_init = Some (map snd tr, s) \<and> map fst tr = take (length tr) (stake n is) \<and>
      runs (fnet_step stod (nat lfd)) fnet_init tr m \<and> loop_rep s m \<and>
      (if alive (nd (net_of m)) then length tr = n
       else if dval (nd (net_of m)) = Map.empty then server_main stod (Server_init arg fd bind_rv listen_rv) now is = None
       else \<exists>w. server_main stod (Server_init arg fd bind_rv listen_rv) now is = Some w \<and> entries (srv w) = Map.empty \<and>
         fst (ttl (srv w)) = [] \<and> hmap_nodes (g_data (srv w)) = {#} \<and> conns w = Map.empty \<and> dom (links (idle w)) = {idle_list})"
    unfolding assms(1) using r(1,3,4) len(1) by blast
next
  assume "\<forall>k. \<exists>outs s. poll_rounds stod (nat lfd) (stake k is) loop_init = Some (outs, s) \<and> is_running (srv (lw s))"
  then have "poll_loop stod (nat lfd) is loop_init = None" by (rule poll_loop_forever)
  then show "server_main stod (Server_init arg fd bind_rv listen_rv) now is = None" unfolding assms(1) by (simp add: server_main_def)
qed

text \<open>A client sets a key and ends the server, in one batch.\<close>

definition stop_requests :: "bytes list list" where
  "stop_requests = [[ascii ''SET'', [107], [118]], [ascii ''SDIE'']]"

definition stop_input :: poll_input where
  "stop_input = \<lparr>clock = 3,
     answer = Answered None (\<lambda>fd. if fd = 4 then Some (\<lambda>i. 3, 3, sample_ready (requests stop_requests), None) else None),
     timer_clock = 4\<rparr>"

lemma classify_die: "classify [ascii ''SDIE''] = CDie"
  by (simp add: classify_def ascii_def toupper_def)

lemma stop_spec:
  "spec stod now (CSet [107] [118]) db_empty rp d \<longleftrightarrow> rp = RNil \<and> d = touch now [107] (put [107] (AStr [118]) db_empty)"
  by (auto simp: db_empty_def)

lemma stop_batch_ok: "batch_ok stod (\<lambda>i. 3) 0 stop_requests db_empty"
  unfolding stop_requests_def batch_ok.simps classify_set classify_die stop_spec requestable_def
  by (simp add: classify_set classify_die stop_spec del: spec.simps)
    (auto simp: db_ops db_empty_def no_idx_def length_enc_req MAX_MSG_def ascii_def)

lemma stop_framed: "\<forall>cmd \<in> set stop_requests. framed cmd"
  by (simp add: stop_requests_def framed_def length_enc_req ascii_def MAX_MSG_def)

lemma stop_events:
  assumes "fdm m = [4 \<mapsto> 5]" "answer stop_input = Answered client ev"
  shows "events (round_of client ev (timer_clock stop_input) m) =
    [Ready (\<lambda>i. 3) 3 5 (sample_ready (requests stop_requests)), Tick 4]"
  using assms by (auto simp: events_def round_of_def readies_def stop_input_def)

lemma stop_input_ok:
  assumes "fdm m = [4 \<mapsto> 5]" "nd (net_of m) = db_empty" "chan (net_of m) = [5 \<mapsto> ([], [], 1)]" "shape (net_of m) = Fresh 5"
  shows "fnet_ok stod m stop_input"
proof -
  obtain ev where ev: "answer stop_input = Answered None ev" by (simp add: stop_input_def)
  have "safe (net_step stod) (net_ok stod) (net_of m) [Ready (\<lambda>i. 3) 3 5 (sample_ready (requests stop_requests)), Tick 4]"
    unfolding safe.simps
  proof (intro conjI allI impI TrueI)
    show "net_ok stod (net_of m) (Ready (\<lambda>i. 3) 3 5 (sample_ready (requests stop_requests)))"
      unfolding net_ok.simps using assms(3,4) stop_batch_ok [of stod] unfolding assms(2) [symmetric]
      by (intro conjI sample_ready_simps exI [of _ "[]"] exI [of _ 1] exI [of _ stop_requests]) (simp_all add: incomplete_def)
    fix out n assume "net_step stod (net_of m) (Ready (\<lambda>i. 3) 3 5 (sample_ready (requests stop_requests))) out n"
    then have "shape n \<noteq> Crowded" by cases (auto simp: assms(4))
    then show "net_ok stod n (Tick 4)" by simp
  qed
  then show ?thesis using stop_events [OF assms(1) ev] ev by (simp add: fnet_ok_def del: safe.simps)
qed

lemma stop_input_next:
  assumes m: "fdm m = [4 \<mapsto> 5]" "nd (net_of m) = db_empty" "chan (net_of m) = [5 \<mapsto> ([], [], 1)]"
    and step: "fnet_step stod lfd m stop_input out m'"
  shows "\<not> alive (nd (net_of m'))" "dval (nd (net_of m')) \<noteq> Map.empty"
proof -
  let ?r = "Ready (\<lambda>i. 3) 3 5 (sample_ready (requests stop_requests))"
  obtain o1 n1 o2 where n: "net_step stod (net_of m) ?r o1 n1" "net_step stod n1 (Tick 4) o2 (net_of m')"
    using step
  proof cases
    case (answered client ev tr n)
    then show ?thesis using that stop_events [OF m(1) answered(2)] by (auto simp: map_eq_Cons_conv simp del: net_tick)
  qed (simp add: stop_input_def)
  have "nd n1 = (touch 3 [107] (put [107] (AStr [118]) db_empty))\<lparr>alive := False\<rparr>"
    using n(1)
  proof cases
    case (service p ys t0 cmds rest rps d' bs kept closed)
    have p: "p = []" using service(3) m(3) by simp
    have eq: "requests cmds @ rest = requests stop_requests @ []" using service(4) p by simp
    have "cmds = stop_requests \<and> rest = []"
      by (rule requests_unique [OF batch_framed [OF service(7,6)] stop_framed eq service(5)]) (simp add: incomplete_def)
    then have "batch stod (\<lambda>i. 3) 0 stop_requests db_empty rps d'" using service(7) m(2) by simp
    then have "d' = (touch 3 [107] (put [107] (AStr [118]) db_empty))\<lparr>alive := False\<rparr>"
      by (auto simp: stop_requests_def classify_set classify_die stop_spec simp del: spec.simps(2))
    then show ?thesis using service(2) by simp
  qed
  moreover obtain ks where ks: "nd (net_of m') = fold drop_key ks (nd n1)" "\<forall>k \<in> set ks. \<exists>v. ddue (nd n1) k = Some v \<and> v < 4"
    using n(2) by auto
  ultimately have "ks = []" by (cases ks) (auto simp: db_ops db_empty_def DEFAULT_TTL_MS_def split: if_splits)
  then show "\<not> alive (nd (net_of m'))" "dval (nd (net_of m')) \<noteq> Map.empty"
    using ks(1) \<open>nd n1 = _\<close> by (auto simp: db_ops fun_eq_iff)
qed

lemma server_main_correct_witness:
  "\<exists>w. server_main (\<lambda>w. Invalid w) (Server_init (Some [56, 48]) 3 (\<lambda>port ip. if port = ntohs 80 then 0 else - 1) 0) 9
     (sample_input ## stop_input ## sconst idle_input) = Some w \<and> entries (srv w) = Map.empty \<and> conns w = Map.empty"
proof -
  let ?stod = "\<lambda>w. Invalid w" and ?is = "sample_input ## stop_input ## sconst idle_input"
  let ?start = "Server_init (Some [56, 48]) 3 (\<lambda>port ip. if port = ntohs 80 then 0 else - 1) 0"
  have started: "?start = Some 3" by code_simp
  have stake: "stake 2 ?is = [sample_input, stop_input]" by (simp add: numeral_2_eq_2)
  have safe: "safe (fnet_step ?stod (nat 3)) (fnet_ok ?stod) fnet_init (stake 2 ?is)"
    unfolding stake using sample_input_safe stop_input_ok [OF sample_input_next(2-5)] by simp
  obtain tr s m where r: "map fst tr = take (length tr) (stake 2 ?is)" "runs (fnet_step ?stod (nat 3)) fnet_init tr m"
    "if alive (nd (net_of m)) then length tr = 2
     else if dval (nd (net_of m)) = Map.empty then server_main ?stod ?start 9 ?is = None
     else \<exists>w. server_main ?stod ?start 9 ?is = Some w \<and> entries (srv w) = Map.empty \<and>
       fst (ttl (srv w)) = [] \<and> hmap_nodes (g_data (srv w)) = {#} \<and> conns w = Map.empty \<and> dom (links (idle w)) = {idle_list}"
    using server_main_correct [OF started safe, of 9] by (elim exE conjE) (rule that)
  have "tr \<noteq> []"
  proof
    assume "tr = []"
    then show False using r(2,3) by (simp add: net_init_def db_empty_def)
  qed
  then obtain out m1 tr' where 1: "tr = (sample_input, out) # tr'" "fnet_step ?stod (nat 3) fnet_init sample_input out m1"
    "runs (fnet_step ?stod (nat 3)) m1 tr' m" "map fst tr' = take (length tr') [stop_input]"
    using r(1,2) unfolding stake by (cases tr) auto
  note m1 = sample_input_next [OF 1(2)]
  have "tr' \<noteq> []"
  proof
    assume "tr' = []"
    then show False using r(3) 1(1,3) m1(3) by (simp add: db_empty_def)
  qed
  then obtain out' where "fnet_step ?stod (nat 3) m1 stop_input out' m"
    using 1(3,4) by (cases tr') auto
  from stop_input_next [OF m1(2-4) this] show ?thesis using r(3) by auto
qed

end
