(* ===== verification/MRD_Client.thy ===== *)
theory MRD_Client
  imports MRD_Setup
begin

text \<open>
  The client (\<^verbatim>\<open>client/client.cpp\<close>): reading a prompt, sending the request, reading and printing
  the reply. The system calls \<open>recv\<close> and \<open>send\<close> are parameters, what is printed is a value.
\<close>

subsection \<open>Sending\<close>

text \<open>The loop over the strings; \<open>len\<close> is the \<^verbatim>\<open>uint32_t\<close> that counts the bytes.\<close>

fun send_strs :: "bytes list \<Rightarrow> buffer \<Rightarrow> u32 \<Rightarrow> (buffer \<times> u32) option" where
  "send_strs [] b len = Some (b, len)"
| "send_strs (s # cmd) b len = do { (b, n) \<leftarrow> out_str b s; send_strs cmd b (len + n) }"

definition send_req :: "('s \<Rightarrow> bytes \<Rightarrow> int \<times> 's) \<Rightarrow> 's \<Rightarrow> bytes list \<Rightarrow> (int \<times> 's) option" where
  "send_req send s cmd = do {
     b \<leftarrow> Buffer_append_u32 (Buffer_init (64 * 1024)) 0;
     b \<leftarrow> Buffer_append_u32 b (of_nat (length cmd));
     (b, len) \<leftarrow> send_strs cmd b 4;
     (if unat len > MAX_MSG then Some (- 1, s)
      else do {
        m \<leftarrow> write_at (data_begin b) (map Some (le_bytes 4 len)) (mem b);
        write_buffer send s (b\<lparr>mem := m\<rparr>)
      })
   }"

subsection \<open>Printing\<close>

text \<open>What is printed on standard output, line by line.\<close>

datatype line =
  LNil | LErr string u32 bytes | LStr u32 bytes | LInt "64 word" | LDbl u64 | LArr u32 | LEnd

text \<open>
  The bytes of a reply in the buffer it was read into; those behind it were never written, and
  reading them is undefined.
\<close>

definition bytes_at :: "bytes \<Rightarrow> nat \<Rightarrow> nat \<Rightarrow> bytes option" where
  "bytes_at m pos n = (if pos + n \<le> length m then Some (take n (drop pos m)) else None)"

text \<open>
  \<open>print_response junk m pos sz\<close> prints the value at \<open>pos\<close> and returns the \<^verbatim>\<open>int32_t\<close> of the
  code; \<open>junk pos\<close> is what the stack holds where \<^verbatim>\<open>code\<close> is, of which only one byte is set. In the
  loop over an array \<open>cur\<close> is \<^verbatim>\<open>&data[arr_bytes]\<close> and \<open>sz\<close> is \<^verbatim>\<open>size - arr_bytes\<close>.
\<close>

function (sequential) print_response :: "(nat \<Rightarrow> u32) \<Rightarrow> bytes \<Rightarrow> nat \<Rightarrow> u64 \<Rightarrow> (int \<times> line list) option"
  and print_elems :: "(nat \<Rightarrow> u32) \<Rightarrow> bytes \<Rightarrow> nat \<Rightarrow> nat \<Rightarrow> u64 \<Rightarrow> (int \<times> nat \<times> line list) option" where
  "print_response junk m pos sz =
    (if sz < 1 then Some (- 1, [])
     else if pos \<ge> length m then None
     else let tag = m ! pos in
       if tag = TAG_NIL then Some (0, [LNil])
       else if tag = TAG_ERR then
         (if sz < 6 then Some (- 1, [])
          else do {
            c \<leftarrow> bytes_at m (pos + 1) 1;
            l \<leftarrow> bytes_at m (pos + 2) 4;
            let code = (junk pos AND 0xFFFFFF00) OR le_word c;
            let len = le_word l;
            (if sz < ucast (1 + 1 + 4 + len) then Some (- 1, [])
             else do {
               s \<leftarrow> bytes_at m (pos + 6) (unat len);
               Some (sint (1 + 8 + len), [LErr (get_err code) len s])
             })
          })
       else if tag = TAG_STR then
         (if sz < 1 + 4 then Some (- 1, [])
          else do {
            l \<leftarrow> bytes_at m (pos + 1) 4;
            let len = le_word l;
            (if sz < ucast (1 + 4 + len) then Some (- 1, [])
             else do {
               s \<leftarrow> bytes_at m (pos + 5) (unat len);
               Some (sint (1 + 4 + len), [LStr len s])
             })
          })
       else if tag = TAG_INT then
         (if sz < 1 + 8 then Some (- 1, [])
          else do { v \<leftarrow> bytes_at m (pos + 1) 8; Some (1 + 8, [LInt (le_word v)]) })
       else if tag = TAG_DBL then
         (if sz < 1 + 8 then Some (- 1, [])
          else do { v \<leftarrow> bytes_at m (pos + 1) 8; Some (1 + 8, [LDbl (le_word v)]) })
       else if tag = TAG_ARR then
         (if sz < 1 + 4 then Some (- 1, [])
          else do {
            l \<leftarrow> bytes_at m (pos + 1) 4;
            let len = (le_word l :: u32);
            (rv, cur, out) \<leftarrow> print_elems junk m (unat len) (pos + (1 + 4)) (sz - (1 + 4));
            (if rv < 0 then Some (rv, LArr len # out)
             else Some (sint (of_nat (cur - pos) :: u32), LArr len # out @ [LEnd]))
          })
       else Some (- 1, []))"
| "print_elems junk m 0 cur sz = Some (0, cur, [])"
| "print_elems junk m (Suc n) cur sz = do {
     (rv, out) \<leftarrow> print_response junk m cur sz;
     (if rv < 0 then Some (rv, cur, out)
      else do {
        (rv', cur, out') \<leftarrow> print_elems junk m n (cur + nat rv) (sz - of_int rv);
        Some (rv', cur, out @ out')
      })
   }"
  by pat_completeness auto
termination
  by (relation "measures
      [\<lambda>x. case x of Inl (junk, m, pos, sz) \<Rightarrow> length m - pos | Inr (junk, m, n, cur, sz) \<Rightarrow> length m - cur,
       \<lambda>x. case x of Inl _ \<Rightarrow> 0 | Inr (junk, m, n, cur, sz) \<Rightarrow> Suc n]") auto

declare print_response.simps [simp del]

definition read_res :: "('s \<Rightarrow> nat \<Rightarrow> bytes option \<times> 's) \<Rightarrow> (nat \<Rightarrow> u32) \<Rightarrow> 's \<Rightarrow> ((int \<times> line list) \<times> 's) option" where
  "read_res recv junk s = do {
     (err, hdr, s) \<leftarrow> read_full recv s 4 [];
     (if err \<noteq> 0 then Some ((err, []), s)
      else let len = (le_word hdr :: u32) in
        if unat len > MAX_MSG then Some ((- 1, []), s)
        else do {
          (err, body, s) \<leftarrow> read_full recv s (unat len) [];
          (if err \<noteq> 0 then Some ((err, []), s)
           else do { r \<leftarrow> print_response junk body 0 (ucast len); Some (r, s) })
        })
   }"

subsection \<open>The prompt\<close>

text \<open>The loop that splits a line; a token that is a space is skipped without changing the line.\<close>

partial_function (option) tokens :: "bytes \<Rightarrow> bytes list option" where
  "tokens str =
    (if 32 \<in> set str then
       let token = takeWhile (\<lambda>c. c \<noteq> 32) str in
       (if token = [32] then tokens str
        else do { cmd \<leftarrow> tokens (drop (length token + 1) str); Some (token # cmd) })
     else Some (if str = [] then [] else [str]))"

declare tokens.simps [code]

text \<open>\<^verbatim>\<open>std::getline\<close> leaves an empty line when there is no more input.\<close>

definition getline :: "bytes list \<Rightarrow> bytes \<times> bytes list" where
  "getline input = (case input of [] \<Rightarrow> ([], []) | str # input \<Rightarrow> (str, input))"

text \<open>The loop of \<^verbatim>\<open>main\<close>: what was printed when it ended; \<open>junk i\<close> is the stack in the i-th reply.\<close>

partial_function (option) client_loop ::
  "('s \<Rightarrow> bytes \<Rightarrow> int \<times> 's) \<Rightarrow> ('s \<Rightarrow> nat \<Rightarrow> bytes option \<times> 's) \<Rightarrow> (nat \<Rightarrow> nat \<Rightarrow> u32) \<Rightarrow>
     nat \<Rightarrow> bytes list \<Rightarrow> 's \<Rightarrow> (line list \<times> 's) option" where
  "client_loop send recv junk i input s =
    (let (str, input) = getline input in
       if str = ascii ''EXIT'' then Some ([], s)
       else if str = [] then client_loop send recv junk i input s
       else do {
         cmd \<leftarrow> tokens str;
         (err, s) \<leftarrow> send_req send s cmd;
         (if err \<noteq> 0 then Some ([], s)
          else do {
            ((rv, out), s) \<leftarrow> read_res recv (junk i) s;
            (if rv < 0 then Some (out, s)
             else do {
               (out', s) \<leftarrow> client_loop send recv junk (i + 1) input s;
               Some (out @ out', s)
             })
          })
       })"

declare client_loop.simps [code]

text \<open>The program: what it prints after it has connected.\<close>

definition client_main :: "bytes list \<Rightarrow> int \<Rightarrow> (bytes \<Rightarrow> 32 word option) \<Rightarrow> (16 word \<Rightarrow> 32 word \<Rightarrow> int) \<Rightarrow>
    ('s \<Rightarrow> bytes \<Rightarrow> int \<times> 's) \<Rightarrow> ('s \<Rightarrow> nat \<Rightarrow> bytes option \<times> 's) \<Rightarrow> (nat \<Rightarrow> nat \<Rightarrow> u32) \<Rightarrow> bytes list \<Rightarrow> 's \<Rightarrow>
    (line list \<times> 's) option" where
  "client_main args fd inet_pton connect_rv send recv junk input s = do {
     _ \<leftarrow> client_connect args fd inet_pton connect_rv;
     client_loop send recv junk 0 input s
   }"

subsection \<open>Requests arrive as they were typed\<close>

lemma send_strs_ok:
  "holds b xs \<Longrightarrow> \<exists>b'. send_strs cmd b len = Some (b', len + of_nat (\<Sum>s\<leftarrow>cmd. 5 + length s)) \<and>
    holds b' (xs @ concat (map (\<lambda>s. encode (RStr s)) cmd))"
proof (induction cmd arbitrary: b xs len)
  case (Cons s cmd)
  obtain b1 where b1: "out_str b s = Some (b1, of_nat (length (encode (RStr s))))" "holds b1 (xs @ encode (RStr s))"
    using out_str_writes [OF Cons.prems] unfolding writes_def by blast
  from Cons.IH [OF b1(2), of "len + of_nat (length (encode (RStr s)))"] b1(1)
  show ?case by (auto simp: add.assoc)
qed simp

text \<open>Sending a request writes its frame, whatever the system does.\<close>

lemma send_req_frame:
  assumes len: "length (enc_req cmd) < 2 ^ 32"
  shows "send_req send s cmd =
    (if length (enc_req cmd) > MAX_MSG then Some (- 1, s) else write_all send s (frame (enc_req cmd)))"
proof -
  obtain b1 where b1: "Buffer_append_u32 (Buffer_init (64 * 1024)) 0 = Some b1" "holds b1 (enc_u32 0)"
    using append_u32_holds [OF holds_init, of "64 * 1024" 0] by (auto simp: enc_u32_def)
  obtain b2 where b2: "Buffer_append_u32 b1 (of_nat (length cmd)) = Some b2" "holds b2 (enc_u32 0 @ enc_u32 (length cmd))"
    using append_u32_holds [OF b1(2), of "of_nat (length cmd)"] by (auto simp: enc_u32_def)
  define l :: u32 where "l = of_nat (length (enc_req cmd))"
  have l: "unat l = length (enc_req cmd)" unfolding l_def using len by (rule unat_u32)
  obtain b3 where b3: "send_strs cmd b2 4 = Some (b3, l)" "holds b3 (enc_u32 0 @ enc_req cmd)"
  proof -
    have "l = 4 + of_nat (\<Sum>s\<leftarrow>cmd. 5 + length s)" by (simp only: l_def length_enc_req of_nat_add of_nat_numeral)
    then show ?thesis using send_strs_ok [OF b2(2), of cmd 4] that by (auto simp: enc_req_def)
  qed
  have start: "data_end b3 = data_begin b3 + length (enc_u32 0 @ enc_req cmd)" "data_end b3 \<le> buf_size b3"
    using b3(2) length_enc_u32 [of 0] unfolding holds_def buf_ok_def by auto
  obtain b4 where b4: "Buffer_patch b3 (4 + length (enc_req cmd)) (le_bytes 4 l) = Some b4" "holds b4 (le_bytes 4 l @ enc_req cmd)"
    using buf.patch_hole [of b3 "[]" "enc_u32 0" "enc_req cmd" "le_bytes 4 l"] b3(2) by auto
  have "data_end b3 - (4 + length (enc_req cmd)) = data_begin b3" using start(1) by simp
  then obtain m where m: "write_at (data_begin b3) (map Some (le_bytes 4 l)) (mem b3) = Some m" "b4 = b3\<lparr>mem := m\<rparr>"
    using b4(1) unfolding Buffer_patch_def by (auto simp: bind_simps)
  have "length (le_bytes 4 l @ enc_req cmd) = data_length b3" using holds_length [OF b3(2)] by simp
  then have "Buffer_front (b3\<lparr>mem := m\<rparr>) (data_length b3) = Some (frame (enc_req cmd))"
    using Buffer_front_holds [OF b4(2), of "data_length b3"] unfolding m(2) frame_def enc_u32_def l_def by simp
  then show ?thesis using b1(1) b2(1) b3(1) m(1) by (simp add: send_req_def write_buffer_def l)
qed

lemma send_req_ok:
  assumes send: "\<And>s d rv s'. send s d = (rv, s') \<Longrightarrow> d \<noteq> [] \<Longrightarrow> nat rv \<le> length d \<and> sent s' = sent s @ take (nat rv) d"
    and len: "length (enc_req cmd) < 2 ^ 32"
  shows "if length (enc_req cmd) \<le> MAX_MSG
    then \<exists>rv s' k. send_req send s cmd = Some (rv, s') \<and> sent s' = sent s @ take k (frame (enc_req cmd)) \<and>
      (rv = 0 \<and> k = length (frame (enc_req cmd)) \<or> rv = - 1 \<and> k < length (frame (enc_req cmd)))
    else send_req send s cmd = Some (- 1, s)"
  using send_req_frame [OF len, of send s] write_all_ok [of send sent s "frame (enc_req cmd)", OF send] by simp

lemma tokens_ok:
  "\<exists>ts. tokens str = Some ts \<and> (\<forall>t \<in> set ts. 32 \<notin> set t) \<and>
    concat (map (\<lambda>t. t @ [32]) ts) = (if str = [] \<or> last str = 32 then str else str @ [32])"
proof (induction "length str" arbitrary: str rule: less_induct)
  case less
  show ?case
  proof (cases "32 \<in> set str")
    case False
    then have "str \<noteq> [] \<Longrightarrow> last str \<noteq> 32" using last_in_set by fastforce
    then show ?thesis using False by (auto simp: tokens.simps [of str])
  next
    case True
    let ?t = "takeWhile (\<lambda>c. c \<noteq> 32) str" and ?r = "drop (length (takeWhile (\<lambda>c. c \<noteq> 32) str) + 1) str"
    have notin: "32 \<notin> set ?t" using set_takeWhileD by fastforce
    then have ne: "?t \<noteq> [32]" by force
    have "dropWhile (\<lambda>c. c \<noteq> 32) str \<noteq> []" using True by (auto simp: dropWhile_eq_Nil_conv)
    then obtain x r where x: "dropWhile (\<lambda>c. c \<noteq> 32) str = x # r" by (cases "dropWhile (\<lambda>c. c \<noteq> 32) str") auto
    then have x32: "x = 32" using hd_dropWhile [of "\<lambda>c. c \<noteq> 32" str] by simp
    have str: "str = ?t @ 32 # r" using takeWhile_dropWhile_id [of "\<lambda>c. c \<noteq> 32" str] unfolding x x32 by simp
    have r: "?r = r" using arg_cong [OF x, of tl] by (simp add: dropWhile_eq_drop drop_Suc tl_drop [symmetric])
    have "length r < length str" using arg_cong [OF str, of length] by simp
    from less [OF this] obtain ts where ts: "tokens r = Some ts" "\<forall>t \<in> set ts. 32 \<notin> set t"
      "concat (map (\<lambda>t. t @ [32]) ts) = (if r = [] \<or> last r = 32 then r else r @ [32])" by blast
    have "tokens str = Some (?t # ts)" using True ne r ts(1) by (subst tokens.simps) (simp add: Let_def)
    moreover have "concat (map (\<lambda>t. t @ [32]) (?t # ts)) = (if last str = 32 then str else str @ [32])"
    proof -
      have "last str = last (32 # r)" by (subst str) (rule last_appendR, simp)
      then have "concat (map (\<lambda>t. t @ [32]) ts) = (if last str = 32 then r else r @ [32])"
        using ts(3) by (simp split: if_splits)
      then have "concat (map (\<lambda>t. t @ [32]) (?t # ts)) = (if last str = 32 then ?t @ 32 # r else (?t @ 32 # r) @ [32])"
        by simp
      then show ?thesis unfolding str [symmetric] .
    qed
    ultimately show ?thesis using ts(2) notin str by (intro exI [of _ "?t # ts"]) auto
  qed
qed

subsection \<open>Replies are printed as they were sent\<close>

text \<open>Replies without a nil or an error, whose printed length is the length read.\<close>

fun regular :: "reply \<Rightarrow> bool" where
  "regular RNil = False"
| "regular (RErr t m) = False"
| "regular (RArr rs) = (\<forall>r \<in> set rs. regular r)"
| "regular _ = True"

fun render :: "reply \<Rightarrow> line list" where
  "render RNil = [LNil]"
| "render (RErr t m) = [LErr (get_err (ucast t)) (of_nat (length m)) m]"
| "render (RStr s) = [LStr (of_nat (length s)) s]"
| "render (RInt v) = [LInt v]"
| "render (RDbl v) = [LDbl v]"
| "render (RArr rs) = LArr (of_nat (length rs)) # concat (map render rs) @ [LEnd]"

lemma sint_of_nat_u32: "n < 2 ^ 31 \<Longrightarrow> sint (of_nat n :: u32) = int n"
  by (simp add: signed_of_nat signed_take_bit_int_eq_self)

lemma bytes_at_drop:
  assumes "drop pos m = hs @ xs @ ys" "hs \<noteq> []" "k = length hs" "n = length xs"
  shows "bytes_at m (pos + k) n = Some xs"
proof -
  have "length m - pos = length hs + length xs + length ys" using arg_cong [OF assms(1), of length] by simp
  moreover have "0 < length hs" using assms(2) by simp
  ultimately have "pos + k + n \<le> length m" using assms(3,4) by linarith
  moreover have "take n (drop (pos + k) m) = xs"
    using assms by (simp add: drop_drop [symmetric] add.commute [of pos])
  ultimately show ?thesis by (simp add: bytes_at_def)
qed

lemma first_byte: "drop pos m = t # xs \<Longrightarrow> pos < length m \<and> m ! pos = t"
  by (metis drop_all hd_drop_conv_nth leI list.discI list.sel(1))

lemma size_check:
  assumes "n + c < 2 ^ 32" "n + c \<le> unat (sz :: u64)"
  shows "\<not> sz < ucast (of_nat (c + n) :: u32)"
proof -
  have "unat (of_nat (c + n) :: u32) = n + c" using unat_u32 [of "c + n"] assms(1) by linarith
  then have "unat (ucast (of_nat (c + n) :: u32) :: u64) = n + c"
    using assms(1) by (simp add: unsigned_ucast_eq take_bit_nat_eq_self)
  then show ?thesis using assms(2) by (simp add: word_less_nat_alt del: of_nat_add)
qed

lemma drop_more: "drop pos m = xs @ ys \<Longrightarrow> k = length xs \<Longrightarrow> drop (pos + k) m = ys"
  by (metis add.commute append_eq_conv_conj drop_drop)

lemma encode_pos: "0 < length (encode r)"
  by (cases r) simp_all

lemma concat_encode_length: "length rs \<le> length (concat (map encode rs))"
proof (induction rs)
  case (Cons r rs)
  then show ?case using encode_pos [of r] unfolding list.map concat.simps length_append list.size by linarith
qed simp

lemma fits_encode: "length (encode r) < 2 ^ 32 \<Longrightarrow> fits r"
proof (induction r)
  case (RArr rs)
  have "length (encode r) \<le> length (concat (map encode rs))" if "r \<in> set rs" for r
    using that by (induction rs) auto
  then show ?case using RArr concat_encode_length [of rs] by fastforce
qed simp_all

lemma print_elems_ok:
  assumes "\<And>r pos sz rest. r \<in> set rs \<Longrightarrow> drop pos m = encode r @ rest \<Longrightarrow> length (encode r) \<le> unat sz \<Longrightarrow>
      print_response junk m pos sz = Some (int (length (encode r)), render r)"
    and "drop cur m = concat (map encode rs) @ rest" "length (concat (map encode rs)) \<le> unat sz"
  shows "print_elems junk m (length rs) cur sz = Some (0, cur + length (concat (map encode rs)), concat (map render rs))"
  using assms
proof (induction rs arbitrary: cur sz)
  case (Cons r rs)
  have p: "print_response junk m cur sz = Some (int (length (encode r)), render r)"
    using Cons.prems(1) [of r cur "concat (map encode rs) @ rest" sz] Cons.prems(2,3) by simp
  have "(of_int (int (length (encode r))) :: u64) \<le> sz"
    using Cons.prems(3) by (simp add: word_le_nat_alt unat_of_nat)
  then have u: "unat (sz - of_int (int (length (encode r)))) = unat sz - length (encode r)"
  proof -
    have "length (encode r) < 2 ^ 64" using Cons.prems(3) unsigned_less [of sz, where ?'a = nat] by simp
    then have "unat (of_nat (length (encode r)) :: u64) = length (encode r)" by (intro unat_of_nat_small) simp
    then show ?thesis using \<open>of_int (int (length (encode r))) \<le> sz\<close> by (simp add: unat_sub)
  qed
  have d: "drop (cur + length (encode r)) m = concat (map encode rs) @ rest"
    using drop_more [OF _ refl, of cur m "encode r"] Cons.prems(2) by simp
  have "print_elems junk m (length rs) (cur + length (encode r)) (sz - of_int (int (length (encode r)))) =
      Some (0, cur + length (encode r) + length (concat (map encode rs)), concat (map render rs))"
    by (rule Cons.IH [OF Cons.prems(1) d]) (use u Cons.prems(3) in auto)
  then show ?case using p by (simp add: add.assoc)
qed simp

lemma print_regular:
  assumes "regular r" "drop pos m = encode r @ rest" "length (encode r) \<le> unat sz" "length (encode r) < 2 ^ 31"
  shows "print_response junk m pos sz = Some (int (length (encode r)), render r)"
  using assms
proof (induction r arbitrary: pos sz rest)
  case (RStr s)
  let ?n = "of_nat (length s) :: u32"
  have len: "unat ?n = length s" "sint (1 + 4 + ?n) = int (5 + length s)"
    using RStr.prems(4) sint_of_nat_u32 [of "5 + length s"] by (auto simp: unat_u32)
  have d: "drop pos m = TAG_STR # le_bytes 4 ?n @ s @ rest" using RStr.prems(2) by (simp add: enc_u32_def)
  have b: "bytes_at m (pos + 1) 4 = Some (le_bytes 4 ?n)" "bytes_at m (pos + 5) (length s) = Some s"
    using bytes_at_drop [of pos m "[TAG_STR]" "le_bytes 4 ?n" "s @ rest" 1 4]
      bytes_at_drop [of pos m "TAG_STR # le_bytes 4 ?n" s rest 5 "length s"] d by simp_all
  have sz: "\<not> sz < 1" "\<not> sz < 1 + 4" "\<not> sz < ucast (1 + 4 + ?n)"
    using size_check [of 0 1 sz] size_check [of 0 5 sz] size_check [of "length s" 5 sz] RStr.prems(3,4) by simp_all
  show ?case using first_byte [OF d] b sz len by (simp add: print_response.simps [of junk m pos] Let_def tag_defs)
next
  case (RInt v)
  have d: "drop pos m = TAG_INT # le_bytes 8 v @ rest" using RInt.prems(2) by simp
  have b: "bytes_at m (pos + 1) 8 = Some (le_bytes 8 v)"
    using bytes_at_drop [of pos m "[TAG_INT]" "le_bytes 8 v" rest 1 8] d by simp
  have sz: "\<not> sz < 1" "\<not> sz < 1 + 8"
    using size_check [of 0 1 sz] size_check [of 0 9 sz] RInt.prems(3) by simp_all
  show ?case using first_byte [OF d] b sz by (simp add: print_response.simps [of junk m pos] Let_def tag_defs)
next
  case (RDbl v)
  have d: "drop pos m = TAG_DBL # le_bytes 8 v @ rest" using RDbl.prems(2) by simp
  have b: "bytes_at m (pos + 1) 8 = Some (le_bytes 8 v)"
    using bytes_at_drop [of pos m "[TAG_DBL]" "le_bytes 8 v" rest 1 8] d by simp
  have sz: "\<not> sz < 1" "\<not> sz < 1 + 8"
    using size_check [of 0 1 sz] size_check [of 0 9 sz] RDbl.prems(3) by simp_all
  show ?case using first_byte [OF d] b sz by (simp add: print_response.simps [of junk m pos] Let_def tag_defs)
next
  case (RArr rs)
  let ?n = "of_nat (length rs) :: u32" and ?b = "concat (map encode rs)"
  have n: "unat ?n = length rs" using fits_encode [of "RArr rs"] RArr.prems(4) by (intro unat_u32) auto
  have d: "drop pos m = TAG_ARR # le_bytes 4 ?n @ ?b @ rest" using RArr.prems(2) by (simp add: enc_u32_def)
  have b: "bytes_at m (pos + 1) 4 = Some (le_bytes 4 ?n)"
    using bytes_at_drop [of pos m "[TAG_ARR]" "le_bytes 4 ?n" "?b @ rest" 1 4] d by simp
  have sz: "\<not> sz < 1" "\<not> sz < 1 + 4"
    using size_check [of 0 1 sz] size_check [of 0 5 sz] RArr.prems(3) by simp_all
  have len: "5 + length ?b \<le> unat sz" "5 + length ?b < 2 ^ 31" using RArr.prems(3,4) by simp_all
  have u: "unat (sz - (1 + 4)) = unat sz - 5" using sz(2) by (simp add: unat_sub not_less)
  have el: "print_elems junk m (length rs) (pos + 5) (sz - (1 + 4)) = Some (0, pos + 5 + length ?b, concat (map render rs))"
  proof (rule print_elems_ok)
    show "drop (pos + 5) m = ?b @ rest" by (rule drop_more [of pos m "TAG_ARR # le_bytes 4 ?n"]) (simp_all add: d)
    show "length ?b \<le> unat (sz - (1 + 4))" using u len(1) by simp
    fix r pos sz rest
    assume r: "r \<in> set rs" "drop pos m = encode r @ rest" "length (encode r) \<le> unat (sz :: u64)"
    then have "length (encode r) \<le> length ?b" by (induction rs) auto
    then show "print_response junk m pos sz = Some (int (length (encode r)), render r)"
      using RArr.IH [OF r(1) _ r(2,3)] RArr.prems(1) r(1) len(2) by simp
  qed
  have s: "sint (of_nat (5 + length ?b) :: u32) = int (5 + length ?b)" by (rule sint_of_nat_u32 [OF len(2)])
  show ?case using first_byte [OF d] b sz el n s by (simp add: print_response.simps [of junk m pos] Let_def tag_defs)
qed simp_all

subsection \<open>Reading a reply\<close>

text \<open>What the server may send: a nil or an error only as the whole reply.\<close>

definition printable :: "reply \<Rightarrow> bool" where
  "printable r = (case r of RNil \<Rightarrow> True | RErr t m \<Rightarrow> True | _ \<Rightarrow> regular r)"

definition printed :: "u32 \<Rightarrow> reply \<Rightarrow> line list" where
  "printed junk r = (case r of
     RErr t m \<Rightarrow> [LErr (get_err ((junk AND 0xFFFFFF00) OR ucast t)) (of_nat (length m)) m]
   | _ \<Rightarrow> render r)"

lemma print_err:
  assumes "length (encode (RErr t s)) < 2 ^ 30"
  shows "print_response junk (encode (RErr t s)) 0 (of_nat (length (encode (RErr t s)))) =
    Some (9 + int (length s), printed (junk 0) (RErr t s))"
proof -
  let ?n = "of_nat (length s) :: u32" and ?m = "encode (RErr t s)"
  define sz :: u64 where "sz = of_nat (length ?m)"
  have len: "unat ?n = length s" "sint (1 + 8 + ?n) = int (9 + length s)"
    using assms sint_of_nat_u32 [of "9 + length s"] by (auto simp: unat_u32)
  have d: "drop 0 ?m = TAG_ERR # t # le_bytes 4 ?n @ s" by (simp add: enc_u32_def)
  have b: "bytes_at ?m (0 + 1) 1 = Some [t]" "bytes_at ?m (0 + 2) 4 = Some (le_bytes 4 ?n)"
    "bytes_at ?m (0 + 6) (length s) = Some s"
    using bytes_at_drop [of 0 ?m "[TAG_ERR]" "[t]" "le_bytes 4 ?n @ s" 1 1]
      bytes_at_drop [of 0 ?m "[TAG_ERR, t]" "le_bytes 4 ?n" s 2 4]
      bytes_at_drop [of 0 ?m "TAG_ERR # t # le_bytes 4 ?n" s "[]" 6 "length s"] by (simp_all add: enc_u32_def)
  have s: "unat sz = 6 + length s" using assms unfolding sz_def by (subst unat_of_nat_small) simp_all
  have sz: "\<not> sz < 1" "\<not> sz < 6" "\<not> sz < ucast (1 + 1 + 4 + ?n)"
    using size_check [of 0 1 sz] size_check [of 0 6 sz] size_check [of "length s" 6 sz] s assms by simp_all
  have "print_response junk ?m 0 sz = Some (9 + int (length s), printed (junk 0) (RErr t s))"
    using first_byte [OF d] b sz len
    by (simp add: print_response.simps [of junk ?m 0] Let_def tag_defs printed_def del: encode.simps)
  then show ?thesis unfolding sz_def .
qed

lemma print_printable:
  assumes "printable r" "length (encode r) \<le> MAX_MSG"
  obtains rv where "print_response junk (encode r) 0 (of_nat (length (encode r))) = Some (rv, printed (junk 0) r)" "0 \<le> rv"
proof (cases "regular r")
  case True
  have "unat (of_nat (length (encode r)) :: u64) = length (encode r)"
    using assms(2) by (intro unat_of_nat_small) (simp add: MAX_MSG_def)
  moreover have "printed (junk 0) r = render r" using True by (cases r) (simp_all add: printed_def)
  ultimately show ?thesis
    using that print_regular [OF True, of 0 "encode r" "[]" "of_nat (length (encode r))" junk] assms(2)
    by (simp add: MAX_MSG_def)
next
  case False
  then consider "r = RNil" | t m where "r = RErr t m" using assms(1) by (cases r) (auto simp: printable_def)
  then show ?thesis
  proof cases
    case 1
    have "print_response junk [TAG_NIL] 0 1 = Some (0, [LNil])" by (simp add: print_response.simps)
    then show ?thesis using that 1 by (simp add: printed_def)
  next
    case 2
    then show ?thesis using that print_err [of t m junk] assms(2) by (simp add: MAX_MSG_def)
  qed
qed

lemma read_res_ok:
  assumes dl: "delivers recv pending" and p: "pending s = frame (encode r) @ rest"
    and r: "printable r" "length (encode r) \<le> MAX_MSG"
  shows "\<exists>rv s'. read_res recv junk s = Some ((rv, printed (junk 0) r), s') \<and> 0 \<le> rv \<and> pending s' = rest"
proof -
  let ?n = "of_nat (length (encode r)) :: u32"
  have u: "unat ?n = length (encode r)" using r(2) by (intro unat_u32) (simp add: MAX_MSG_def)
  obtain s1 where s1: "read_full recv s 4 [] = Some (0, le_bytes 4 ?n, s1)" "pending s1 = encode r @ rest"
    using read_full_stream [OF dl, of 4 s "[]"] p by (auto simp: frame_def enc_u32_def)
  obtain s2 where s2: "read_full recv s1 (length (encode r)) [] = Some (0, encode r, s2)" "pending s2 = rest"
    using read_full_stream [OF dl, of "length (encode r)" s1 "[]"] s1(2) by auto
  have "unat (ucast ?n :: u64) = length (encode r)" using u r(2) by (simp add: unsigned_ucast_eq take_bit_nat_eq_self MAX_MSG_def)
  moreover have "(ucast ?n :: u64) = of_nat (unat (ucast ?n :: u64))" by simp
  ultimately have uc: "(ucast ?n :: u64) = of_nat (length (encode r))" by metis
  obtain rv where "print_response junk (encode r) 0 (of_nat (length (encode r))) = Some (rv, printed (junk 0) r)" "0 \<le> rv"
    by (rule print_printable [OF r])
  then show ?thesis using s1(1) s2 u uc r(2) by (simp add: read_res_def Let_def)
qed

subsection \<open>Properties\<close>

text \<open>C26: The prompt splits a line at every single space: \<open>tokens\<close> returns for every line, no token
  contains a space, and the tokens, each followed by a space, give back the line (with a space at the
  end when it had none). So two spaces in a row, and a space at the start, give empty tokens.\<close>

theorem tokens_correct:
  "\<exists>ts. tokens str = Some ts \<and> (\<forall>t \<in> set ts. 32 \<notin> set t) \<and>
    concat (map (\<lambda>t. t @ [32]) ts) = (if str = [] \<or> last str = 32 then str else str @ [32])"
  by (rule tokens_ok)

lemma tokens_correct_witness:
  "\<exists>ts. tokens [71, 32, 32, 107] = Some ts \<and> (\<forall>t \<in> set ts. 32 \<notin> set t) \<and> concat (map (\<lambda>t. t @ [32]) ts) = [71, 32, 32, 107, 32]"
  using tokens_correct [of "[71, 32, 32, 107]"] by simp

text \<open>C25: Sending a request through any system that takes a prefix of what it is given returns 0
  exactly when the frame of the encoded request was sent, in order and once, and otherwise -1 with
  a proper prefix sent; a request longer than a message is refused with -1 and nothing is sent.\<close>

theorem send_req_correct:
  assumes "\<And>s d rv s'. send s d = (rv, s') \<Longrightarrow> d \<noteq> [] \<Longrightarrow> nat rv \<le> length d \<and> sent s' = sent s @ take (nat rv) d"
    and "length (enc_req cmd) < 2 ^ 32"
  shows "if length (enc_req cmd) \<le> MAX_MSG
    then \<exists>rv s' k. send_req send s cmd = Some (rv, s') \<and> sent s' = sent s @ take k (frame (enc_req cmd)) \<and>
      (rv = 0 \<and> k = length (frame (enc_req cmd)) \<or> rv = - 1 \<and> k < length (frame (enc_req cmd)))
    else send_req send s cmd = Some (- 1, s)"
  by (rule send_req_ok [OF assms])

lemma send_req_correct_witness:
  "\<exists>rv s' k. send_req (\<lambda>s d. (int (min 2 (length d)), s @ take 2 d)) [] [[71], [107]] = Some (rv, s') \<and>
     s' = take k (frame (enc_req [[71], [107]])) \<and>
     (rv = 0 \<and> k = length (frame (enc_req [[71], [107]])) \<or> rv = - 1 \<and> k < length (frame (enc_req [[71], [107]])))"
proof -
  have len: "length (enc_req [[71], [107]]) < 2 ^ 32" "length (enc_req [[71], [107]]) \<le> MAX_MSG"
    by (simp_all add: length_enc_req MAX_MSG_def)
  have "if length (enc_req [[71], [107]]) \<le> MAX_MSG
    then \<exists>rv s' k. send_req (\<lambda>s d. (int (min 2 (length d)), s @ take 2 d)) [] [[71], [107]] = Some (rv, s') \<and>
      id s' = id [] @ take k (frame (enc_req [[71], [107]])) \<and>
      (rv = 0 \<and> k = length (frame (enc_req [[71], [107]])) \<or> rv = - 1 \<and> k < length (frame (enc_req [[71], [107]])))
    else send_req (\<lambda>s d. (int (min 2 (length d)), s @ take 2 d)) [] [[71], [107]] = Some (- 1, [])"
    by (rule send_req_correct [OF _ len(1)]) (auto simp: min_def)
  then show ?thesis unfolding if_P [OF len(2)] id_apply append_Nil .
qed

text \<open>C24: A reply of at most a message's length that has no nil and no error inside an array is read
  and printed as it was sent, from any stream that delivers it in whatever pieces, and what follows it
  in the stream is left there. The code of an error is printed under a name that depends on the three
  bytes of \<open>code\<close> that are never set.\<close>

theorem read_res_correct:
  assumes "delivers recv pending" "pending s = frame (encode r) @ rest" "printable r" "length (encode r) \<le> MAX_MSG"
  shows "\<exists>rv s'. read_res recv junk s = Some ((rv, printed (junk 0) r), s') \<and> 0 \<le> rv \<and> pending s' = rest"
  by (rule read_res_ok [OF assms])

lemma read_res_correct_witness:
  "\<exists>rv s'. read_res (\<lambda>s n. (Some (take (min n 2) s), drop (min n 2) s)) (\<lambda>pos. 0)
      (frame (encode (RArr [RStr [104], RDbl 5])) @ [9]) =
    Some ((rv, [LArr 2, LStr 1 [104], LDbl 5, LEnd]), s') \<and> 0 \<le> rv \<and> s' = [9]"
proof -
  have d: "delivers (\<lambda>s n. (Some (take (min n 2) s), drop (min n 2) s)) id" by (auto simp: delivers_def min_def)
  show ?thesis
    using read_res_correct [OF d, of _ "RArr [RStr [104], RDbl 5]" "[9]" "\<lambda>pos. 0"]
    by (simp add: printable_def printed_def MAX_MSG_def)
qed

text \<open>A nil inside an array is not consumed when it is printed: an array that starts with one is
  printed as nils only, whatever follows.\<close>

theorem print_array_nil:
  assumes "Suc (length rs) < 2 ^ 31" "length (encode (RArr (RNil # rs))) < 2 ^ 64"
  shows "print_response junk (encode (RArr (RNil # rs))) 0 (of_nat (length (encode (RArr (RNil # rs))))) =
    Some (5, LArr (of_nat (Suc (length rs))) # replicate (Suc (length rs)) LNil @ [LEnd])"
proof -
  let ?n = "of_nat (Suc (length rs)) :: u32"
  define m where "m = encode (RArr (RNil # rs))"
  define sz :: u64 where "sz = of_nat (length m)"
  have sz: "unat sz = length m" unfolding sz_def m_def using assms(2) by (intro unat_of_nat_small) simp
  have d: "drop 0 m = TAG_ARR # le_bytes 4 ?n @ TAG_NIL # concat (map encode rs)"
    by (simp add: enc_u32_def m_def)
  have b: "bytes_at m (0 + 1) 4 = Some (le_bytes 4 ?n)"
    using bytes_at_drop [of 0 m "[TAG_ARR]" "le_bytes 4 ?n"] d by simp
  have "6 \<le> length m" unfolding m_def by simp
  then have s: "\<not> sz < 1" "\<not> sz < 1 + 4" "\<not> sz - (1 + 4) < 1"
    using sz by (auto simp: word_less_nat_alt unat_sub word_le_nat_alt)
  have nil: "5 < length m" "m ! 5 = TAG_NIL"
    using first_byte [OF drop_more [of 0 m "TAG_ARR # le_bytes 4 ?n" _ 5]] d by simp_all
  have el: "print_elems junk m n 5 (sz - (1 + 4)) = Some (0, 5, replicate n LNil)" for n
  proof (induction n)
    case (Suc n)
    have "print_response junk m 5 (sz - (1 + 4)) = Some (0, [LNil])"
      using nil s(3) by (simp add: print_response.simps [of junk m 5])
    then show ?case using Suc by simp
  qed simp
  have n: "unat ?n = Suc (length rs)" using assms(1) by (intro unat_u32) simp
  have "print_response junk m 0 sz = Some (5, LArr ?n # replicate (Suc (length rs)) LNil @ [LEnd])"
    using first_byte [OF d] b s el [of "Suc (length rs)"] n
    by (simp add: print_response.simps [of junk m 0] Let_def tag_defs del: of_nat_Suc replicate_Suc)
  then show ?thesis unfolding sz_def m_def .
qed

lemma print_array_nil_witness:
  "print_response (\<lambda>pos. 0) (encode (RArr [RNil, RInt 7])) 0 (of_nat (length (encode (RArr [RNil, RInt 7])))) =
    Some (5, [LArr 2, LNil, LNil, LEnd])"
  using print_array_nil [of "[RInt 7]" "\<lambda>pos. 0"] by simp

text \<open>C39: The check of a string's length is done in 32 bits and wraps: a length of 2 ^ 32 - 5 or more
  passes it, and the client reads behind what it received.\<close>

theorem print_str_overflow:
  assumes "unat (l :: u32) \<ge> 2 ^ 32 - 5" "length rest < 2 ^ 31" "5 \<le> unat sz"
  shows "print_response junk (TAG_STR # le_bytes 4 l @ rest) 0 sz = None"
proof -
  let ?m = "TAG_STR # le_bytes 4 l @ rest"
  have b: "bytes_at ?m 1 4 = Some (le_bytes 4 l)" "bytes_at ?m 5 (unat l) = None"
    using assms(1,2) by (simp_all add: bytes_at_def)
  have "unat (1 + 4 + l) = 5 + unat l - 2 ^ 32"
  proof -
    have "unat (5 + l) = (5 + unat l) mod 2 ^ 32" by (simp add: unat_word_ariths)
    also have "\<dots> = 5 + unat l - 2 ^ 32"
    proof -
      have "unat l < 2 ^ 32" using unsigned_less [of l, where ?'a = nat] by simp
      then show ?thesis using assms(1) by (simp add: mod_if)
    qed
    finally show ?thesis by simp
  qed
  moreover have "unat l < 2 ^ 32" using unsigned_less [of l, where ?'a = nat] by simp
  ultimately have "unat (1 + 4 + l) < 5" by linarith
  then have "\<not> sz < ucast (1 + 4 + l)"
    using assms(3) by (simp add: word_less_nat_alt unsigned_ucast_eq take_bit_nat_eq_self)
  moreover have "\<not> sz < 1" "\<not> sz < 1 + 4" using assms(3) by (simp_all add: word_less_nat_alt)
  ultimately show ?thesis using b unfolding print_response.simps [of junk ?m 0 sz]
    by (simp add: Let_def tag_defs)
qed

lemma print_str_overflow_witness:
  "print_response (\<lambda>pos. 0) (TAG_STR # le_bytes 4 (0xFFFFFFFF :: u32) @ [1, 2]) 0 7 = None"
  by (rule print_str_overflow) simp_all

lemma client_loop_end: "client_loop send recv junk i [] s = None"
proof -
  have "input \<noteq> []" if "client_loop send recv junk i input s = Some r" for input r
  proof (rule client_loop.raw_induct [where P = "\<lambda>send recv junk i input s r. input \<noteq> []", OF _ that])
    fix loop :: "('a \<Rightarrow> bytes \<Rightarrow> int \<times> 'a) \<Rightarrow> ('a \<Rightarrow> nat \<Rightarrow> bytes option \<times> 'a) \<Rightarrow> (nat \<Rightarrow> nat \<Rightarrow> u32) \<Rightarrow> nat \<Rightarrow>
      bytes list \<Rightarrow> 'a \<Rightarrow> (line list \<times> 'a) option" and send recv junk i input s r
    assume ih: "\<And>send recv junk i input s y. loop send recv junk i input s = Some y \<Longrightarrow> input \<noteq> []"
      and step: "(let (str, input) = getline input in
        if str = ascii ''EXIT'' then Some ([], s)
        else if str = [] then loop send recv junk i input s
        else do {
          cmd \<leftarrow> tokens str;
          (err, s) \<leftarrow> send_req send s cmd;
          (if err \<noteq> 0 then Some ([], s)
           else do {
             ((rv, out), s) \<leftarrow> read_res recv (junk i) s;
             (if rv < 0 then Some (out, s)
              else do { (out', s) \<leftarrow> loop send recv junk (i + 1) input s; Some (out @ out', s) })
           })
        }) = Some r"
    show "input \<noteq> []"
    proof
      assume e: "input = []"
      then have "loop send recv junk i [] s = Some r" using step by (simp add: getline_def ascii_def)
      then show False using ih by blast
    qed
  qed
  then show ?thesis by (cases "client_loop send recv junk i [] s") auto
qed

text \<open>C40: At the end of its input the client never returns: the lines it reads are empty from then
  on, and an empty line is skipped. With an input of no lines the program does not return at all.\<close>

theorem client_loop_eof:
  "client_loop send recv junk i [] s = None \<and> client_main args fd inet_pton connect_rv send recv junk [] s = None"
  by (cases "client_connect args fd inet_pton connect_rv") (simp_all add: client_main_def client_loop_end)

end
