(* ===== verification/Spec2Isabelle.thy ===== *)
theory Spec2Isabelle
  imports MRD_Poll MRD_Client
begin

text \<open>
  Verification of my_redis, a key-value server in C++ with strings, sorted sets and expiring keys, and
  its command-line client.

  \<^bold>\<open>The program.\<close> The server (\<^verbatim>\<open>src/server\<close>) is one event loop: it polls the connections, reads bytes into
  a buffer per connection, cuts them into requests, runs each command on the data, appends the framed
  reply to the output buffer of the connection and writes it; then it closes idle connections and
  removes expired entries. The data is a hash map of entries; an entry holds a string or a sorted set,
  its node in the map, and a cell with its index in a heap of deadlines. A sorted set is an AVL tree by
  score and name together with a hash map by name. The containers are intrusive: the objects hold the
  links. They are in \<^verbatim>\<open>src/shared\<close>, with the byte buffer and the wire format that the client (\<^verbatim>\<open>src/client\<close>)
  uses too.

  \<^bold>\<open>How the code is modelled.\<close> An object in memory is a value in a store, a map from addresses to records;
  a pointer that may be null is an address option. What may not return (a null or dangling pointer, an
  access outside of an allocation, a failed assertion, an exception that nobody catches, a loop that
  never ends) is an option, with \<open>None\<close> for it. Machine integers are words where the code can wrap
  around; a double is its 64-bit representation with the order of the standard. System calls, the clock
  and \<^verbatim>\<open>std::stod\<close> are arguments. Three simplifications are harmless under the invariants: the comparisons of
  the indices (\<open>key_eq\<close>, \<open>entry_eq\<close>, \<open>names_eq\<close>) are false, and not undefined, for an object that was freed; a
  node of a hash table is a value, so that the insertion of a linked node is not noticed; and the index
  cells of the timers are a total map, so that a write to the cell of a freed entry is not noticed.

  \<^bold>\<open>Theories, from the bottom up.\<close>
  \<^item> \<open>MRD_Prelude\<close>: types, the option monad, and lemmas on lists, maps and words.
  \<^item> \<open>MRD_DList\<close>, \<open>MRD_Idle\<close>: \<^verbatim>\<open>MRD_DList.cpp\<close>, and the list of idle connections in \<^verbatim>\<open>MRD_server.cpp\<close>
    (\<^verbatim>\<open>handle_accept\<close>, \<^verbatim>\<open>conn_destroy\<close>, \<^verbatim>\<open>next_timer_ms\<close>, the first loop of \<^verbatim>\<open>process_timers\<close>). A ring of
    nodes is kept by every operation; the relinking in the main loop has its arguments swapped and loses
    connections.
  \<^item> \<open>MRD_Links\<close>: the shapes that the idle list really takes in the main loop (\<open>queue\<close>), and what acceptance,
    activity, destruction and the timers do to them. The timers only ever see one connection.
  \<^item> \<open>MRD_AvlTree\<close>, \<open>MRD_Avl\<close>, \<open>MRD_AvlStore\<close>, \<open>MRD_AvlDel\<close>, \<open>MRD_AvlNav\<close>, \<open>MRD_AvlSeq\<close>: \<^verbatim>\<open>MRD_avl.cpp\<close>. The
    operations on linked nodes, their relation to trees, rotations, rebalancing, deletion, navigation; in
    the end a tree represents a sequence, which insertion, deletion and \<^verbatim>\<open>offset\<close> act on. \<^verbatim>\<open>rank\<close> counts in a
    subtree only (\<open>AVLNode_rank_correct\<close>), so that it is too small for some nodes.
  \<^item> \<open>MRD_Heap\<close>, \<open>MRD_Timers\<close>: \<^verbatim>\<open>MRD_heap.cpp\<close> and \<^verbatim>\<open>entry_set_ttl\<close>. The heap order and the index cells are
    kept; the heap is a priority queue of deadlines by entry.
  \<^item> \<open>MRD_Hashtable\<close>: \<^verbatim>\<open>MRD_hashtable.cpp\<close>. Chained tables with incremental rehashing; a map holds a
    multiset of nodes. Rehashing never completes as intended, so that a map keeps at most four slots.
  \<^item> \<open>MRD_Buffer\<close>, \<open>MRD_Wire\<close>, \<open>MRD_Request\<close>: \<^verbatim>\<open>MRD_buffer.h\<close>, \<^verbatim>\<open>MRD_utility.h\<close>, \<^verbatim>\<open>parse_req\<close>. The bytes a
    buffer holds, writers and readers, replies, requests with their round trip, the full reads and
    writes, and the numbers of the standard library.
  \<^item> \<open>MRD_Zorder\<close>, \<open>MRD_Zset\<close>, \<open>MRD_ZsetProof\<close>, \<open>MRD_ZsetOps\<close>: \<^verbatim>\<open>MRD_zset.cpp\<close>. The order of members, the
    operations on tree and index, and their refinement of a map from names to scores.
  \<^item> \<open>MRD_Store\<close>, \<open>MRD_StoreSpec\<close>, \<open>MRD_StoreProof\<close>, \<open>MRD_StoreCmd\<close>: the data of the server and its commands
    (\<^verbatim>\<open>do_get\<close> to \<^verbatim>\<open>do_request\<close>). \<open>MRD_StoreSpec\<close> states the abstract database \<open>db\<close>, the relation \<open>spec\<close> of
    every command and the representation \<open>rep\<close>; the two others prove that every command implements it.
  \<^item> \<open>MRD_Conn\<close>, \<open>MRD_ConnProof\<close>: \<^verbatim>\<open>response_end\<close>, \<^verbatim>\<open>try_one_request\<close>, \<^verbatim>\<open>handle_read\<close>, \<^verbatim>\<open>handle_write\<close>, what the
    main loop does for a connection, \<^verbatim>\<open>process_timers\<close> and \<^verbatim>\<open>end_run\<close>; framing, fragmented and pipelined
    requests, malformed input, and the expiry of entries.
  \<^item> \<open>MRD_Run\<close>, \<open>MRD_ServerProps\<close>: the server as a state machine, its simulation by the database, and the
    properties of its parts, with the inputs that end it.
  \<^item> \<open>MRD_World\<close>, \<open>MRD_Loop\<close>: the rounds of \<^verbatim>\<open>main_loop\<close> over connections, idle list, timers and data, and
    their simulation of an abstract server (\<open>net\<close>) that keeps the unread input and the unsent output of
    every connection and says which connections are closed when; no reply is lost or mixed up. The
    hypothesis \<open>net_ok\<close> says what the environment delivers; it excludes the closing of connections only
    when two were accepted with no activity in between (\<open>Crowded\<close>), because then the idle list may lead
    to freed ones (\<open>main_loop_use_after_free\<close>).
  \<^item> \<open>MRD_Poll\<close>: the same loop with descriptors: the table \<^verbatim>\<open>fd2conn\<close>, the arguments and the timeout of \<^verbatim>\<open>poll\<close>,
    \<^verbatim>\<open>handle_accept\<close> with \<^verbatim>\<open>fd_set_nb\<close> and \<^verbatim>\<open>errno\<close>, the loop over the reported descriptors, and \<^verbatim>\<open>main\<close>. The
    loop (\<open>poll_loop\<close>) takes the answers of the system from a stream and may not return; its first rounds
    (\<open>poll_rounds\<close>) refine the abstract server with its map of descriptors (\<open>fnet\<close>), with what each round
    asks \<^verbatim>\<open>poll\<close> for. \<open>interrupted_accept_ends\<close> shows what a set \<^verbatim>\<open>errno\<close> does.
  \<^item> \<open>MRD_Setup\<close>: \<^verbatim>\<open>Server::init\<close> and the first part of the client's \<^verbatim>\<open>main\<close>: the checks of the system calls, the
    address and the port.
  \<^item> \<open>MRD_Client\<close>: \<^verbatim>\<open>client.cpp\<close>, that is the prompt, \<^verbatim>\<open>send_req\<close>, \<^verbatim>\<open>print_response\<close>, \<^verbatim>\<open>read_res\<close>, the loop and \<^verbatim>\<open>main\<close>.
  \<^item> This theory: client and server together.

  \<^bold>\<open>Interfaces.\<close> Where one part relies on another, the laws it uses are a locale, interpreted on the model of
  the part that provides them: \<open>linked_queue\<close> (the idle list), \<open>cursor_sequence\<close> (the AVL tree as a
  sequence), \<open>timer_queue\<close> (the heap with its cells), \<open>keyed_index\<close> (the hash map), \<open>byte_sink\<close> (the buffer),
  \<open>scored_set\<close> (the sorted set), \<open>simulation\<close> (the server and its database, and the main loop and its abstract
  server), and \<open>event_loop\<close>, which extends it by a loop (the rounds over connections, and those over
  descriptors).

  \<^bold>\<open>Bounds and fuel.\<close> \<open>MAX_WORKS\<close>, the number of entries one tick removes, is the fuel of \<open>expire_entries\<close>, as in
  the code. The loops of the program that have no structural bound are partial functions; the theorems
  show that they return. The hypotheses \<open>answerable\<close> and \<open>requestable\<close> name the inputs on which a command
  is defined as specified: scores that are numbers, strings and replies within the length of a message,
  fewer keys than the heap has indices, a timer for TTL, and bounds that parse for ZCOUNT; \<open>commands_crash\<close>,
  \<open>empty_request_crash\<close> and \<open>response_end_long_crash\<close> show what happens otherwise. The rank of a member in
  the reply to ZRANK is specified by bounds, because it depends on the shape of the tree.

  \<^bold>\<open>Not modelled.\<close> What the system calls answer (\<^verbatim>\<open>socket\<close>, \<^verbatim>\<open>poll\<close>, \<^verbatim>\<open>accept\<close>, \<^verbatim>\<open>read\<close>, \<^verbatim>\<open>write\<close> and the others), the clock
  (\<^verbatim>\<open>get_monotonic_msec\<close>) and the addresses of new objects are arguments; an error of a call on a connection
  reaches \<^verbatim>\<open>errno\<close> through the argument too. Logging (\<^verbatim>\<open>msg\<close>, \<^verbatim>\<open>std::cout\<close> and \<^verbatim>\<open>fprintf\<close> in the server) and the
  allocator, which is assumed to succeed, are left out, as are the unused \<^verbatim>\<open>buf_append\<close> and
  \<^verbatim>\<open>buf_consume\<close>. What the client prints is a list of lines, not their text.
\<close>

subsection \<open>Client and server\<close>

text \<open>Lists of strings and doubles, and all other replies of the commands, are printed as they are.\<close>

lemma regular_members: "regular (members m ks)"
  by (auto simp: members_def member_reply_def)

lemma range_printable: "printable (range_spec stod sel score name off lim m)"
  using regular_members [of m]
  by (auto simp: range_spec_def printable_def members_def split: sum.splits prod.splits)

lemma spec_printable: "spec stod now c d rp d' \<Longrightarrow> printable rp"
  using range_printable
  by (cases c) (auto simp: on_set_def printable_def split: option.splits aval.splits sum.splits if_splits)

subsection \<open>Properties\<close>

text \<open>C7: A command typed at the client is executed and its reply printed: when the client has sent an
  admissible command, the server, reading what was sent, answers it as its database specifies, and the
  client, reading the bytes the server has sent or keeps for sending, prints that reply and leaves what
  follows in the stream.\<close>

theorem client_server_roundtrip:
  assumes "rep s loc d" "requestable stod (now 0) cmd d" "holds (incoming c) []" "holds (outgoing c) []"
    and "\<forall>s d rv s'. send s d = (rv, s') \<longrightarrow> d \<noteq> [] \<longrightarrow> nat rv \<le> length d \<and> sent s' = sent s @ take (nat rv) d"
    and "send_req send cs cmd = Some (0, cs')" "\<And>data. fst (wr data) \<le> int (length data)" "delivers recv pending"
  shows "\<exists>wrote left c' s' loc' rp d'.
    handle_read stod now (Some (drop (length (sent cs)) (sent cs'))) wr c s = Some ((wrote, c'), s') \<and>
    rep s' loc' d' \<and> spec stod (now 0) (classify cmd) d rp d' \<and> holds (incoming c') [] \<and> holds (outgoing c') left \<and>
    (\<forall>t rest. pending t = (wrote @ left) @ rest \<longrightarrow>
       (\<exists>rv t'. read_res recv junk t = Some ((rv, printed (junk 0) rp), t') \<and> 0 \<le> rv \<and> pending t' = rest))"
proof -
  have max: "length (enc_req cmd) \<le> MAX_MSG" "length (enc_req cmd) < 2 ^ 32"
    using assms(2) by (auto simp: requestable_def MAX_MSG_def)
  have inp: "drop (length (sent cs)) (sent cs') = frame (enc_req cmd)"
    using send_req_ok [of send sent cmd cs, OF assms(5) [rule_format] max(2)] max(1) assms(6) by auto
  have ne: "frame (enc_req cmd) \<noteq> []" "[] @ frame (enc_req cmd) = requests [cmd] @ []" "incomplete [] \<or> malformed []"
    by (simp_all add: frame_def requests_def incomplete_def)
  have ok: "batch_ok stod now 0 [cmd] d" using assms(2) by simp
  obtain wrote c' s' loc' rps d' left where r:
    "handle_read stod now (Some (frame (enc_req cmd))) wr c s = Some ((wrote, c'), s')"
    "batch stod now 0 [cmd] d rps d'" "rep s' loc' d'" "holds (incoming c') []" "holds (outgoing c') left"
    "wrote @ left = [] @ replies rps"
    using handle_read_ok [OF assms(3) ne assms(4,1) ok assms(7)] by (elim exE conjE) (rule that)
  then obtain rp where rp: "rps = [rp]" "spec stod (now 0) (classify cmd) d rp d'" by auto
  have p: "printable rp" "length (encode rp) \<le> MAX_MSG"
    using spec_printable [OF rp(2)] assms(2) rp(2) by (auto simp: requestable_def)
  have "\<exists>rv t'. read_res recv junk t = Some ((rv, printed (junk 0) rp), t') \<and> 0 \<le> rv \<and> pending t' = rest"
    if "pending t = (wrote @ left) @ rest" for t rest
    by (rule read_res_ok [OF assms(8) _ p]) (use that r(6) rp(1) in \<open>simp add: replies_def\<close>)
  then show ?thesis unfolding inp using r(1,3-5) rp(2) by blast
qed

lemma client_server_roundtrip_witness:
  "\<exists>wrote left c' s'.
    handle_read (\<lambda>w. Invalid w) (\<lambda>i. 7) (Some (frame (enc_req [ascii ''ECHO'', [97]]))) (\<lambda>data. (0, False))
      (conn_new (Buffer_init 8) (Buffer_init 8)) server_init = Some ((wrote, c'), s') \<and>
    (\<exists>rv. read_res (\<lambda>s n. (Some (take n s), drop n s)) (\<lambda>pos. 0) (wrote @ left) = Some ((rv, [LStr 2 [97, 32]]), []))"
proof -
  let ?send = "\<lambda>s d. (int (length d), s @ d)" and ?recv = "\<lambda>s n. (Some (take n s), drop n s)" and ?cmd = "[ascii ''ECHO'', [97]]"
  have len: "length (enc_req ?cmd) < 2 ^ 32" "length (enc_req ?cmd) \<le> MAX_MSG" by (simp_all add: length_enc_req MAX_MSG_def ascii_def)
  have "write_all ?send [] x = Some (0, x)" if "x \<noteq> []" for x :: bytes
    using that by (simp add: write_all.simps)
  then have send: "send_req ?send [] ?cmd = Some (0, frame (enc_req ?cmd))"
    using send_req_frame [OF len(1), of ?send "[]"] len(2) by (simp add: frame_def)
  have ok: "requestable (\<lambda>w. Invalid w) 7 ?cmd db_empty"
    using len(2) by (simp add: requestable_def classify_echo db_empty_def no_idx_def) (simp add: MAX_MSG_def)
  have h: "holds (incoming (conn_new (Buffer_init 8) (Buffer_init 8))) []"
    "holds (outgoing (conn_new (Buffer_init 8) (Buffer_init 8))) []" by (simp_all add: conn_new_def)
  have d: "delivers ?recv id" by (auto simp: delivers_def)
  have law: "\<forall>s d rv s'. ?send s d = (rv, s') \<longrightarrow> d \<noteq> [] \<longrightarrow> nat rv \<le> length d \<and> id s' = id s @ take (nat rv) d"
    by auto
  have wr: "fst (0 :: int, False) \<le> int (length data)" for data :: bytes by simp
  obtain wrote left c' s' rp d' where r:
    "handle_read (\<lambda>w. Invalid w) (\<lambda>i. 7) (Some (drop (length (id ([] :: bytes))) (id (frame (enc_req ?cmd))))) (\<lambda>data. (0, False))
      (conn_new (Buffer_init 8) (Buffer_init 8)) server_init = Some ((wrote, c'), s')"
    "spec (\<lambda>w. Invalid w) 7 (classify ?cmd) db_empty rp d'"
    "\<forall>t rest. id t = (wrote @ left) @ rest \<longrightarrow>
       (\<exists>rv t'. read_res ?recv (\<lambda>pos. 0) t = Some ((rv, printed 0 rp), t') \<and> 0 \<le> rv \<and> id t' = rest)"
    using client_server_roundtrip [where junk = "\<lambda>pos. 0" and send = ?send and sent = id, OF rep_init ok h law send wr d] by (elim exE conjE) (rule that)
  have "rp = RStr [97, 32]" using r(2) by (simp add: classify_echo)
  then show ?thesis using r(1) r(3) [rule_format, of "wrote @ left" "[]"] by (auto simp: printed_def)
qed

end
